theory Spec2Isabelle
  imports Main "HOL-Library.Word" "HOL-Library.Monad_Syntax" "HOL-Library.Multiset"
begin

unbundle bit_operations_syntax

section \<open>The PTH writer of Driver/CacheTokens.cpp\<close>

text \<open>
  Conventions of the embedding.
  \<^item> A value of type \<open>'a option\<close> is the result of code that can abort: \<open>None\<close> means that an
    \<^verbatim>\<open>assert\<close> of the source failed (or that a null or dangling pointer was read).
  \<^item> Byte offsets, hashes and the packed token words are \<open>32 word\<close>, as \<^verbatim>\<open>Offset\<close> and
    \<^verbatim>\<open>uint32_t\<close> are. The counters and indices that the source holds in \<^verbatim>\<open>unsigned\<close> or
    \<^verbatim>\<open>uint32_t\<close> variables are natural numbers below \<open>2^32\<close>: every sum or product that
    the source computes in such a variable is wrapped by \<open>u32\<close>. They are converted with
    \<open>of_nat\<close> where the source writes them to the file. The size of a container is a
    natural number (a \<^verbatim>\<open>size_t\<close>).
  \<^item> The output stream is the list of the bytes written so far; \<^verbatim>\<open>Out.tell()\<close> is its length.
  \<^item> A C string is the list of the characters before its terminating NUL.
\<close>

type_synonym byte = "8 word"
type_synonym Offset = "32 word"
type_synonym raw_ostream = "byte list"

text \<open>The value that an \<^verbatim>\<open>unsigned\<close> variable takes when it is assigned \<open>n\<close>.\<close>

definition u32 :: "nat \<Rightarrow> nat" where
  "u32 n = unat (of_nat n :: 32 word)"

subsection \<open>Primitive encoding (lines 33--75)\<close>

definition tell :: "raw_ostream \<Rightarrow> nat" where
  "tell os = length os"

definition Emit8 :: "raw_ostream \<Rightarrow> 32 word \<Rightarrow> raw_ostream" where
  "Emit8 os V = os @ [ucast V]"

text \<open>\<^verbatim>\<open>Emit16\<close> asserts that the high 16 bits of its argument are zero.\<close>

definition Emit16 :: "raw_ostream \<Rightarrow> 32 word \<Rightarrow> raw_ostream option" where
  "Emit16 os V =
     (if drop_bit 16 V = 0 then Some (os @ [ucast V, ucast (drop_bit 8 V)]) else None)"

definition Emit32 :: "raw_ostream \<Rightarrow> 32 word \<Rightarrow> raw_ostream" where
  "Emit32 os V =
     os @ [ucast V, ucast (drop_bit 8 V), ucast (drop_bit 16 V), ucast (drop_bit 24 V)]"

definition Emit64 :: "raw_ostream \<Rightarrow> 64 word \<Rightarrow> raw_ostream" where
  "Emit64 os V =
     os @ [ucast V, ucast (drop_bit 8 V), ucast (drop_bit 16 V), ucast (drop_bit 24 V),
            ucast (drop_bit 32 V), ucast (drop_bit 40 V), ucast (drop_bit 48 V),
            ucast (drop_bit 56 V)]"

definition Pad :: "raw_ostream \<Rightarrow> 32 word \<Rightarrow> raw_ostream" where
  "Pad os A =
     (let off = (of_nat (tell os) :: Offset);
          n = ((off + A - 1) AND NOT (A - 1)) - off
      in os @ replicate (unat n) 0)"

text \<open>
  \<^verbatim>\<open>BernsteinHash\<close> adds each \<^verbatim>\<open>char\<close> of the string to an \<^verbatim>\<open>unsigned\<close>. Whether plain
  \<^verbatim>\<open>char\<close> is signed is fixed by the platform, so it is a parameter: a signed \<^verbatim>\<open>char\<close> above
  127 is sign-extended.
\<close>

definition char_to_unsigned :: "bool \<Rightarrow> char \<Rightarrow> 32 word" where
  "char_to_unsigned char_signed c =
     (if char_signed \<and> 128 \<le> (of_char c :: nat)
      then of_nat (of_char c) - 256 else of_nat (of_char c))"

definition BernsteinHash :: "bool \<Rightarrow> string \<Rightarrow> 32 word" where
  "BernsteinHash char_signed x =
     (let R = fold (\<lambda>c R. R * 33 + char_to_unsigned char_signed c) x 0
      in R + drop_bit 5 R)"

subsection \<open>The on-disk chained hash table generator (lines 82--188)\<close>

text \<open>
  The \<^verbatim>\<open>Info\<close> template parameter is a record of its four static functions. \<open>'s\<close> is the
  memory that the keys point into (the identifier table's keys are pointers into an array
  that \<^verbatim>\<open>EmitKey\<close> updates); every function that writes returns the new stream.
\<close>

record ('k, 'd, 's) Info =
  ComputeHash :: "'s \<Rightarrow> 'k \<Rightarrow> 32 word option"
  EmitKeyDataLength :: "raw_ostream \<Rightarrow> 's \<Rightarrow> 'k \<Rightarrow> 'd \<Rightarrow> (raw_ostream \<times> nat \<times> nat) option"
  EmitKey :: "raw_ostream \<Rightarrow> 's \<Rightarrow> 'k \<Rightarrow> nat \<Rightarrow> (raw_ostream \<times> 's) option"
  EmitData :: "raw_ostream \<Rightarrow> 's \<Rightarrow> 'k \<Rightarrow> 'd \<Rightarrow> nat \<Rightarrow> raw_ostream option"

text \<open>An item's \<^verbatim>\<open>next\<close> pointer is the tail of the list that holds it.\<close>

record ('k, 'd) Item =
  key :: 'k
  data :: 'd
  hash :: "32 word"

record ('k, 'd) Bucket =
  off :: Offset
  head :: "('k, 'd) Item list"
  length_B :: nat

record ('k, 'd) OnDiskChainedHashTableGenerator =
  NumBuckets :: nat
  NumEntries :: nat
  Buckets :: "('k, 'd) Bucket list"

text \<open>The item's constructor computes the hash of the key.\<close>

definition new_Item :: "('k, 'd, 's) Info \<Rightarrow> 's \<Rightarrow> 'k \<Rightarrow> 'd \<Rightarrow> ('k, 'd) Item option" where
  "new_Item info s k d =
     map_option (\<lambda>h. \<lparr>key = k, data = d, hash = h\<rparr>) (ComputeHash info s k)"

text \<open>
  \<^verbatim>\<open>hash & (size - 1)\<close> is computed in \<^verbatim>\<open>size_t\<close>. The index is at most \<open>size - 1\<close>, so the
  private \<^verbatim>\<open>insert\<close> stays inside an array of \<open>size\<close> buckets.
\<close>

definition bucket_index :: "nat \<Rightarrow> 32 word \<Rightarrow> nat" where
  "bucket_index sz h = unat ((ucast h :: 64 word) AND (of_nat sz - 1))"

definition insert_Item ::
  "('k, 'd) Bucket list \<Rightarrow> nat \<Rightarrow> ('k, 'd) Item \<Rightarrow> ('k, 'd) Bucket list" where
  "insert_Item b sz E =
     (let idx = bucket_index sz (hash E)
      in if idx < length b
         then b[idx := (b ! idx)\<lparr>head := E # head (b ! idx), length_B := u32 (length_B (b ! idx) + 1)\<rparr>]
         else b)"

text \<open>\<^verbatim>\<open>calloc\<close> returns buckets whose bytes are all zero.\<close>

definition calloc_Buckets :: "nat \<Rightarrow> ('k, 'd) Bucket list" where
  "calloc_Buckets n = replicate n \<lparr>off = 0, head = [], length_B = 0\<rparr>"

definition resize ::
  "('k, 'd) OnDiskChainedHashTableGenerator \<Rightarrow> nat \<Rightarrow> ('k, 'd) OnDiskChainedHashTableGenerator" where
  "resize T newsize =
     (let newBuckets =
            fold (\<lambda>i nb. fold (\<lambda>E nb'. insert_Item nb' newsize E) (head (Buckets T ! i)) nb)
              [0..<NumBuckets T] (calloc_Buckets newsize)
      in T\<lparr>NumBuckets := newsize, Buckets := newBuckets\<rparr>)"

text \<open>
  The public \<^verbatim>\<open>insert(key, data)\<close>; the private overload is \<open>insert_Item\<close>. The counters, the
  two products of the test and \<^verbatim>\<open>NumBuckets*2\<close> are \<^verbatim>\<open>unsigned\<close>. When \<^verbatim>\<open>NumBuckets*2\<close> wraps to
  0, \<^verbatim>\<open>resize(0)\<close> and the private \<^verbatim>\<open>insert\<close> write outside an array of no bucket: that is
  outside the model (\<open>None\<close>).
\<close>

definition insert_key_data ::
  "('k, 'd, 's) Info \<Rightarrow> 's \<Rightarrow> 'k \<Rightarrow> 'd \<Rightarrow> ('k, 'd) OnDiskChainedHashTableGenerator
     \<Rightarrow> ('k, 'd) OnDiskChainedHashTableGenerator option" where
  "insert_key_data info s k d T =
     (let T1 = T\<lparr>NumEntries := u32 (NumEntries T + 1)\<rparr>;
          T2 = (if u32 (4 * NumEntries T1) \<ge> u32 (3 * NumBuckets T1)
                then resize T1 (u32 (NumBuckets T1 * 2)) else T1)
      in if NumBuckets T2 = 0 then None
         else map_option (\<lambda>E. T2\<lparr>Buckets := insert_Item (Buckets T2) (NumBuckets T2) E\<rparr>)
                (new_Item info s k d))"

definition new_Generator :: "('k, 'd) OnDiskChainedHashTableGenerator" where
  "new_Generator = \<lparr>NumBuckets = 64, NumEntries = 0, Buckets = calloc_Buckets 64\<rparr>"

text \<open>Inserting a list of key and data pairs, one call of \<^verbatim>\<open>insert\<close> each.\<close>

fun insert_all ::
  "('k, 'd, 's) Info \<Rightarrow> 's \<Rightarrow> ('k \<times> 'd) list \<Rightarrow> ('k, 'd) OnDiskChainedHashTableGenerator
     \<Rightarrow> ('k, 'd) OnDiskChainedHashTableGenerator option" where
  "insert_all info s [] T = Some T"
| "insert_all info s ((k, d) # kds) T =
     (case insert_key_data info s k d T of None \<Rightarrow> None | Some T' \<Rightarrow> insert_all info s kds T')"

text \<open>
  \<^verbatim>\<open>Emit\<close>, the payload: the items of one bucket, from the head of its chain (lines 158--164).
\<close>

fun Emit_Items ::
  "('k, 'd, 's) Info \<Rightarrow> raw_ostream \<Rightarrow> 's \<Rightarrow> ('k, 'd) Item list \<Rightarrow> (raw_ostream \<times> 's) option" where
  "Emit_Items info os s [] = Some (os, s)"
| "Emit_Items info os s (I # Is) =
     do {
       (os1, n, m) \<leftarrow> EmitKeyDataLength info (Emit32 os (hash I)) s (key I) (data I);
       (os2, s2) \<leftarrow> EmitKey info os1 s (key I) n;
       os3 \<leftarrow> EmitData info os2 s2 (key I) (data I) m;
       Emit_Items info os3 s2 Is
     }"

text \<open>The loop over the buckets (lines 147--165); an empty bucket is skipped.\<close>

fun Emit_payload ::
  "('k, 'd, 's) Info \<Rightarrow> nat list \<Rightarrow> raw_ostream \<Rightarrow> 's \<Rightarrow> ('k, 'd) Bucket list
     \<Rightarrow> (raw_ostream \<times> 's \<times> ('k, 'd) Bucket list) option" where
  "Emit_payload info [] os s Bs = Some (os, s, Bs)"
| "Emit_payload info (i # is) os s Bs =
     (if head (Bs ! i) = [] then Emit_payload info is os s Bs
      else do {
        let B = (Bs ! i)\<lparr>off := of_nat (tell os)\<rparr>;
        os1 \<leftarrow> Emit16 os (of_nat (length_B B));
        (os2, s2) \<leftarrow> Emit_Items info os1 s (head B);
        Emit_payload info is os2 s2 (Bs[i := B])
      })"

text \<open>The bucket offsets of the table itself (line 172).\<close>

definition Emit_offsets :: "('k, 'd) Bucket list \<Rightarrow> nat \<Rightarrow> raw_ostream \<Rightarrow> raw_ostream" where
  "Emit_offsets Bs n os = fold (\<lambda>i os'. Emit32 os' (off (Bs ! i))) [0..<n] os"

definition Emit ::
  "('k, 'd, 's) Info \<Rightarrow> raw_ostream \<Rightarrow> 's \<Rightarrow> ('k, 'd) OnDiskChainedHashTableGenerator
     \<Rightarrow> (raw_ostream \<times> 's \<times> ('k, 'd) OnDiskChainedHashTableGenerator \<times> Offset) option" where
  "Emit info os s T =
     do {
       (os1, s1, Bs) \<leftarrow> Emit_payload info [0..<NumBuckets T] os s (Buckets T);
       let os2 = Pad os1 4;
       let TableOff = (of_nat (tell os2) :: Offset);
       let os3 = Emit32 os2 (of_nat (NumBuckets T));
       let os4 = Emit32 os3 (of_nat (NumEntries T));
       Some (Emit_offsets Bs (NumBuckets T) os4, s1, T\<lparr>Buckets := Bs\<rparr>, TableOff)
     }"

subsection \<open>The file map: keys, entries and their \<^verbatim>\<open>Info\<close> (lines 194--305)\<close>

record PTHEntry =
  TokenData :: Offset
  PPCondData :: Offset

text \<open>
  \<^verbatim>\<open>FileEntry\<close> and \<^verbatim>\<open>DirectoryEntry\<close> are declared outside this file. A field holds what the
  accessor of the same name returns, converted to the parameter type of the
  \<^verbatim>\<open>Emit\<close> function it is passed to.
\<close>

record FileEntry =
  getName :: string
  getInode :: "32 word"
  getDevice :: "32 word"
  getFileMode :: "32 word"
  getModificationTime :: "64 word"
  getSize :: "64 word"

record DirectoryEntry =
  getDirName :: string

datatype PTHEntryKeyVariant =
  IsFE FileEntry
| IsDE DirectoryEntry
| IsNoExist string

fun getFile :: "PTHEntryKeyVariant \<Rightarrow> FileEntry option" where
  "getFile (IsFE FE) = Some FE"
| "getFile _ = None"

fun getCString :: "PTHEntryKeyVariant \<Rightarrow> string" where
  "getCString (IsFE FE) = getName FE"
| "getCString (IsDE DE) = getDirName DE"
| "getCString (IsNoExist Path) = Path"

text \<open>The enumerators: \<^verbatim>\<open>IsFE = 0x1, IsDE = 0x2, IsNoExist = 0x0\<close>.\<close>

fun getKind :: "PTHEntryKeyVariant \<Rightarrow> 32 word" where
  "getKind (IsFE _) = 1"
| "getKind (IsDE _) = 2"
| "getKind (IsNoExist _) = 0"

fun KeyVariant_EmitData :: "raw_ostream \<Rightarrow> PTHEntryKeyVariant \<Rightarrow> raw_ostream option" where
  "KeyVariant_EmitData os (IsFE FE) =
     do {
       os3 \<leftarrow> Emit16 (Emit32 (Emit32 os (getInode FE)) (getDevice FE)) (getFileMode FE);
       Some (Emit64 (Emit64 os3 (getModificationTime FE)) (getSize FE))
     }"
| "KeyVariant_EmitData os _ = Some os"

fun getRepresentationLength :: "PTHEntryKeyVariant \<Rightarrow> nat" where
  "getRepresentationLength (IsFE _) = 4 + 4 + 2 + 8 + 8"
| "getRepresentationLength _ = 0"

text \<open>The byte of a character, and \<^verbatim>\<open>strlen\<close>.\<close>

definition byte_of :: "char \<Rightarrow> byte" where
  "byte_of c = of_nat (of_char c)"

definition strlen :: "string \<Rightarrow> nat" where
  "strlen x = length x"

text \<open>
  \<^verbatim>\<open>Out.write(Ptr, Size)\<close> on a C string: the bytes of the string and its NUL are the memory
  that \<open>Ptr\<close> is known to point to; a read beyond them is outside the model (\<open>None\<close>).
\<close>

definition write_cstring :: "raw_ostream \<Rightarrow> string \<Rightarrow> nat \<Rightarrow> raw_ostream option" where
  "write_cstring os x n =
     (if n \<le> strlen x + 1 then Some (os @ take n (map byte_of x @ [0])) else None)"

definition FileEntry_EmitKeyDataLength ::
  "raw_ostream \<Rightarrow> PTHEntryKeyVariant \<Rightarrow> PTHEntry \<Rightarrow> (raw_ostream \<times> nat \<times> nat) option" where
  "FileEntry_EmitKeyDataLength os V E =
     do {
       let n = strlen (getCString V) + 1 + 1;
       os1 \<leftarrow> Emit16 os (of_nat n);
       let m = getRepresentationLength V + (if getFile V \<noteq> None then 4 + 4 else 0);
       Some (Emit8 os1 (of_nat m), n, m)
     }"

text \<open>\<open>n - 1\<close> is computed in \<^verbatim>\<open>unsigned\<close>.\<close>

definition FileEntry_EmitKey :: "raw_ostream \<Rightarrow> PTHEntryKeyVariant \<Rightarrow> nat \<Rightarrow> raw_ostream option" where
  "FileEntry_EmitKey os V n =
     write_cstring (Emit8 os (getKind V)) (getCString V) (unat ((of_nat n :: 32 word) - 1))"

definition FileEntry_EmitData ::
  "raw_ostream \<Rightarrow> PTHEntryKeyVariant \<Rightarrow> PTHEntry \<Rightarrow> raw_ostream option" where
  "FileEntry_EmitData os V E =
     KeyVariant_EmitData
       (if getFile V \<noteq> None then Emit32 (Emit32 os (TokenData E)) (PPCondData E) else os) V"

definition FileEntryPTHEntryInfo :: "bool \<Rightarrow> (PTHEntryKeyVariant, PTHEntry, unit) Info" where
  "FileEntryPTHEntryInfo char_signed =
     \<lparr>ComputeHash = (\<lambda>s V. Some (BernsteinHash char_signed (getCString V))),
      EmitKeyDataLength = (\<lambda>os s V E. FileEntry_EmitKeyDataLength os V E),
      EmitKey = (\<lambda>os s V n. map_option (\<lambda>os'. (os', s)) (FileEntry_EmitKey os V n)),
      EmitData = (\<lambda>os s V E m. FileEntry_EmitData os V E)\<rparr>"

subsection \<open>Tokens and the collaborators of the writer\<close>

text \<open>
  The token kinds and preprocessor keywords that the writer names; every other enumerator
  is \<open>tok_other\<close> or \<open>pp_other\<close> (the \<^verbatim>\<open>default\<close> branch of the switch).
\<close>

datatype TokenKind =
  tok_eof | tok_eom | tok_identifier | tok_hash
| tok_numeric_constant | tok_char_constant | tok_string_literal
| tok_wide_string_literal | tok_angle_string_literal
| tok_other nat

datatype PPKeywordKind =
  pp_not_keyword
| pp_include | pp_import | pp_include_next
| pp_if | pp_ifdef | pp_ifndef | pp_endif | pp_elif | pp_else
| pp_other nat

text \<open>
  An \<^verbatim>\<open>IdentifierInfo*\<close> is a handle compared by identity. The preprocessor interns
  identifiers, one object for each name, so the handle is the object's content; the null
  pointer is \<open>None\<close>.
\<close>

record IdentifierInfo =
  getIdName :: string
  getPPKeywordID :: PPKeywordKind

type_synonym SourceLocation = "32 word"

text \<open>
  A token: \<open>Flags\<close> and \<open>Length\<close> hold \<^verbatim>\<open>(uint32_t) T.getFlags()\<close> and
  \<^verbatim>\<open>(uint32_t) T.getLength()\<close>.
\<close>

record Token =
  Kind :: TokenKind
  Flags :: "32 word"
  Length :: "32 word"
  getIdentifierInfo :: "IdentifierInfo option"
  getLocation :: SourceLocation

text \<open>
  What the writer uses and this file does not define: the numbering of the token kinds
  (\<^verbatim>\<open>(uint32_t) T.getKind()\<close>), the bit \<^verbatim>\<open>Token::StartOfLine\<close>, the preprocessor's identifier
  lookup and spelling query, the source manager's file offset of a location,
  \<^verbatim>\<open>PTHManager::Version\<close>, \<^verbatim>\<open>llvm::sys::Path::isAbsolute\<close>, the signedness of \<^verbatim>\<open>char\<close>, and
  the order in which a \<^verbatim>\<open>DenseMap\<close> keyed by pointers is iterated (it depends on the addresses
  of the keys): \<open>DenseMap_order\<close> maps the entries in the order of insertion to the entries
  in the order of iteration.
\<close>

record Externals =
  TokenKindValue :: "TokenKind \<Rightarrow> 32 word"
  StartOfLine :: "32 word"
  LookUpIdentifierInfo :: "Token \<Rightarrow> IdentifierInfo"
  getSpelling :: "Token \<Rightarrow> string"
  getFileOffset :: "SourceLocation \<Rightarrow> 32 word"
  Version :: "32 word"
  isAbsolute :: "string \<Rightarrow> bool"
  char_signed :: bool
  DenseMap_order :: "(IdentifierInfo \<times> nat) list \<Rightarrow> (IdentifierInfo \<times> nat) list"

definition isAtStartOfLine :: "Externals \<Rightarrow> Token \<Rightarrow> bool" where
  "isAtStartOfLine PP T \<longleftrightarrow> Flags T AND StartOfLine PP \<noteq> 0"

text \<open>
  Modelled from the spec: \<^verbatim>\<open>Token::isLiteral\<close> is declared outside this file; the spec
  names the literals as numeric, character and string tokens.
\<close>

definition isLiteral :: "Token \<Rightarrow> bool" where
  "isLiteral T \<longleftrightarrow>
     Kind T \<in> {tok_numeric_constant, tok_char_constant, tok_string_literal,
               tok_wide_string_literal, tok_angle_string_literal}"

subsection \<open>The writer (lines 307--422)\<close>

text \<open>\<^verbatim>\<open>OffsetOpt\<close>: \<open>None\<close> is \<^verbatim>\<open>valid == false\<close>; \<^verbatim>\<open>getOffset\<close> asserts \<^verbatim>\<open>valid\<close>.\<close>

type_synonym OffsetOpt = "Offset option"

text \<open>
  \<open>IM\<close> lists the identifier map in the order of insertion; \<open>StrEntries\<close> holds the keys of
  the string map entries it points to.
\<close>

record PTHWriter =
  IM :: "(IdentifierInfo \<times> nat) list"
  Out :: raw_ostream
  idcount :: nat
  PM :: "(PTHEntryKeyVariant, PTHEntry) OnDiskChainedHashTableGenerator"
  CachedStrs :: "string \<rightharpoonup> OffsetOpt"
  CurStrOffset :: Offset
  StrEntries :: "string list"

definition new_PTHWriter :: "raw_ostream \<Rightarrow> PTHWriter" where
  "new_PTHWriter os =
     \<lparr>IM = [], Out = os, idcount = 0, PM = new_Generator, CachedStrs = Map.empty,
      CurStrOffset = 0, StrEntries = []\<rparr>"

definition ResolveID :: "IdentifierInfo option \<Rightarrow> PTHWriter \<Rightarrow> nat \<times> PTHWriter" where
  "ResolveID II W =
     (case II of
        None \<Rightarrow> (0, W)
      | Some I \<Rightarrow>
         (case map_of (IM W) I of
            None \<Rightarrow> (u32 (idcount W + 1),
                     W\<lparr>IM := IM W @ [(I, u32 (idcount W + 1))], idcount := u32 (idcount W + 1)\<rparr>)
          | Some v \<Rightarrow> (v, W)))"

text \<open>The first word of a token record.\<close>

definition token_word0 :: "Externals \<Rightarrow> Token \<Rightarrow> 32 word" where
  "token_word0 PP T = TokenKindValue PP (Kind T) OR push_bit 8 (Flags T) OR push_bit 16 (Length T)"

text \<open>
  The literal branch of \<^verbatim>\<open>EmitToken\<close> (lines 400--417): \<^verbatim>\<open>GetOrCreateValue\<close> makes an
  entry without an offset for a new key, and an entry without an offset is given the
  current one.
\<close>

definition cache_spelling :: "string \<Rightarrow> PTHWriter \<Rightarrow> (Offset \<times> PTHWriter) option" where
  "cache_spelling spelling W =
     (let CS = (case CachedStrs W spelling of
                  None \<Rightarrow> (CachedStrs W)(spelling \<mapsto> None)
                | Some _ \<Rightarrow> CachedStrs W);
          W1 = (if CS spelling = Some None
                then W\<lparr>CachedStrs := CS(spelling \<mapsto> Some (CurStrOffset W)),
                       StrEntries := StrEntries W @ [spelling],
                       CurStrOffset := CurStrOffset W + of_nat (length spelling + 1)\<rparr>
                else W\<lparr>CachedStrs := CS\<rparr>)
      in case CachedStrs W1 spelling of
           Some (Some ofs) \<Rightarrow> Some (ofs, W1)
         | _ \<Rightarrow> None)"

definition EmitToken :: "Externals \<Rightarrow> Token \<Rightarrow> PTHWriter \<Rightarrow> PTHWriter option" where
  "EmitToken PP T W =
     do {
       let W0 = W\<lparr>Out := Emit32 (Out W) (token_word0 PP T)\<rparr>;
       (word1, W1) \<leftarrow>
         (if isLiteral T then cache_spelling (getSpelling PP T) W0
          else (let (pID, W') = ResolveID (getIdentifierInfo T) W0 in Some (of_nat pID, W')));
       Some (W1\<lparr>Out := Emit32 (Emit32 (Out W1) word1) (getFileOffset PP (getLocation T))\<rparr>)
     }"

subsection \<open>The raw lexer\<close>

text \<open>
  The lexer of one file is the sequence of the tokens that its calls return, in order,
  whether the call is \<^verbatim>\<open>LexFromRawLexer\<close> or \<^verbatim>\<open>LexIncludeFilename\<close>. At the end of the buffer
  every call returns the end-of-file token.
\<close>

record Lexer =
  Pending :: "Token list"
  EofFlags :: "32 word"
  EofLoc :: SourceLocation

definition eof_Token :: "Lexer \<Rightarrow> Token" where
  "eof_Token L =
     \<lparr>Kind = tok_eof, Flags = EofFlags L, Length = 0, getIdentifierInfo = None,
      getLocation = EofLoc L\<rparr>"

definition LexFromRawLexer :: "Lexer \<Rightarrow> Token \<times> Lexer" where
  "LexFromRawLexer L =
     (case Pending L of [] \<Rightarrow> (eof_Token L, L) | T # Ts \<Rightarrow> (T, L\<lparr>Pending := Ts\<rparr>))"

definition LexIncludeFilename :: "Lexer \<Rightarrow> Token \<times> Lexer" where
  "LexIncludeFilename L = LexFromRawLexer L"

text \<open>
  The loop of lines 530--531 lexes until a token is the end of the file or starts a line:
  it drops the tokens before that one and returns it.
\<close>

fun discard_line :: "Externals \<Rightarrow> Token list \<Rightarrow> Token list" where
  "discard_line PP [] = []"
| "discard_line PP (T # Ts) =
     (if Kind T \<noteq> tok_eof \<and> \<not> isAtStartOfLine PP T then discard_line PP Ts else T # Ts)"

definition Lex_discarding :: "Externals \<Rightarrow> Lexer \<Rightarrow> Token \<times> Lexer" where
  "Lex_discarding PP L = LexFromRawLexer (L\<lparr>Pending := discard_line PP (Pending L)\<rparr>)"

subsection \<open>\<^verbatim>\<open>LexTokens\<close> (lines 424--578)\<close>

text \<open>
  The local variables of \<^verbatim>\<open>LexTokens\<close> and the writer. The second component of an entry of
  \<open>PPCond\<close> and the elements of \<open>PPStartCond\<close> are \<^verbatim>\<open>unsigned\<close>.
\<close>

record LexState =
  Writer :: PTHWriter
  PPCond :: "(Offset \<times> nat) list"
  PPStartCond :: "nat list"
  ParsingPreprocessorDirective :: bool

text \<open>Where an iteration of the loop ends: at the loop's test, or at the label.\<close>

datatype control = LoopTest Token | NextToken Token

definition emit :: "Externals \<Rightarrow> Token \<Rightarrow> LexState \<Rightarrow> LexState option" where
  "emit PP T ls = map_option (\<lambda>W'. ls\<lparr>Writer := W'\<rparr>) (EmitToken PP T (Writer ls))"

text \<open>The token inserted at the end of a directive (lines 447--450).\<close>

definition eom_Token :: "Externals \<Rightarrow> Token \<Rightarrow> Token" where
  "eom_Token PP Tok =
     Tok\<lparr>Kind := tok_eom, Flags := Flags Tok AND NOT (StartOfLine PP), getIdentifierInfo := None\<rparr>"

text \<open>
  Back-patching the entry on top of the stack (lines 519--523 and 543--547), with the
  three assertions.
\<close>

definition backpatch :: "nat \<Rightarrow> LexState \<Rightarrow> LexState option" where
  "backpatch index ls =
     (if PPStartCond ls = [] then None
      else if \<not> length (PPCond ls) > last (PPStartCond ls) then None
      else if snd (PPCond ls ! last (PPStartCond ls)) \<noteq> 0 then None
      else Some (ls\<lparr>PPCond := (PPCond ls)[last (PPStartCond ls) :=
                                   (fst (PPCond ls ! last (PPStartCond ls)), index)],
                    PPStartCond := butlast (PPStartCond ls)\<rparr>))"

definition push_PPCond :: "Offset \<Rightarrow> nat \<Rightarrow> LexState \<Rightarrow> LexState" where
  "push_PPCond HashOff target ls = ls\<lparr>PPCond := PPCond ls @ [(HashOff, target)]\<rparr>"

text \<open>
  The switch on the keyword of the directive (lines 486--553). \<open>Tok\<close> is the directive's
  name with its identifier set; the result is the token to emit after the switch, or the
  jump to the label.
\<close>

definition directive ::
  "Externals \<Rightarrow> PPKeywordKind \<Rightarrow> Offset \<Rightarrow> Token \<Rightarrow> LexState \<Rightarrow> Lexer
     \<Rightarrow> (LexState \<times> Lexer \<times> control) option" where
  "directive PP K HashOff Tok ls L =
     (if K \<in> {pp_include, pp_import, pp_include_next} then
        do {
          ls1 \<leftarrow> emit PP Tok ls;
          let (Tok1, L1) = LexIncludeFilename L;
          if isAtStartOfLine PP Tok1 then None
          else do {
            let Tok2 = (if Kind Tok1 = tok_identifier
                        then Tok1\<lparr>getIdentifierInfo := Some (LookUpIdentifierInfo PP Tok1)\<rparr>
                        else Tok1);
            ls2 \<leftarrow> emit PP Tok2 ls1;
            Some (ls2, L1, LoopTest Tok2)
          }
        }
      else if K \<in> {pp_if, pp_ifdef, pp_ifndef} then
        do {
          let ls1 = push_PPCond HashOff 0
                      (ls\<lparr>PPStartCond := PPStartCond ls @ [u32 (length (PPCond ls))]\<rparr>);
          ls2 \<leftarrow> emit PP Tok ls1;
          Some (ls2, L, LoopTest Tok)
        }
      else if K = pp_endif then
        do {
          let index = u32 (length (PPCond ls));
          ls1 \<leftarrow> backpatch index ls;
          ls2 \<leftarrow> emit PP Tok (push_PPCond HashOff index ls1);
          let (Tok1, L1) = Lex_discarding PP L;
          Some (ls2, L1, NextToken Tok1)
        }
      else if K \<in> {pp_elif, pp_else} then
        do {
          let index = u32 (length (PPCond ls));
          ls1 \<leftarrow> backpatch index ls;
          let ls2 = push_PPCond HashOff 0 ls1;
          ls3 \<leftarrow> emit PP Tok (ls2\<lparr>PPStartCond := PPStartCond ls2 @ [index]\<rparr>);
          Some (ls3, L, LoopTest Tok)
        }
      else
        do {
          ls1 \<leftarrow> emit PP Tok ls;
          Some (ls1, L, LoopTest Tok)
        })"

text \<open>A \<^verbatim>\<open>#\<close> at the start of a line (lines 461--477 and 479--484).\<close>

definition hash_at_start_of_line ::
  "Externals \<Rightarrow> Token \<Rightarrow> LexState \<Rightarrow> Lexer \<Rightarrow> (LexState \<times> Lexer \<times> control) option" where
  "hash_at_start_of_line PP Tok ls L =
     (if ParsingPreprocessorDirective ls then None
      else do {
        let HashOff = (of_nat (tell (Out (Writer ls))) :: Offset);
        ls1 \<leftarrow> emit PP Tok ls;
        let (Tok1, L1) = LexFromRawLexer L;
        if isAtStartOfLine PP Tok1 then None
        else if Kind Tok1 \<noteq> tok_identifier then
          do {
            ls2 \<leftarrow> emit PP Tok1 ls1;
            Some (ls2, L1, LoopTest Tok1)
          }
        else
          (let II = LookUpIdentifierInfo PP Tok1;
               Tok2 = Tok1\<lparr>getIdentifierInfo := Some II\<rparr>;
               K = getPPKeywordID II
           in if K = pp_not_keyword then None
              else directive PP K HashOff Tok2 (ls1\<lparr>ParsingPreprocessorDirective := True\<rparr>) L1)
      })"

text \<open>One pass from the label \<^verbatim>\<open>NextToken\<close> to the test of the loop (lines 439--557).\<close>

definition LexTokens_body ::
  "Externals \<Rightarrow> LexState \<Rightarrow> Token \<Rightarrow> Lexer \<Rightarrow> (LexState \<times> Lexer \<times> control) option" where
  "LexTokens_body PP ls Tok L =
     do {
       ls1 \<leftarrow>
         (if (isAtStartOfLine PP Tok \<or> Kind Tok = tok_eof) \<and> ParsingPreprocessorDirective ls
          then map_option (\<lambda>ls'. ls'\<lparr>ParsingPreprocessorDirective := False\<rparr>)
                 (emit PP (eom_Token PP Tok) ls)
          else Some ls);
       if Kind Tok = tok_identifier then
         do {
           let Tok1 = Tok\<lparr>getIdentifierInfo := Some (LookUpIdentifierInfo PP Tok)\<rparr>;
           ls2 \<leftarrow> emit PP Tok1 ls1;
           Some (ls2, L, LoopTest Tok1)
         }
       else if Kind Tok = tok_hash \<and> isAtStartOfLine PP Tok then hash_at_start_of_line PP Tok ls1 L
       else
         do {
           ls2 \<leftarrow> emit PP Tok ls1;
           Some (ls2, L, LoopTest Tok)
         }
     }"

text \<open>
  The loop of \<^verbatim>\<open>LexTokens\<close> ends because the lexer runs out of tokens: an iteration never
  gives tokens back, a jump to the label has consumed the name of the directive, and the
  end-of-file token leads to the test of the loop.
\<close>

lemma LexFromRawLexer_length:
  "LexFromRawLexer L = (T, L') \<Longrightarrow> length (Pending L') \<le> length (Pending L)"
  by (auto simp: LexFromRawLexer_def split: list.splits)

lemma LexFromRawLexer_identifier:
  "LexFromRawLexer L = (T, L') \<Longrightarrow> Kind T \<noteq> tok_eof \<Longrightarrow> length (Pending L') < length (Pending L)"
  by (auto simp: LexFromRawLexer_def eof_Token_def split: list.splits)

lemma length_discard_line: "length (discard_line PP Ts) \<le> length Ts"
  by (induction Ts) auto

lemma Lex_discarding_length:
  "Lex_discarding PP L = (T, L') \<Longrightarrow> length (Pending L') \<le> length (Pending L)"
  using LexFromRawLexer_length [of "L\<lparr>Pending := discard_line PP (Pending L)\<rparr>" T L']
    length_discard_line [of PP "Pending L"]
  by (simp add: Lex_discarding_def)

lemma directive_progress:
  assumes "directive PP K HashOff Tok ls L = Some (ls', L', c)"
  shows "length (Pending L') \<le> length (Pending L)"
  using assms LexFromRawLexer_length Lex_discarding_length
  by (fastforce simp: directive_def LexIncludeFilename_def Let_def
      split: if_splits prod.splits Option.bind_splits)

lemma hash_progress:
  assumes "hash_at_start_of_line PP Tok ls L = Some (ls', L', c)"
  shows "length (Pending L') \<le> length (Pending L)"
    and "c = NextToken T' \<Longrightarrow> length (Pending L') < length (Pending L)"
proof -
  obtain Tok1 L1 where lex: "LexFromRawLexer L = (Tok1, L1)" by (cases "LexFromRawLexer L")
  note le = LexFromRawLexer_length [OF lex]
  show "length (Pending L') \<le> length (Pending L)"
    using assms lex le directive_progress
    by (fastforce simp: hash_at_start_of_line_def Let_def split: if_splits Option.bind_splits)
  assume c: "c = NextToken T'"
  have "Kind Tok1 = tok_identifier"
    using assms lex c
    by (auto simp: hash_at_start_of_line_def Let_def split: if_splits Option.bind_splits)
  then have "length (Pending L1) < length (Pending L)"
    using LexFromRawLexer_identifier [OF lex] by simp
  moreover have "length (Pending L') \<le> length (Pending L1)"
    using assms lex directive_progress
    by (fastforce simp: hash_at_start_of_line_def Let_def split: if_splits Option.bind_splits)
  ultimately show "length (Pending L') < length (Pending L)" by simp
qed

lemma body_progress:
  assumes "LexTokens_body PP ls Tok L = Some (ls', L', c)"
  shows "length (Pending L') \<le> length (Pending L)"
    and "c = NextToken T' \<Longrightarrow> length (Pending L') < length (Pending L)"
    and "Kind Tok = tok_eof \<Longrightarrow> c = LoopTest Tok"
  using assms hash_progress
  by (fastforce simp: LexTokens_body_def Let_def split: if_splits Option.bind_splits)+

lemma loop_measure:
  assumes lex: "(Tok, L1) = (case inhand of None \<Rightarrow> LexFromRawLexer L | Some T \<Rightarrow> (T, L))"
    and body: "LexTokens_body PP ls Tok L1 = Some (ls', L2, c)"
  shows "c = LoopTest T' \<Longrightarrow> Kind T' \<noteq> tok_eof \<Longrightarrow>
           2 * length (Pending L2) < 2 * length (Pending L) + (case inhand of None \<Rightarrow> 0 | Some _ \<Rightarrow> 1)"
    and "c = NextToken T' \<Longrightarrow>
           2 * length (Pending L2) + 1 < 2 * length (Pending L) + (case inhand of None \<Rightarrow> 0 | Some _ \<Rightarrow> 1)"
proof -
  note le = body_progress(1) [OF body]
  note lt = body_progress(2) [OF body]
  note at_eof = body_progress(3) [OF body]
  have L1: "length (Pending L1) \<le> length (Pending L)"
    using lex LexFromRawLexer_length [of L Tok L1] by (cases inhand) simp_all
  have strict: "inhand = None \<Longrightarrow> Kind Tok \<noteq> tok_eof \<Longrightarrow> length (Pending L1) < length (Pending L)"
    using lex LexFromRawLexer_identifier [of L Tok L1] by simp
  {
    assume c: "c = LoopTest T'" and T': "Kind T' \<noteq> tok_eof"
    show "2 * length (Pending L2) < 2 * length (Pending L) + (case inhand of None \<Rightarrow> 0 | Some _ \<Rightarrow> 1)"
    proof (cases inhand)
      case None
      have "Kind Tok \<noteq> tok_eof" using at_eof c T' by auto
      with strict None le show ?thesis by simp
    next
      case (Some T)
      with le L1 show ?thesis by simp
    qed
  }
  {
    assume c: "c = NextToken T'"
    have "Kind Tok \<noteq> tok_eof" using at_eof c by auto
    show "2 * length (Pending L2) + 1 < 2 * length (Pending L) + (case inhand of None \<Rightarrow> 0 | Some _ \<Rightarrow> 1)"
    proof (cases inhand)
      case None
      with strict \<open>Kind Tok \<noteq> tok_eof\<close> lt [OF c] show ?thesis by simp
    next
      case (Some T)
      with lt [OF c] L1 show ?thesis by simp
    qed
  }
qed

text \<open>
  The \<^verbatim>\<open>do ... while\<close> loop (lines 437--558). \<open>inhand\<close> is the token that a jump to
  \<^verbatim>\<open>NextToken\<close> brings with it; without one the iteration starts by lexing.
\<close>

function LexTokens_loop :: "Externals \<Rightarrow> LexState \<Rightarrow> Token option \<Rightarrow> Lexer \<Rightarrow> LexState option" where
  "LexTokens_loop PP ls inhand L =
     (case (case inhand of None \<Rightarrow> LexFromRawLexer L | Some T \<Rightarrow> (T, L)) of
        (Tok, L1) \<Rightarrow>
          (case LexTokens_body PP ls Tok L1 of
             None \<Rightarrow> None
           | Some (ls', L2, LoopTest Tok') \<Rightarrow>
               if Kind Tok' \<noteq> tok_eof then LexTokens_loop PP ls' None L2 else Some ls'
           | Some (ls', L2, NextToken Tok') \<Rightarrow> LexTokens_loop PP ls' (Some Tok') L2))"
  by pat_completeness auto
termination
proof (relation "measure (\<lambda>(PP, ls, inhand, L).
         2 * length (Pending L) + (case inhand of None \<Rightarrow> 0 | Some _ \<Rightarrow> 1))", goal_cases)
  case 1
  show ?case by simp
next
  case (2 PP ls inhand L Tok L1 r ls' r' L2 c T')
  then have "LexTokens_body PP ls Tok L1 = Some (ls', L2, c)" by simp
  from loop_measure(1) [OF 2(1) this 2(5,6)] show ?case by simp
next
  case (3 PP ls inhand L Tok L1 r ls' r' L2 c T')
  then have "LexTokens_body PP ls Tok L1 = Some (ls', L2, c)" by simp
  from loop_measure(2) [OF 3(1) this 3(5)] show ?case by simp
qed

text \<open>Writing the table of conditionals (lines 568--575), with its assertion.\<close>

fun Emit_PPCond :: "(Offset \<times> nat) list \<Rightarrow> Offset \<Rightarrow> nat list \<Rightarrow> raw_ostream \<Rightarrow> raw_ostream option" where
  "Emit_PPCond ppc toff [] os = Some os"
| "Emit_PPCond ppc toff (i # is) os =
     (let os1 = Emit32 os (fst (ppc ! i) - toff);
          x = snd (ppc ! i)
      in if x = 0 then None
         else Emit_PPCond ppc toff is (Emit32 os1 (if x = i then 0 else of_nat x)))"

definition new_LexState :: "PTHWriter \<Rightarrow> LexState" where
  "new_LexState W0 =
     \<lparr>Writer = W0, PPCond = [], PPStartCond = [], ParsingPreprocessorDirective = False\<rparr>"

definition LexTokens :: "Externals \<Rightarrow> Lexer \<Rightarrow> PTHWriter \<Rightarrow> (PTHEntry \<times> PTHWriter) option" where
  "LexTokens PP L W =
     do {
       let W0 = W\<lparr>Out := Pad (Out W) 4\<rparr>;
       let toff = (of_nat (tell (Out W0)) :: Offset);
       ls \<leftarrow> LexTokens_loop PP (new_LexState W0) None L;
       if PPStartCond ls \<noteq> [] then None
       else do {
         let PPCondOff = (of_nat (tell (Out (Writer ls))) :: Offset);
         let os1 = Emit32 (Out (Writer ls)) (of_nat (length (PPCond ls)));
         os2 \<leftarrow> Emit_PPCond (PPCond ls) toff [0..<u32 (length (PPCond ls))] os1;
         Some (\<lparr>TokenData = toff, PPCondData = PPCondOff\<rparr>, (Writer ls)\<lparr>Out := os2\<rparr>)
       }
     }"

subsection \<open>The spelling pool (lines 580--593)\<close>

definition EmitBuf :: "raw_ostream \<Rightarrow> string \<Rightarrow> raw_ostream" where
  "EmitBuf os x = os @ map byte_of x"

definition EmitCachedSpellings :: "PTHWriter \<Rightarrow> Offset \<times> PTHWriter" where
  "EmitCachedSpellings W =
     (of_nat (tell (Out W)),
      W\<lparr>Out := fold (\<lambda>x os. Emit8 (EmitBuf os x) 0) (StrEntries W) (Out W)\<rparr>)"

subsection \<open>The identifier table (lines 667--752)\<close>

record PTHIdKey =
  II :: "IdentifierInfo option"
  FileOffset :: "32 word"

text \<open>
  A key of the identifier table is a pointer into the array \<^verbatim>\<open>IIDMap\<close>: here the index of
  the element, with the array as the memory of the \<^verbatim>\<open>Info\<close>.
\<close>

definition key_name :: "PTHIdKey list \<Rightarrow> nat \<Rightarrow> string option" where
  "key_name IIDMap k =
     (if k < length IIDMap then map_option getIdName (II (IIDMap ! k)) else None)"

definition PTHIdentifierTableTrait :: "bool \<Rightarrow> (nat, nat, PTHIdKey list) Info" where
  "PTHIdentifierTableTrait cs =
     \<lparr>ComputeHash = (\<lambda>s k. map_option (BernsteinHash cs) (key_name s k)),
      EmitKeyDataLength = (\<lambda>os s k pID.
         do {
           x \<leftarrow> key_name s k;
           os1 \<leftarrow> Emit16 os (of_nat (strlen x + 1));
           Some (os1, strlen x + 1, 4)
         }),
      EmitKey = (\<lambda>os s k n.
         do {
           x \<leftarrow> key_name s k;
           os1 \<leftarrow> write_cstring os x n;
           Some (os1, s[k := (s ! k)\<lparr>FileOffset := of_nat (tell os)\<rparr>])
         }),
      EmitData = (\<lambda>os s k pID m. Some (Emit32 os (of_nat pID)))\<rparr>"

text \<open>
  The loop over the identifier map (lines 724--736), on the entries in the order of
  iteration.
\<close>

fun fill_IIOffMap ::
  "bool \<Rightarrow> nat \<Rightarrow> (IdentifierInfo \<times> nat) list \<Rightarrow> PTHIdKey list
     \<Rightarrow> (nat, nat) OnDiskChainedHashTableGenerator
     \<Rightarrow> (PTHIdKey list \<times> (nat, nat) OnDiskChainedHashTableGenerator) option" where
  "fill_IIOffMap cs n [] IIDMap T = Some (IIDMap, T)"
| "fill_IIOffMap cs n ((I, pID) # rest) IIDMap T =
     (if \<not> pID > 0 then None
      else if \<not> pID - 1 < n then None
      else do {
        let idx = pID - 1;
        let IIDMap1 = IIDMap[idx := (IIDMap ! idx)\<lparr>II := Some I\<rparr>];
        T1 \<leftarrow> insert_key_data (PTHIdentifierTableTrait cs) IIDMap1 idx pID T;
        fill_IIOffMap cs n rest IIDMap1 T1
      })"

definition EmitIdentifierTable :: "Externals \<Rightarrow> PTHWriter \<Rightarrow> ((Offset \<times> Offset) \<times> PTHWriter) option" where
  "EmitIdentifierTable PP W =
     do {
       let IIDMap = replicate (idcount W) \<lparr>II = None, FileOffset = 0\<rparr>;
       (IIDMap1, IIOffMap) \<leftarrow> fill_IIOffMap (char_signed PP) (idcount W) (DenseMap_order PP (IM W)) IIDMap new_Generator;
       (os1, IIDMap2, IIOffMap1, StringTableOffset) \<leftarrow>
          Emit (PTHIdentifierTableTrait (char_signed PP)) (Out W) IIDMap1 IIOffMap;
       let IDOff = (of_nat (tell os1) :: Offset);
       let os2 = Emit32 os1 (of_nat (idcount W));
       let os3 = fold (\<lambda>i os. Emit32 os (FileOffset (IIDMap2 ! i))) [0..<idcount W] os2;
       Some ((IDOff, StringTableOffset), W\<lparr>Out := os3\<rparr>)
     }"

subsection \<open>\<^verbatim>\<open>GeneratePTH\<close> and \<^verbatim>\<open>CacheTokens\<close> (lines 595--663)\<close>

text \<open>
  An entry of the source manager's file table: the file, and the raw lexer over its
  buffer when the buffer is there.
\<close>

record ContentCache =
  Entry :: FileEntry
  getBuffer :: "Lexer option"

definition EmitFileTable :: "Externals \<Rightarrow> PTHWriter \<Rightarrow> (Offset \<times> PTHWriter) option" where
  "EmitFileTable PP W =
     do {
       (os1, u, PM1, TableOff) \<leftarrow> Emit (FileEntryPTHEntryInfo (char_signed PP)) (Out W) () (PM W);
       Some (TableOff, W\<lparr>Out := os1, PM := PM1\<rparr>)
     }"

text \<open>The loop over the files of the source manager (lines 609--625).\<close>

fun cache_files :: "Externals \<Rightarrow> ContentCache list \<Rightarrow> PTHWriter \<Rightarrow> PTHWriter option" where
  "cache_files PP [] W = Some W"
| "cache_files PP (C # Cs) W =
     (if \<not> isAbsolute PP (getName (Entry C)) then cache_files PP Cs W
      else case getBuffer C of
             None \<Rightarrow> cache_files PP Cs W
           | Some L \<Rightarrow>
               do {
                 (E, W1) \<leftarrow> LexTokens PP L W;
                 PM1 \<leftarrow> insert_key_data (FileEntryPTHEntryInfo (char_signed PP)) () (IsFE (Entry C)) E (PM W1);
                 cache_files PP Cs (W1\<lparr>PM := PM1\<rparr>)
               })"

text \<open>\<^verbatim>\<open>Out.seek(Pos)\<close> followed by writes: the bytes replace those at the position.\<close>

definition seek_write :: "raw_ostream \<Rightarrow> nat \<Rightarrow> byte list \<Rightarrow> raw_ostream" where
  "seek_write os pos bs = take pos os @ bs @ drop (pos + length bs) os"

definition GeneratePTH :: "Externals \<Rightarrow> ContentCache list \<Rightarrow> PTHWriter \<Rightarrow> PTHWriter option" where
  "GeneratePTH PP SM W =
     do {
       let os1 = Emit32 (EmitBuf (Out W) ''cfe-pth'') (Version PP);
       let PrologueOffset = (of_nat (tell os1) :: Offset);
       let os2 = fold (\<lambda>i os. Emit8 os 0) [0..<4 * 4] os1;
       W1 \<leftarrow> cache_files PP SM (W\<lparr>Out := os2\<rparr>);
       (IdTableOff, W2) \<leftarrow> EmitIdentifierTable PP W1;
       let (SpellingOff, W3) = EmitCachedSpellings W2;
       (FileTableOff, W4) \<leftarrow> EmitFileTable PP W3;
       let prologue = Emit32 (Emit32 (Emit32 (Emit32 [] (fst IdTableOff)) (snd IdTableOff)) FileTableOff) SpellingOff;
       Some (W4\<lparr>Out := seek_write (Out W4) (unat PrologueOffset) prologue\<rparr>)
     }"

text \<open>
  \<^verbatim>\<open>CacheTokens\<close>: \<open>SM\<close> is the file table that lexing the main file has filled, \<open>ErrMsg\<close> the
  message that opening the output file leaves (empty when the file is open). The result is
  what was written to \<^verbatim>\<open>llvm::errs()\<close> and, when a writer ran, the bytes of the file.
\<close>

definition CacheTokens :: "Externals \<Rightarrow> ContentCache list \<Rightarrow> string \<Rightarrow> (string \<times> raw_ostream option) option" where
  "CacheTokens PP SM ErrMsg =
     (if ErrMsg \<noteq> [] then Some (''PTH error: '' @ ErrMsg @ [CHR 0x0A], None)
      else map_option (\<lambda>W. ([], Some (Out W))) (GeneratePTH PP SM (new_PTHWriter [])))"

section \<open>Properties\<close>

subsection \<open>Unsigned arithmetic\<close>

lemma u32_less [simp]: "u32 n < 4294967296"
  using unsigned_less [of "of_nat n :: 32 word"] by (simp add: u32_def)

lemma u32_id: "n < 4294967296 \<Longrightarrow> u32 n = n"
  by (simp add: u32_def unat_of_nat)

lemma u32_mod: "u32 n = n mod 4294967296"
  by (simp add: u32_def unat_of_nat)

lemma of_nat_u32 [simp]: "(of_nat (u32 n) :: 32 word) = of_nat n"
  by (simp add: u32_def)

lemma u32_Suc_u32: "u32 (Suc (u32 n)) = u32 (Suc n)"
  by (simp add: u32_mod mod_Suc_eq)

subsection \<open>The load factor of the hash table\<close>

text \<open>
  The items of a table, chain after chain, and the placement that \<^verbatim>\<open>hash & (size - 1)\<close>
  prescribes: every item of bucket \<open>i\<close> has index \<open>i\<close>.
\<close>

definition items_of :: "('k, 'd) Bucket list \<Rightarrow> ('k, 'd) Item list" where
  "items_of b = concat (map head b)"

definition placed :: "nat \<Rightarrow> ('k, 'd) Bucket list \<Rightarrow> bool" where
  "placed sz b \<longleftrightarrow> (\<forall>i<length b. \<forall>E\<in>set (head (b ! i)). bucket_index sz (hash E) = i)"

text \<open>What every table built by \<^verbatim>\<open>insert\<close> satisfies.\<close>

definition load_inv :: "('k, 'd) OnDiskChainedHashTableGenerator \<Rightarrow> bool" where
  "load_inv T \<longleftrightarrow>
     (\<exists>j. NumBuckets T = 2 ^ j) \<and> 64 \<le> NumBuckets T \<and>
     4 * NumEntries T < 3 * NumBuckets T \<and>
     (NumBuckets T = 64 \<or> 3 * NumBuckets T \<le> 8 * NumEntries T) \<and>
     length (Buckets T) = NumBuckets T \<and>
     placed (NumBuckets T) (Buckets T)"

lemma length_insert_Item [simp]: "length (insert_Item b sz E) = length b"
  by (simp add: insert_Item_def Let_def)

lemma length_fold_insert_Item [simp]:
  "length (fold (\<lambda>E nb. insert_Item nb sz E) Es b) = length b"
  by (induction Es arbitrary: b) simp_all

lemma length_fold_chains [simp]:
  "length (fold (\<lambda>i nb. fold (\<lambda>E nb'. insert_Item nb' sz E) (f i) nb) is b) = length b"
  by (induction "is" arbitrary: b) simp_all

lemma length_Buckets_resize [simp]: "length (Buckets (resize T n)) = n"
  by (simp add: resize_def Let_def calloc_Buckets_def)

lemma NumBuckets_resize [simp]: "NumBuckets (resize T n) = n"
  by (simp add: resize_def Let_def)

lemma NumEntries_resize [simp]: "NumEntries (resize T n) = NumEntries T"
  by (simp add: resize_def Let_def)

lemma Buckets_resize_NumEntries [simp]:
  "Buckets (resize (T\<lparr>NumEntries := n\<rparr>) m) = Buckets (resize T m)"
  by (simp add: resize_def Let_def)

lemma bucket_index_less: "0 < sz \<Longrightarrow> bucket_index sz h < sz"
proof (cases "sz < 2 ^ 64")
  case True
  assume "0 < sz"
  then have "(of_nat sz - 1 :: 64 word) = of_nat (sz - 1)" by simp
  moreover have "unat (of_nat (sz - 1) :: 64 word) = sz - 1"
    using True by (simp add: unat_of_nat)
  moreover have "unat ((ucast h :: 64 word) AND (of_nat sz - 1)) \<le> unat (of_nat sz - 1 :: 64 word)"
    by (rule word_and_le1 [THEN word_le_nat_alt [THEN iffD1]])
  ultimately show ?thesis using \<open>0 < sz\<close> by (simp add: bucket_index_def)
next
  case False
  have "unat ((ucast h :: 64 word) AND (of_nat sz - 1)) \<le> unat (ucast h :: 64 word)"
    by (rule word_and_le2 [THEN word_le_nat_alt [THEN iffD1]])
  also have "\<dots> = unat h"
    by (simp add: unsigned_ucast_eq take_bit_nat_eq_self_iff order_less_trans [OF unsigned_less [of h]])
  also have "\<dots> < 2 ^ 32" using unsigned_less [of h] by simp
  also have "\<dots> < (2::nat) ^ 64" by simp
  finally show ?thesis using False by (simp add: bucket_index_def)
qed

lemma items_of_insert_Item:
  assumes "bucket_index sz (hash E) < length b"
  shows "mset (items_of (insert_Item b sz E)) = add_mset E (mset (items_of b))"
proof -
  let ?i = "bucket_index sz (hash E)"
  have b: "b = take ?i b @ (b ! ?i) # drop (Suc ?i) b"
    using assms by (simp add: id_take_nth_drop)
  have "insert_Item b sz E =
      take ?i b @ ((b ! ?i)\<lparr>head := E # head (b ! ?i), length_B := u32 (length_B (b ! ?i) + 1)\<rparr>) # drop (Suc ?i) b"
    using assms by (simp add: insert_Item_def Let_def upd_conv_take_nth_drop)
  then have "mset (items_of (insert_Item b sz E)) =
      mset (items_of (take ?i b)) + add_mset E (mset (head (b ! ?i))) + mset (items_of (drop (Suc ?i) b))"
    by (simp add: items_of_def)
  also have "\<dots> = add_mset E (mset (items_of (take ?i b @ (b ! ?i) # drop (Suc ?i) b)))"
    by (simp add: items_of_def)
  finally show ?thesis using b by simp
qed

lemma hd_insert_Item:
  assumes "bucket_index sz (hash E) < length b"
  shows "hd (head (insert_Item b sz E ! bucket_index sz (hash E))) = E"
  using assms by (simp add: insert_Item_def Let_def)

lemma placed_insert_Item:
  assumes "placed sz b" "length b = sz"
  shows "placed sz (insert_Item b sz E)"
  using assms by (auto simp: placed_def insert_Item_def Let_def nth_list_update)

lemma placed_calloc: "placed sz (calloc_Buckets n)"
  by (simp add: placed_def calloc_Buckets_def)

lemma fold_insert_Item:
  assumes "0 < sz" "length b = sz" "placed sz b"
  shows "placed sz (fold (\<lambda>E nb. insert_Item nb sz E) Es b) \<and>
         mset (items_of (fold (\<lambda>E nb. insert_Item nb sz E) Es b)) = mset Es + mset (items_of b)"
  using assms
proof (induction Es arbitrary: b)
  case Nil then show ?case by simp
next
  case (Cons E Es)
  have "bucket_index sz (hash E) < length b" using Cons.prems(1,2) bucket_index_less [of sz] by simp
  with Cons show ?case
    by (simp add: placed_insert_Item items_of_insert_Item)
qed

lemma fold_chains:
  assumes "0 < sz" "length b = sz" "placed sz b"
  shows "placed sz (fold (\<lambda>i nb. fold (\<lambda>E nb'. insert_Item nb' sz E) (f i) nb) is b) \<and>
         mset (items_of (fold (\<lambda>i nb. fold (\<lambda>E nb'. insert_Item nb' sz E) (f i) nb) is b))
           = mset (concat (map f is)) + mset (items_of b)"
  using assms
proof (induction "is" arbitrary: b)
  case Nil then show ?case by simp
next
  case (Cons i "is")
  let ?b1 = "fold (\<lambda>E nb'. insert_Item nb' sz E) (f i) b"
  from fold_insert_Item [OF Cons.prems, of "f i"]
  have p: "placed sz ?b1" and m: "mset (items_of ?b1) = mset (f i) + mset (items_of b)" by simp_all
  have l: "length ?b1 = sz" using Cons.prems by simp
  from Cons.IH [OF Cons.prems(1) l p] m show ?case by simp
qed

lemma resize_rehashes:
  assumes "0 < n" "length (Buckets T) = NumBuckets T"
  shows "placed n (Buckets (resize T n))"
    and "mset (items_of (Buckets (resize T n))) = mset (items_of (Buckets T))"
proof -
  have c: "length (calloc_Buckets n :: ('a, 'b) Bucket list) = n" by (simp add: calloc_Buckets_def)
  have e: "items_of (calloc_Buckets n :: ('a, 'b) Bucket list) = []"
    by (simp add: items_of_def calloc_Buckets_def)
  have "map (\<lambda>i. head (Buckets T ! i)) [0..<NumBuckets T] = map head (Buckets T)"
    using assms(2) by (intro nth_equalityI) simp_all
  then have "concat (map (\<lambda>i. head (Buckets T ! i)) [0..<NumBuckets T]) = items_of (Buckets T)"
    by (simp add: items_of_def)
  with fold_chains [OF assms(1) c placed_calloc, of "\<lambda>i. head (Buckets T ! i)" "[0..<NumBuckets T]"] e
  show "placed n (Buckets (resize T n))"
    and "mset (items_of (Buckets (resize T n))) = mset (items_of (Buckets T))"
    by (simp_all add: resize_def Let_def)
qed

lemma load_inv_new: "load_inv new_Generator"
  by (auto simp: load_inv_def new_Generator_def calloc_Buckets_def placed_def intro: exI [of _ 6])

text \<open>
  Below these bounds nothing wraps in \<^verbatim>\<open>insert\<close>: \<open>4 * (NumEntries + 1)\<close>, \<open>3 * NumBuckets\<close> and
  \<open>2 * NumBuckets\<close> are less than \<open>2^32\<close>.
\<close>

lemma insert_key_data_nowrap:
  assumes "0 < NumBuckets T" "NumBuckets T \<le> 1073741824" "NumEntries T < 1073741823"
  shows "insert_key_data info s k d T =
     map_option
       (\<lambda>E. if 3 * NumBuckets T \<le> 4 * (NumEntries T + 1)
             then (resize T (2 * NumBuckets T))\<lparr>NumEntries := NumEntries T + 1,
                    Buckets := insert_Item (Buckets (resize T (2 * NumBuckets T))) (2 * NumBuckets T) E\<rparr>
             else T\<lparr>NumEntries := NumEntries T + 1,
                    Buckets := insert_Item (Buckets T) (NumBuckets T) E\<rparr>)
       (new_Item info s k d)"
proof -
  have r: "resize (T\<lparr>NumEntries := n\<rparr>) m = (resize T m)\<lparr>NumEntries := n\<rparr>" for n m
    by (simp add: resize_def Let_def)
  from assms have a: "u32 (NumEntries T + 1) = NumEntries T + 1"
    "u32 (4 * (NumEntries T + 1)) = 4 * (NumEntries T + 1)"
    "u32 (3 * NumBuckets T) = 3 * NumBuckets T" "u32 (NumBuckets T * 2) = 2 * NumBuckets T"
    by (simp_all add: u32_id)
  have "insert_key_data info s k d T =
     (let T1 = T\<lparr>NumEntries := NumEntries T + 1\<rparr>;
          T2 = (if 4 * (NumEntries T + 1) \<ge> 3 * NumBuckets T
                then resize T1 (2 * NumBuckets T) else T1)
      in if NumBuckets T2 = 0 then None
         else map_option (\<lambda>E. T2\<lparr>Buckets := insert_Item (Buckets T2) (NumBuckets T2) E\<rparr>)
                (new_Item info s k d))"
  proof -
    have sel: "NumBuckets (T\<lparr>NumEntries := x\<rparr>) = NumBuckets T"
      "NumEntries (T\<lparr>NumEntries := x\<rparr>) = x" for x
      by simp_all
    show ?thesis unfolding insert_key_data_def Let_def a(1) sel a(2-4) ..
  qed
  also have "\<dots> = map_option
       (\<lambda>E. if 3 * NumBuckets T \<le> 4 * (NumEntries T + 1)
             then (resize T (2 * NumBuckets T))\<lparr>NumEntries := NumEntries T + 1,
                    Buckets := insert_Item (Buckets (resize T (2 * NumBuckets T))) (2 * NumBuckets T) E\<rparr>
             else T\<lparr>NumEntries := NumEntries T + 1,
                    Buckets := insert_Item (Buckets T) (NumBuckets T) E\<rparr>)
       (new_Item info s k d)"
    using assms(1) by (cases "new_Item info s k d") (simp_all add: Let_def r)
  finally show ?thesis .
qed

lemma insert_key_data_cases:
  assumes "insert_key_data info s k d T = Some T'"
    and "0 < NumBuckets T" "NumBuckets T \<le> 1073741824" "NumEntries T < 1073741823"
  obtains E where "new_Item info s k d = Some E"
    and "3 * NumBuckets T \<le> 4 * (NumEntries T + 1) \<Longrightarrow>
           T' = (resize T (2 * NumBuckets T))\<lparr>NumEntries := NumEntries T + 1,
                  Buckets := insert_Item (Buckets (resize T (2 * NumBuckets T))) (2 * NumBuckets T) E\<rparr>"
    and "\<not> 3 * NumBuckets T \<le> 4 * (NumEntries T + 1) \<Longrightarrow>
           T' = T\<lparr>NumEntries := NumEntries T + 1, Buckets := insert_Item (Buckets T) (NumBuckets T) E\<rparr>"
  using assms(1) unfolding insert_key_data_nowrap [OF assms(2-4)]
  by (auto split: if_splits)

lemma load_inv_bounds:
  assumes "load_inv T" "NumEntries T < 805306368"
  shows "0 < NumBuckets T" "NumBuckets T \<le> 1073741824" "NumEntries T < 1073741823"
proof -
  from assms(1) obtain j where j: "NumBuckets T = 2 ^ j" and m: "64 \<le> NumBuckets T"
    and h: "NumBuckets T = 64 \<or> 3 * NumBuckets T \<le> 8 * NumEntries T"
    by (auto simp: load_inv_def)
  from m show "0 < NumBuckets T" by simp
  from assms(2) show "NumEntries T < 1073741823" by simp
  from h assms(2) have "NumBuckets T < 2147483648" by auto
  with j have "(2::nat) ^ j < 2 ^ 31" by simp
  then have "j < 31" using power_less_imp_less_exp [of 2 j 31] by simp
  then have "j \<le> 30" by simp
  then have "(2::nat) ^ j \<le> 2 ^ 30" by (rule power_increasing) simp
  with j show "NumBuckets T \<le> 1073741824" by simp
qed

lemma load_inv_insert:
  assumes inv: "load_inv T" and ins: "insert_key_data info s k d T = Some T'"
    and bound: "NumEntries T < 805306368"
  shows "load_inv T'" and "NumEntries T' = NumEntries T + 1"
proof -
  note b = load_inv_bounds [OF inv bound]
  from inv obtain j where j: "NumBuckets T = 2 ^ j" by (auto simp: load_inv_def)
  have pow: "2 * NumBuckets T = 2 ^ Suc j" using j by simp
  from inv have len: "length (Buckets T) = NumBuckets T" and pl: "placed (NumBuckets T) (Buckets T)"
    and pos: "0 < 2 * NumBuckets T"
    by (auto simp: load_inv_def)
  from ins b obtain E where
    r: "3 * NumBuckets T \<le> 4 * (NumEntries T + 1) \<Longrightarrow>
           T' = (resize T (2 * NumBuckets T))\<lparr>NumEntries := NumEntries T + 1,
                  Buckets := insert_Item (Buckets (resize T (2 * NumBuckets T))) (2 * NumBuckets T) E\<rparr>"
    and n: "\<not> 3 * NumBuckets T \<le> 4 * (NumEntries T + 1) \<Longrightarrow>
           T' = T\<lparr>NumEntries := NumEntries T + 1, Buckets := insert_Item (Buckets T) (NumBuckets T) E\<rparr>"
    by (rule insert_key_data_cases) blast
  show "NumEntries T' = NumEntries T + 1" using r n by (cases "3 * NumBuckets T \<le> 4 * (NumEntries T + 1)") simp_all
  show "load_inv T'"
  proof (cases "3 * NumBuckets T \<le> 4 * (NumEntries T + 1)")
    case True
    have "placed (2 * NumBuckets T) (insert_Item (Buckets (resize T (2 * NumBuckets T))) (2 * NumBuckets T) E)"
      using resize_rehashes(1) [OF pos len] by (intro placed_insert_Item) simp_all
    moreover have "\<exists>j'. 2 * NumBuckets T = 2 ^ j'" using pow by blast
    ultimately show ?thesis using r [OF True] True inv
      by (simp add: load_inv_def)
  next
    case False
    have "placed (NumBuckets T) (insert_Item (Buckets T) (NumBuckets T) E)"
      using pl len by (rule placed_insert_Item)
    then show ?thesis using n [OF False] False inv
      by (auto simp: load_inv_def)
  qed
qed

lemma load_inv_insert_all:
  "load_inv T \<Longrightarrow> insert_all info s kds T = Some T' \<Longrightarrow>
   NumEntries T + length kds \<le> 805306368 \<Longrightarrow>
     load_inv T' \<and> NumEntries T' = NumEntries T + length kds"
proof (induction kds arbitrary: T)
  case Nil then show ?case by simp
next
  case (Cons kd kds)
  obtain k d where kd: "kd = (k, d)" by (cases kd)
  from Cons.prems(2) kd obtain T1 where
    T1: "insert_key_data info s k d T = Some T1" and rest: "insert_all info s kds T1 = Some T'"
    by (auto split: option.splits)
  from Cons.prems(3) have b: "NumEntries T < 805306368" by simp
  note one = load_inv_insert [OF Cons.prems(1) T1 b]
  from Cons.prems(3) one(2) have "NumEntries T1 + length kds \<le> 805306368" by simp
  from Cons.IH [OF one(1) rest this] one(2) show ?case by simp
qed

text \<open>Whatever the counters do, the array has \<open>NumBuckets\<close> buckets.\<close>

lemma insert_key_data_length:
  assumes "length (Buckets T) = NumBuckets T" "insert_key_data info s k d T = Some T'"
  shows "length (Buckets T') = NumBuckets T'"
  using assms by (auto simp: insert_key_data_def Let_def split: if_splits)

lemma insert_all_length:
  "length (Buckets T) = NumBuckets T \<Longrightarrow> insert_all info s kds T = Some T' \<Longrightarrow>
   length (Buckets T') = NumBuckets T'"
proof (induction kds arbitrary: T)
  case Nil then show ?case by simp
next
  case (Cons kd kds)
  obtain k d where kd: "kd = (k, d)" by (cases kd)
  from Cons.prems(2) kd obtain T1 where
    T1: "insert_key_data info s k d T = Some T1" and rest: "insert_all info s kds T1 = Some T'"
    by (auto split: option.splits)
  from Cons.IH [OF insert_key_data_length [OF Cons.prems(1) T1] rest] show ?case .
qed

lemma length_Buckets_new: "length (Buckets new_Generator) = NumBuckets new_Generator"
  by (simp add: new_Generator_def calloc_Buckets_def)

lemma pow2_less_half:
  fixes m :: nat
  assumes "m = 2 ^ i" "n = 2 ^ j" "m < n"
  shows "2 * m \<le> n"
proof -
  from assms have "i < j" by (simp add: power_strict_increasing_iff)
  then have "Suc i \<le> j" by simp
  then have "(2::nat) ^ Suc i \<le> 2 ^ j" by (rule power_increasing) simp
  with assms show ?thesis by simp
qed

lemma load_inv_least:
  assumes "load_inv T" "m = 2 ^ i" "64 \<le> m" "4 * NumEntries T < 3 * m"
  shows "NumBuckets T \<le> m"
proof (rule ccontr)
  assume "\<not> NumBuckets T \<le> m"
  then have lt: "m < NumBuckets T" by simp
  from assms(1) obtain j where j: "NumBuckets T = 2 ^ j" by (auto simp: load_inv_def)
  from pow2_less_half [OF assms(2) j lt] have "2 * m \<le> NumBuckets T" .
  moreover from lt assms(3) have "NumBuckets T \<noteq> 64" by simp
  with assms(1) have "3 * NumBuckets T \<le> 8 * NumEntries T" by (auto simp: load_inv_def)
  ultimately show False using assms(4) by simp
qed

lemma insert_all_total:
  assumes "load_inv T" "NumEntries T + length kds \<le> 805306368"
    and "\<forall>kd\<in>set kds. ComputeHash info s (fst kd) \<noteq> None"
  shows "\<exists>T'. insert_all info s kds T = Some T'"
  using assms
proof (induction kds arbitrary: T)
  case Nil
  show ?case by simp
next
  case (Cons kd kds)
  obtain k d where kd: "kd = (k, d)" by (cases kd)
  from Cons.prems(2) have b: "NumEntries T < 805306368" by simp
  from Cons.prems(3) kd obtain h where "ComputeHash info s k = Some h" by auto
  then have "new_Item info s k d \<noteq> None" by (simp add: new_Item_def)
  with insert_key_data_nowrap [OF load_inv_bounds [OF Cons.prems(1) b], of info s k d]
  obtain T1 where T1: "insert_key_data info s k d T = Some T1" by auto
  note one = load_inv_insert [OF Cons.prems(1) T1 b]
  from Cons.prems(2) one(2) have "NumEntries T1 + length kds \<le> 805306368" by simp
  from Cons.IH [OF one(1) this] Cons.prems(3) obtain T' where "insert_all info s kds T1 = Some T'"
    by auto
  with T1 kd show ?case by simp
qed

text \<open>
  Claim C4. Inserting \<open>n\<close> keys whose hashes are computed into a new generator returns, for
  \<open>n\<close> up to 805306368 (beyond, \<^verbatim>\<open>3*NumBuckets\<close> wraps in the \<^verbatim>\<open>unsigned\<close> test). The table has
  \<open>n\<close> entries and
  \<open>NumBuckets\<close> is the smallest power of two that is at least 64 and satisfies
  \<open>4 n < 3 NumBuckets\<close>; every item of bucket \<open>i\<close> has \<open>hash & (NumBuckets - 1) = i\<close>. The next
  insert of a key whose hash is computed returns. If it makes \<open>4 NumEntries \<ge> 3 NumBuckets\<close>
  the bucket count is doubled, otherwise it is kept; in both cases every item of the table
  is in the bucket \<open>hash & (NumBuckets - 1)\<close> for the new count, the items are those of the
  old table and the new one, and the new item is the head of its chain.
\<close>

theorem load_factor_law:
  assumes hashes: "\<forall>kd\<in>set kds. ComputeHash info s (fst kd) \<noteq> None"
    and bound: "length kds \<le> 805306368"
  shows "\<exists>T. insert_all info s kds new_Generator = Some T \<and>
         (\<exists>j. NumBuckets T = 2 ^ j) \<and> 64 \<le> NumBuckets T \<and> 4 * length kds < 3 * NumBuckets T \<and>
         (\<forall>m j. m = 2 ^ j \<and> 64 \<le> m \<and> 4 * length kds < 3 * m \<longrightarrow> NumBuckets T \<le> m) \<and>
         NumEntries T = length kds \<and> length (Buckets T) = NumBuckets T \<and>
         (\<forall>i<NumBuckets T. \<forall>E\<in>set (head (Buckets T ! i)).
             unat ((ucast (hash E) :: 64 word) AND (of_nat (NumBuckets T) - 1)) = i) \<and>
         (\<forall>k d h. length kds < 805306368 \<and> ComputeHash info s k = Some h \<longrightarrow>
            (\<exists>T'. insert_key_data info s k d T = Some T' \<and>
               NumEntries T' = length kds + 1 \<and>
               NumBuckets T' = (if 3 * NumBuckets T \<le> 4 * (length kds + 1)
                                then 2 * NumBuckets T else NumBuckets T) \<and>
               length (Buckets T') = NumBuckets T' \<and>
               (\<forall>i<NumBuckets T'. \<forall>E\<in>set (head (Buckets T' ! i)).
                   unat ((ucast (hash E) :: 64 word) AND (of_nat (NumBuckets T') - 1)) = i) \<and>
               mset (concat (map head (Buckets T'))) =
                 add_mset \<lparr>key = k, data = d, hash = h\<rparr> (mset (concat (map head (Buckets T)))) \<and>
               hd (head (Buckets T' ! unat ((ucast h :: 64 word) AND (of_nat (NumBuckets T') - 1))))
                 = \<lparr>key = k, data = d, hash = h\<rparr>))"
proof -
  from bound have b0: "NumEntries new_Generator + length kds \<le> 805306368"
    by (simp add: new_Generator_def)
  from insert_all_total [OF load_inv_new b0 hashes]
  obtain T where run: "insert_all info s kds new_Generator = Some T" by blast
  from load_inv_insert_all [OF load_inv_new run b0]
  have inv: "load_inv T" and n: "NumEntries T = length kds" by (simp_all add: new_Generator_def)
  from inv have len: "length (Buckets T) = NumBuckets T" and pos: "0 < 2 * NumBuckets T"
    and pos1: "0 < NumBuckets T"
    by (auto simp: load_inv_def)
  have least: "\<forall>m j. m = 2 ^ j \<and> 64 \<le> m \<and> 4 * length kds < 3 * m \<longrightarrow> NumBuckets T \<le> m"
    using load_inv_least [OF inv] n by auto
  have explicit: "\<forall>i<NumBuckets U. \<forall>E\<in>set (head (Buckets U ! i)).
             unat ((ucast (hash E) :: 64 word) AND (of_nat (NumBuckets U) - 1)) = i"
    if "load_inv U" for U :: "('a, 'b) OnDiskChainedHashTableGenerator"
    using that by (simp add: load_inv_def placed_def bucket_index_def)
  have step: "\<exists>T'. insert_key_data info s k d T = Some T' \<and>
               NumEntries T' = length kds + 1 \<and>
               NumBuckets T' = (if 3 * NumBuckets T \<le> 4 * (length kds + 1)
                                then 2 * NumBuckets T else NumBuckets T) \<and>
               length (Buckets T') = NumBuckets T' \<and>
               (\<forall>i<NumBuckets T'. \<forall>E\<in>set (head (Buckets T' ! i)).
                   unat ((ucast (hash E) :: 64 word) AND (of_nat (NumBuckets T') - 1)) = i) \<and>
               mset (concat (map head (Buckets T'))) =
                 add_mset \<lparr>key = k, data = d, hash = h\<rparr> (mset (concat (map head (Buckets T)))) \<and>
               hd (head (Buckets T' ! unat ((ucast h :: 64 word) AND (of_nat (NumBuckets T') - 1))))
                 = \<lparr>key = k, data = d, hash = h\<rparr>"
    if small: "length kds < 805306368" and h: "ComputeHash info s k = Some h" for k d h
  proof -
    let ?E = "\<lparr>key = k, data = d, hash = h\<rparr>"
    from small n have b: "NumEntries T < 805306368" by simp
    from h have E: "new_Item info s k d = Some ?E" by (simp add: new_Item_def)
    from insert_key_data_nowrap [OF load_inv_bounds [OF inv b], of info s k d] E
    obtain T' where ins: "insert_key_data info s k d T = Some T'" by simp
    from ins load_inv_bounds [OF inv b] obtain E' where E': "new_Item info s k d = Some E'" and
      r: "3 * NumBuckets T \<le> 4 * (NumEntries T + 1) \<Longrightarrow>
           T' = (resize T (2 * NumBuckets T))\<lparr>NumEntries := NumEntries T + 1,
                  Buckets := insert_Item (Buckets (resize T (2 * NumBuckets T))) (2 * NumBuckets T) E'\<rparr>"
      and nr: "\<not> 3 * NumBuckets T \<le> 4 * (NumEntries T + 1) \<Longrightarrow>
           T' = T\<lparr>NumEntries := NumEntries T + 1, Buckets := insert_Item (Buckets T) (NumBuckets T) E'\<rparr>"
      by (rule insert_key_data_cases) blast
    from E E' have EE: "E' = ?E" by simp
    note inv' = load_inv_insert [OF inv ins b]
    from inv'(1) have len': "length (Buckets T') = NumBuckets T'" by (simp add: load_inv_def)
    note pl' = explicit [OF inv'(1)]
    have ne': "NumEntries T' = length kds + 1" using inv'(2) n by simp
    have "NumBuckets T' = (if 3 * NumBuckets T \<le> 4 * (length kds + 1)
                                then 2 * NumBuckets T else NumBuckets T) \<and>
          mset (concat (map head (Buckets T'))) = add_mset ?E (mset (concat (map head (Buckets T)))) \<and>
          hd (head (Buckets T' ! unat ((ucast h :: 64 word) AND (of_nat (NumBuckets T') - 1)))) = ?E"
    proof (cases "3 * NumBuckets T \<le> 4 * (NumEntries T + 1)")
      case True
      let ?R = "Buckets (resize T (2 * NumBuckets T))"
      have idx: "bucket_index (2 * NumBuckets T) (hash ?E) < length ?R"
        using bucket_index_less [OF pos] by simp
      from r [OF True] have T': "NumBuckets T' = 2 * NumBuckets T"
          "Buckets T' = insert_Item ?R (2 * NumBuckets T) ?E" by (simp_all add: EE)
      from hd_insert_Item [OF idx] items_of_insert_Item [OF idx] resize_rehashes(2) [OF pos len]
      show ?thesis
        using True n unfolding T' by (simp add: items_of_def bucket_index_def)
    next
      case False
      have idx: "bucket_index (NumBuckets T) (hash ?E) < length (Buckets T)"
        using bucket_index_less [OF pos1] len by simp
      from nr [OF False] have T': "NumBuckets T' = NumBuckets T"
          "Buckets T' = insert_Item (Buckets T) (NumBuckets T) ?E" by (simp_all add: EE)
      from hd_insert_Item [OF idx] items_of_insert_Item [OF idx]
      show ?thesis
        using False n unfolding T' by (simp add: items_of_def bucket_index_def)
    qed
    with ins ne' len' pl' show ?thesis by blast
  qed
  from inv have a: "\<exists>j. NumBuckets T = 2 ^ j" "64 \<le> NumBuckets T"
      "4 * length kds < 3 * NumBuckets T"
    using n by (auto simp: load_inv_def)
  from step have step': "\<forall>k d h. length kds < 805306368 \<and> ComputeHash info s k = Some h \<longrightarrow>
            (\<exists>T'. insert_key_data info s k d T = Some T' \<and>
               NumEntries T' = length kds + 1 \<and>
               NumBuckets T' = (if 3 * NumBuckets T \<le> 4 * (length kds + 1)
                                then 2 * NumBuckets T else NumBuckets T) \<and>
               length (Buckets T') = NumBuckets T' \<and>
               (\<forall>i<NumBuckets T'. \<forall>E\<in>set (head (Buckets T' ! i)).
                   unat ((ucast (hash E) :: 64 word) AND (of_nat (NumBuckets T') - 1)) = i) \<and>
               mset (concat (map head (Buckets T'))) =
                 add_mset \<lparr>key = k, data = d, hash = h\<rparr> (mset (concat (map head (Buckets T)))) \<and>
               hd (head (Buckets T' ! unat ((ucast h :: 64 word) AND (of_nat (NumBuckets T') - 1))))
                 = \<lparr>key = k, data = d, hash = h\<rparr>)"
    by (intro allI impI) (elim conjE, assumption)
  from run a least n len explicit [OF inv] step' show ?thesis
    by (intro exI [of _ T] conjI)
qed

lemma hash_of_b:
  "BernsteinHash True (getCString (IsNoExist ''b'')) = 101"
  "unat ((ucast (101 :: 32 word) :: 64 word) AND (of_nat 128 - 1)) = 101"
  by code_simp+

text \<open>
  47 keys leave the 64 buckets of a new generator; the 48th insert, of a key with the hash
  101, doubles them, and the new item is the head of the chain of bucket \<open>101 & 127\<close>.
\<close>

theorem load_factor_law_witness:
  "\<exists>T T'. insert_all (FileEntryPTHEntryInfo True) ()
             (map (\<lambda>n. (IsNoExist (replicate n CHR ''a''), \<lparr>TokenData = 0, PPCondData = 0\<rparr>)) [0..<47])
             new_Generator = Some T \<and>
          NumBuckets T = 64 \<and> NumEntries T = 47 \<and>
          insert_key_data (FileEntryPTHEntryInfo True) () (IsNoExist ''b'')
             \<lparr>TokenData = 0, PPCondData = 0\<rparr> T = Some T' \<and>
          NumBuckets T' = 128 \<and> NumEntries T' = 48 \<and>
          hd (head (Buckets T' ! 101))
            = \<lparr>key = IsNoExist ''b'', data = \<lparr>TokenData = 0, PPCondData = 0\<rparr>, hash = 101\<rparr>"
proof -
  let ?info = "FileEntryPTHEntryInfo True"
  let ?kds = "map (\<lambda>n. (IsNoExist (replicate n CHR ''a''), \<lparr>TokenData = 0, PPCondData = 0\<rparr>)) [0..<47]"
  let ?E = "\<lparr>TokenData = 0, PPCondData = 0\<rparr>"
  have h: "ComputeHash ?info () k = Some (BernsteinHash True (getCString k))" for k
    by (simp add: FileEntryPTHEntryInfo_def)
  have hs: "\<forall>kd\<in>set ?kds. ComputeHash ?info () (fst kd) \<noteq> None" by (simp add: h)
  have hb: "ComputeHash ?info () (IsNoExist ''b'') = Some 101" unfolding h hash_of_b(1) ..
  have len: "length ?kds = 47" by simp
  have b: "length ?kds \<le> 805306368" by simp
  from load_factor_law [OF hs b] obtain T where
    T: "insert_all ?info () ?kds new_Generator = Some T"
    and n: "NumEntries T = length ?kds"
    and ge: "64 \<le> NumBuckets T"
    and least: "\<forall>m j. m = 2 ^ j \<and> 64 \<le> m \<and> 4 * length ?kds < 3 * m \<longrightarrow> NumBuckets T \<le> m"
    and step: "\<forall>k d h. length ?kds < 805306368 \<and> ComputeHash ?info () k = Some h \<longrightarrow>
            (\<exists>T'. insert_key_data ?info () k d T = Some T' \<and>
               NumEntries T' = length ?kds + 1 \<and>
               NumBuckets T' = (if 3 * NumBuckets T \<le> 4 * (length ?kds + 1)
                                then 2 * NumBuckets T else NumBuckets T) \<and>
               length (Buckets T') = NumBuckets T' \<and>
               (\<forall>i<NumBuckets T'. \<forall>E\<in>set (head (Buckets T' ! i)).
                   unat ((ucast (hash E) :: 64 word) AND (of_nat (NumBuckets T') - 1)) = i) \<and>
               mset (concat (map head (Buckets T'))) =
                 add_mset \<lparr>key = k, data = d, hash = h\<rparr> (mset (concat (map head (Buckets T)))) \<and>
               hd (head (Buckets T' ! unat ((ucast h :: 64 word) AND (of_nat (NumBuckets T') - 1))))
                 = \<lparr>key = k, data = d, hash = h\<rparr>)"
    by blast
  from least have "(64::nat) = 2 ^ 6 \<and> (64::nat) \<le> 64 \<and> 4 * length ?kds < 3 * 64 \<longrightarrow> NumBuckets T \<le> 64"
    by blast
  then have "NumBuckets T \<le> 64" by simp
  with ge have NB: "NumBuckets T = 64" by simp
  from step have "length ?kds < 805306368 \<and> ComputeHash ?info () (IsNoExist ''b'') = Some 101 \<longrightarrow>
            (\<exists>T'. insert_key_data ?info () (IsNoExist ''b'') ?E T = Some T' \<and>
               NumEntries T' = length ?kds + 1 \<and>
               NumBuckets T' = (if 3 * NumBuckets T \<le> 4 * (length ?kds + 1)
                                then 2 * NumBuckets T else NumBuckets T) \<and>
               hd (head (Buckets T' ! unat ((ucast (101 :: 32 word) :: 64 word) AND (of_nat (NumBuckets T') - 1))))
                 = \<lparr>key = IsNoExist ''b'', data = ?E, hash = 101\<rparr>)"
    by blast
  then obtain T' where T': "insert_key_data ?info () (IsNoExist ''b'') ?E T = Some T'"
    "NumEntries T' = 48" "NumBuckets T' = 128"
    and "hd (head (Buckets T' ! unat ((ucast (101 :: 32 word) :: 64 word) AND (of_nat (NumBuckets T') - 1))))
                 = \<lparr>key = IsNoExist ''b'', data = ?E, hash = 101\<rparr>"
    unfolding len NB using hb by auto
  then have hd: "hd (head (Buckets T' ! 101)) = \<lparr>key = IsNoExist ''b'', data = ?E, hash = 101\<rparr>"
    unfolding T'(3) hash_of_b(2) by simp
  from n have n': "NumEntries T = 47" by simp
  show ?thesis
    by (rule exI [of _ T], rule exI [of _ T']) (intro conjI T NB n' T' hd)
qed

subsection \<open>Persistent identifier IDs\<close>

text \<open>
  A run of \<^verbatim>\<open>ResolveID\<close> over a sequence of handles, the non-null handles of a sequence, the
  order of first sightings (after those already \<open>seen\<close>) and the position of an element in a
  list.
\<close>

fun ResolveIDs :: "IdentifierInfo option list \<Rightarrow> PTHWriter \<Rightarrow> nat list \<times> PTHWriter" where
  "ResolveIDs [] W = ([], W)"
| "ResolveIDs (h # hs) W =
     (let (pID, W1) = ResolveID h W; (pIDs, W2) = ResolveIDs hs W1 in (pID # pIDs, W2))"

fun nonnull :: "'a option list \<Rightarrow> 'a list" where
  "nonnull [] = []"
| "nonnull (None # hs) = nonnull hs"
| "nonnull (Some I # hs) = I # nonnull hs"

fun first_seen :: "'a list \<Rightarrow> 'a list \<Rightarrow> 'a list" where
  "first_seen seen [] = seen"
| "first_seen seen (x # xs) = first_seen (if x \<in> set seen then seen else seen @ [x]) xs"

definition position :: "'a list \<Rightarrow> 'a \<Rightarrow> nat" where
  "position xs x = length (takeWhile (\<lambda>y. y \<noteq> x) xs)"

text \<open>
  What the identifier map satisfies: the handles are distinct, the \<open>n\<close>-th handle inserted
  has the ID \<open>n\<close> as an \<^verbatim>\<open>uint32_t\<close>, and \<open>idcount\<close> is the number of handles as an \<^verbatim>\<open>uint32_t\<close>.
\<close>

definition id_inv :: "PTHWriter \<Rightarrow> bool" where
  "id_inv W \<longleftrightarrow>
     distinct (map fst (IM W)) \<and> map snd (IM W) = map u32 [1..<Suc (length (IM W))] \<and>
     idcount W = u32 (length (IM W))"

lemma id_inv_zip:
  "id_inv W \<Longrightarrow> IM W = zip (map fst (IM W)) (map u32 [1..<1 + length (map fst (IM W))])"
  by (metis id_inv_def zip_map_fst_snd length_map plus_1_eq_Suc)

lemma map_of_zip_upt:
  "x \<in> set xs \<Longrightarrow> map_of (zip xs (map f [k..<k + length xs])) x = Some (f (k + position xs x))"
proof (induction xs arbitrary: k)
  case Nil then show ?case by simp
next
  case (Cons y ys)
  have u: "[k..<k + length (y # ys)] = k # [Suc k..<Suc k + length ys]"
    using upt_conv_Cons [of k "k + length (y # ys)"] by simp
  show ?case
  proof (cases "y = x")
    case True then show ?thesis by (subst u) (simp add: position_def)
  next
    case False
    with Cons.prems have "x \<in> set ys" by simp
    from Cons.IH [OF this, of "Suc k"] False show ?thesis
      by (subst u) (simp add: position_def)
  qed
qed

lemma first_seen_set: "set (first_seen seen xs) = set seen \<union> set xs"
  by (induction xs arbitrary: seen) auto

lemma first_seen_distinct: "distinct seen \<Longrightarrow> distinct (first_seen seen xs)"
  by (induction xs arbitrary: seen) auto

lemma first_seen_prefix: "\<exists>ys. first_seen seen xs = seen @ ys"
  by (induction xs arbitrary: seen) (auto, metis append.assoc)

lemma position_append: "x \<in> set xs \<Longrightarrow> position (xs @ ys) x = position xs x"
  by (simp add: position_def takeWhile_append1)

lemma ResolveID_Some:
  assumes "id_inv W" "ResolveID (Some I) W = (v, W')"
  shows "id_inv W'"
    and "map fst (IM W') = (if I \<in> set (map fst (IM W)) then map fst (IM W) else map fst (IM W) @ [I])"
    and "v = u32 (Suc (position (map fst (IM W')) I))"
    and "Out W' = Out W"
proof -
  from assms(1) have cnt: "idcount W = u32 (length (IM W))"
    and vals: "map snd (IM W) = map u32 [1..<Suc (length (IM W))]"
    and dist: "distinct (map fst (IM W))"
    by (simp_all add: id_inv_def)
  have next_id: "u32 (Suc (idcount W)) = u32 (Suc (length (IM W)))"
    unfolding cnt by (rule u32_Suc_u32)
  show "Out W' = Out W" using assms(2) by (auto simp: ResolveID_def split: option.splits)
  show fs: "map fst (IM W') = (if I \<in> set (map fst (IM W)) then map fst (IM W) else map fst (IM W) @ [I])"
    using assms(2) by (auto simp: ResolveID_def map_of_eq_None_iff split: option.splits dest: map_of_SomeD intro: rev_image_eqI)
  show inv: "id_inv W'"
  proof (cases "map_of (IM W) I")
    case None
    with assms(2) have W': "W' = W\<lparr>IM := IM W @ [(I, u32 (Suc (idcount W)))],
                                   idcount := u32 (Suc (idcount W))\<rparr>"
      by (auto simp: ResolveID_def)
    from None have "I \<notin> set (map fst (IM W))" by (simp add: map_of_eq_None_iff)
    with dist vals show ?thesis unfolding W' next_id by (simp add: id_inv_def)
  next
    case (Some u)
    with assms show ?thesis by (simp add: ResolveID_def)
  qed
  have I: "I \<in> set (map fst (IM W'))" using fs by (simp split: if_splits)
  have "map_of (IM W') I = Some v"
  proof (cases "map_of (IM W) I")
    case None
    with assms(2) show ?thesis by (auto simp: ResolveID_def map_add_def)
  next
    case (Some u)
    with assms(2) show ?thesis by (auto simp: ResolveID_def)
  qed
  with map_of_zip_upt [OF I, of u32 1] id_inv_zip [OF inv]
  show "v = u32 (Suc (position (map fst (IM W')) I))" by simp
qed

lemma ResolveID_None: "ResolveID None W = (0, W)"
  by (simp add: ResolveID_def)

lemma first_seen_snoc:
  "first_seen seen (xs @ [x]) =
     (if x \<in> set (first_seen seen xs) then first_seen seen xs else first_seen seen xs @ [x])"
  by (induction xs arbitrary: seen) auto

lemma position_first_seen:
  "x \<in> set seen \<Longrightarrow> position (first_seen seen xs) x = position seen x"
  using first_seen_prefix [of seen xs] by (auto simp: position_append)

lemma ResolveIDs_inv:
  assumes "id_inv W" "ResolveIDs hs W = (ids, W')"
  shows "id_inv W' \<and> map fst (IM W') = first_seen (map fst (IM W)) (nonnull hs) \<and>
         length ids = length hs \<and> Out W' = Out W \<and>
         (\<forall>i<length hs. ids ! i =
            (case hs ! i of None \<Rightarrow> 0 | Some I \<Rightarrow> u32 (Suc (position (map fst (IM W')) I))))"
  using assms
proof (induction hs arbitrary: W ids W')
  case Nil
  then show ?case by simp
next
  case (Cons h hs)
  obtain v W1 where r1: "ResolveID h W = (v, W1)" by (cases "ResolveID h W")
  obtain vs W2 where r2: "ResolveIDs hs W1 = (vs, W2)" by (cases "ResolveIDs hs W1")
  from Cons.prems(2) r1 r2 have ids: "ids = v # vs" and W': "W' = W2" by simp_all
  show ?case
  proof (cases h)
    case None
    with r1 have W1: "W1 = W" and v: "v = 0" by (simp_all add: ResolveID_None)
    from Cons.IH [OF Cons.prems(1) r2 [unfolded W1]] ids W' v None show ?thesis
      by (auto simp: nth_Cons split: nat.splits)
  next
    case (Some I)
    note s = ResolveID_Some [OF Cons.prems(1) r1 [unfolded Some]]
    note ih = Cons.IH [OF s(1) r2]
    have fs: "map fst (IM W2) = first_seen (map fst (IM W)) (nonnull (h # hs))"
      using ih s(2) Some by simp
    have I: "I \<in> set (map fst (IM W1))" using s(2) by (simp split: if_splits)
    have "position (map fst (IM W2)) I = position (map fst (IM W1)) I"
      using ih position_first_seen [OF I] by simp
    with s(3) have "v = u32 (Suc (position (map fst (IM W2)) I))" by simp
    with ih fs s(4) ids W' Some show ?thesis
      by (auto simp: nth_Cons split: nat.splits)
  qed
qed

definition foo_II :: IdentifierInfo where
  "foo_II = \<lparr>getIdName = ''foo'', getPPKeywordID = pp_not_keyword\<rparr>"

definition bar_II :: IdentifierInfo where
  "bar_II = \<lparr>getIdName = ''bar'', getPPKeywordID = pp_not_keyword\<rparr>"

lemma id_inv_new: "id_inv (new_PTHWriter os)"
  by (simp add: id_inv_def new_PTHWriter_def u32_id)

lemma nth_position:
  assumes "x \<in> set xs"
  shows "position xs x < length xs" and "xs ! position xs x = x"
proof -
  have "takeWhile (\<lambda>y. y \<noteq> x) xs \<noteq> xs"
    using assms by (auto simp: takeWhile_eq_all_conv)
  then show lt: "position xs x < length xs"
    using length_takeWhile_le [of "\<lambda>y. y \<noteq> x" xs]
    by (metis position_def le_neq_implies_less takeWhile_eq_take take_all_iff order_refl)
  from nth_length_takeWhile [of "\<lambda>y. y \<noteq> x" xs] lt show "xs ! position xs x = x"
    by (simp add: position_def)
qed

lemma nonnull_set: "I \<in> set (nonnull hs) \<longleftrightarrow> Some I \<in> set hs"
  by (induction hs rule: nonnull.induct) auto

lemma map_u32_upt: "n < 4294967296 \<Longrightarrow> map u32 [1..<Suc n] = [1..<Suc n]"
  by (intro map_idI) (auto intro!: u32_id)

text \<open>
Claim C6. \<^verbatim>\<open>ResolveID\<close> returns 0 for the null handle. Over any sequence of calls on a
  new writer, the identifier map lists the distinct non-null handles in the order in
  which they were first seen, and each call on a handle returns one more than the
  position of the handle in that order, as an \<^verbatim>\<open>uint32_t\<close>. As long as there are fewer than
  \<open>2^32\<close> distinct handles (beyond, \<^verbatim>\<open>++idcount\<close> wraps), nothing is lost in the \<^verbatim>\<open>uint32_t\<close>: the
  IDs in the map are 1, 2, ..., \<open>idcount\<close>, the same handle gets the same ID on every call,
  two handles never share an ID and no handle gets 0. The handles of \<^verbatim>\<open>foo bar foo\<close> resolve
  to 1, 2, 1 and leave \<open>idcount = 2\<close>.
\<close>

theorem ResolveID_dense:
  "(\<forall>W. ResolveID None W = (0, W)) \<and>
   (\<forall>hs os ids W. ResolveIDs hs (new_PTHWriter os) = (ids, W) \<longrightarrow>
      length ids = length hs \<and>
      map fst (IM W) = first_seen [] (nonnull hs) \<and>
      distinct (map fst (IM W)) \<and>
      (\<forall>i<length hs. ids ! i =
         (case hs ! i of None \<Rightarrow> 0
          | Some I \<Rightarrow> Suc (position (first_seen [] (nonnull hs)) I) mod 4294967296)) \<and>
      (length (first_seen [] (nonnull hs)) < 4294967296 \<longrightarrow>
         idcount W = length (first_seen [] (nonnull hs)) \<and>
         map snd (IM W) = [1..<Suc (idcount W)] \<and>
         (\<forall>i<length hs. ids ! i =
            (case hs ! i of None \<Rightarrow> 0 | Some I \<Rightarrow> Suc (position (first_seen [] (nonnull hs)) I))) \<and>
         (\<forall>i<length hs. \<forall>j<length hs. hs ! i \<noteq> None \<and> hs ! j \<noteq> None \<longrightarrow>
            (ids ! i = ids ! j \<longleftrightarrow> hs ! i = hs ! j)) \<and>
         (\<forall>i<length hs. hs ! i \<noteq> None \<longrightarrow> ids ! i \<noteq> 0))) \<and>
   fst (ResolveIDs [Some foo_II, Some bar_II, Some foo_II] (new_PTHWriter [])) = [1, 2, 1] \<and>
   idcount (snd (ResolveIDs [Some foo_II, Some bar_II, Some foo_II] (new_PTHWriter []))) = 2"
proof (intro conjI allI impI)
  fix W show "ResolveID None W = (0, W)" by (rule ResolveID_None)
next
  fix hs os ids W
  assume run: "ResolveIDs hs (new_PTHWriter os) = (ids, W)"
  note inv = ResolveIDs_inv [OF id_inv_new run]
  let ?fs = "first_seen [] (nonnull hs)"
  from inv have fs: "map fst (IM W) = ?fs" by (simp add: new_PTHWriter_def)
  from inv show "length ids = length hs" by simp
  from fs show "map fst (IM W) = ?fs" .
  from inv have idinv: "id_inv W" by blast
  then show "distinct (map fst (IM W))"
    unfolding id_inv_def by blast
  from inv have "\<forall>i<length hs. ids ! i =
         (case hs ! i of None \<Rightarrow> 0 | Some I \<Rightarrow> u32 (Suc (position (map fst (IM W)) I)))"
    by blast
  then have idsm: "\<forall>i<length hs. ids ! i =
         (case hs ! i of None \<Rightarrow> 0 | Some I \<Rightarrow> Suc (position ?fs I) mod 4294967296)"
    unfolding fs u32_mod .
  {
    fix i assume "i < length hs"
    with idsm show "ids ! i = (case hs ! i of None \<Rightarrow> 0
          | Some I \<Rightarrow> Suc (position ?fs I) mod 4294967296)" by simp
  }
  assume few: "length ?fs < 4294967296"
  have lenIM: "length (IM W) = length ?fs" using fs by (metis length_map)
  from idinv few show cnt: "idcount W = length ?fs"
    by (simp add: id_inv_def lenIM u32_id)
  from idinv have "map snd (IM W) = map u32 [1..<Suc (length ?fs)]"
    unfolding id_inv_def lenIM by blast
  then show "map snd (IM W) = [1..<Suc (idcount W)]"
    unfolding cnt map_u32_upt [OF few] .
  have ids: "ids ! i = (case hs ! i of None \<Rightarrow> 0 | Some I \<Rightarrow> Suc (position ?fs I))"
    if i: "i < length hs" for i
  proof (cases "hs ! i")
    case None
    with idsm i show ?thesis by simp
  next
    case (Some I)
    from Some i have "Some I \<in> set hs" by (metis nth_mem)
    then have "I \<in> set ?fs" by (simp add: first_seen_set nonnull_set)
    from nth_position(1) [OF this] few have "Suc (position ?fs I) < 4294967296" by simp
    with idsm i Some show ?thesis by simp
  qed
  {
    fix i assume "i < length hs"
    then show "ids ! i = (case hs ! i of None \<Rightarrow> 0 | Some I \<Rightarrow> Suc (position ?fs I))"
      by (rule ids)
  }
  {
    fix i j assume i: "i < length hs" and j: "j < length hs"
      and nn: "hs ! i \<noteq> None \<and> hs ! j \<noteq> None"
    then obtain I J where I: "hs ! i = Some I" and J: "hs ! j = Some J" by auto
    from I i have "Some I \<in> set hs" by (metis nth_mem)
    then have Iin: "I \<in> set ?fs" by (simp add: first_seen_set nonnull_set)
    from J j have "Some J \<in> set hs" by (metis nth_mem)
    then have Jin: "J \<in> set ?fs" by (simp add: first_seen_set nonnull_set)
    from ids [OF i] ids [OF j] I J have e: "ids ! i = Suc (position ?fs I)" "ids ! j = Suc (position ?fs J)"
      by simp_all
    show "ids ! i = ids ! j \<longleftrightarrow> hs ! i = hs ! j"
    proof
      assume "ids ! i = ids ! j"
      with e have p: "position ?fs I = position ?fs J" by simp
      have "I = ?fs ! position ?fs I" using nth_position(2) [OF Iin] by (rule sym)
      also have "\<dots> = ?fs ! position ?fs J" unfolding p ..
      also have "\<dots> = J" using Jin by (rule nth_position(2))
      finally have "I = J" .
      with I J show "hs ! i = hs ! j" by simp
    next
      assume "hs ! i = hs ! j"
      with I J e show "ids ! i = ids ! j" by simp
    qed
  }
  {
    fix i assume i: "i < length hs" and "hs ! i \<noteq> None"
    with ids [OF i] show "ids ! i \<noteq> 0" by auto
  }
next
  have w: "u32 (Suc 0) = Suc 0" "u32 (Suc (Suc 0)) = 2" by (simp_all add: u32_id)
  show "fst (ResolveIDs [Some foo_II, Some bar_II, Some foo_II] (new_PTHWriter [])) = [1, 2, 1]"
    by (simp add: ResolveID_def new_PTHWriter_def foo_II_def bar_II_def w)
  show "idcount (snd (ResolveIDs [Some foo_II, Some bar_II, Some foo_II] (new_PTHWriter []))) = 2"
    by (simp add: ResolveID_def new_PTHWriter_def foo_II_def bar_II_def w)
qed

theorem ResolveID_dense_witness:
  "\<exists>ids W. ResolveIDs [Some foo_II, None, Some bar_II, Some foo_II] (new_PTHWriter []) = (ids, W) \<and>
     ids = [1, 0, 2, 1] \<and> idcount W = 2 \<and> map fst (IM W) = [foo_II, bar_II]"
proof -
  let ?hs = "[Some foo_II, None, Some bar_II, Some foo_II]"
  obtain ids W where run: "ResolveIDs ?hs (new_PTHWriter []) = (ids, W)"
    by (cases "ResolveIDs ?hs (new_PTHWriter [])")
  have ne: "foo_II \<noteq> bar_II" by (simp add: foo_II_def bar_II_def)
  then have fs: "first_seen [] (nonnull ?hs) = [foo_II, bar_II]" by simp
  then have few: "length (first_seen [] (nonnull ?hs)) < 4294967296" by simp
  from ResolveID_dense run few have
    len: "length ids = length ?hs" and
    im: "map fst (IM W) = first_seen [] (nonnull ?hs)" and
    cnt: "idcount W = length (first_seen [] (nonnull ?hs))" and
    ids: "\<forall>i<length ?hs. ids ! i =
         (case ?hs ! i of None \<Rightarrow> 0 | Some I \<Rightarrow> Suc (position (first_seen [] (nonnull ?hs)) I))"
    by blast+
  have p: "position [foo_II, bar_II] foo_II = 0" "position [foo_II, bar_II] bar_II = 1"
    using ne by (simp_all add: position_def)
  from ids have "ids ! 0 = 1" "ids ! Suc 0 = 0" "ids ! Suc (Suc 0) = 2" "ids ! Suc (Suc (Suc 0)) = 1"
    unfolding fs by (simp_all add: p)
  with len have "ids = [1, 0, 2, 1]"
    by (intro nth_equalityI) (auto simp: nth_Cons less_Suc_eq split: nat.splits)
  with run im cnt fs show ?thesis by simp
qed
subsection \<open>Token records\<close>

text \<open>
  The bytes of a token, with the offset that a literal spelling has or is about to get,
  and an example of the collaborators: the kinds are numbered as in the definition below,
  \<^verbatim>\<open>StartOfLine\<close> is bit 0, and a location is its file offset.
\<close>

lemma Emit32_append: "Emit32 os V = os @ Emit32 [] V"
  by (simp add: Emit32_def)

lemma length_Emit32 [simp]: "length (Emit32 os V) = length os + 4"
  by (simp add: Emit32_def)

lemma cache_spelling_eq:
  "cache_spelling x W =
     Some (case CachedStrs W x of
             Some (Some ofs) \<Rightarrow> (ofs, W)
           | _ \<Rightarrow> (CurStrOffset W,
                   W\<lparr>CachedStrs := (CachedStrs W)(x \<mapsto> Some (CurStrOffset W)),
                     StrEntries := StrEntries W @ [x],
                     CurStrOffset := CurStrOffset W + of_nat (length x + 1)\<rparr>))"
  by (simp add: cache_spelling_def Let_def split: option.splits)

lemma ResolveID_Out:
  "ResolveID h (W\<lparr>Out := os\<rparr>) = (fst (ResolveID h W), (snd (ResolveID h W))\<lparr>Out := os\<rparr>)"
  by (simp add: ResolveID_def split: option.splits)

lemma ResolveID_Out_same [simp]: "Out (snd (ResolveID h W)) = Out W"
  by (simp add: ResolveID_def split: option.splits)

definition literal_offset :: "PTHWriter \<Rightarrow> string \<Rightarrow> Offset" where
  "literal_offset W x = (case CachedStrs W x of Some (Some ofs) \<Rightarrow> ofs | _ \<Rightarrow> CurStrOffset W)"

lemma EmitToken_literal:
  assumes "isLiteral T"
  shows "EmitToken PP T W =
     Some ((snd (the (cache_spelling (getSpelling PP T) W)))
             \<lparr>Out := Out W @ Emit32 [] (token_word0 PP T)
                        @ Emit32 [] (literal_offset W (getSpelling PP T))
                        @ Emit32 [] (getFileOffset PP (getLocation T))\<rparr>)"
  using assms
  by (simp add: EmitToken_def cache_spelling_eq literal_offset_def Emit32_append [of "_ @ _"]
       Emit32_append [of "Out W"] split: option.splits)

lemma EmitToken_nonliteral:
  assumes "\<not> isLiteral T"
  shows "EmitToken PP T W =
     Some ((snd (ResolveID (getIdentifierInfo T) W))
             \<lparr>Out := Out W @ Emit32 [] (token_word0 PP T)
                        @ Emit32 [] (of_nat (fst (ResolveID (getIdentifierInfo T) W)))
                        @ Emit32 [] (getFileOffset PP (getLocation T))\<rparr>)"
  using assms
  by (simp add: EmitToken_def ResolveID_Out Emit32_append [of "_ @ _"]
       Emit32_append [of "Out W"] split: prod.splits)


definition example_kind :: "TokenKind \<Rightarrow> 32 word" where
  "example_kind k =
     (case k of tok_eof \<Rightarrow> 1 | tok_eom \<Rightarrow> 2 | tok_identifier \<Rightarrow> 4 | tok_numeric_constant \<Rightarrow> 5
      | tok_char_constant \<Rightarrow> 6 | tok_string_literal \<Rightarrow> 7 | tok_wide_string_literal \<Rightarrow> 8
      | tok_angle_string_literal \<Rightarrow> 9 | tok_hash \<Rightarrow> 50 | tok_other n \<Rightarrow> of_nat n)"

definition example_PP :: "(Token \<Rightarrow> IdentifierInfo) \<Rightarrow> (Token \<Rightarrow> string) \<Rightarrow> Externals" where
  "example_PP lookup spelling =
     \<lparr>TokenKindValue = example_kind, StartOfLine = 1, LookUpIdentifierInfo = lookup,
      getSpelling = spelling, getFileOffset = (\<lambda>loc. loc), Version = 1,
      isAbsolute = (\<lambda>x. take 1 x = ''/''), char_signed = True,
      DenseMap_order = (\<lambda>xs. xs)\<rparr>"

definition long_identifier :: Token where
  "long_identifier =
     \<lparr>Kind = tok_identifier, Flags = 0, Length = 65536,
      getIdentifierInfo = Some \<lparr>getIdName = replicate 65536 CHR ''a'', getPPKeywordID = pp_not_keyword\<rparr>,
      getLocation = 0\<rparr>"

text \<open>
Claim C3, as amended. \<^verbatim>\<open>EmitToken\<close> always returns and appends exactly 12 bytes: the first
  word is \<open>kind | (flags << 8) | (length << 16)\<close> computed in 32 bits, the second is the
  offset of the spelling in the pool when the token is a literal (the offset already
  assigned to the spelling, or else the current \<open>CurStrOffset\<close>) and otherwise the persistent
  ID of the identifier (0 for the null handle), the third is the file offset of the
  token's location. The function asserts nothing about the ranges of the three fields.
\<close>

theorem EmitToken_record:
  "\<exists>W'. EmitToken PP T W = Some W' \<and>
     Out W' = Out W
        @ Emit32 [] (TokenKindValue PP (Kind T) OR push_bit 8 (Flags T) OR push_bit 16 (Length T))
        @ Emit32 [] (if isLiteral T then literal_offset W (getSpelling PP T)
                     else of_nat (fst (ResolveID (getIdentifierInfo T) W)))
        @ Emit32 [] (getFileOffset PP (getLocation T)) \<and>
     length (Out W') = length (Out W) + 12 \<and>
     fst (ResolveID None W) = 0"
proof (cases "isLiteral T")
  case True
  from EmitToken_literal [OF True, of PP W] show ?thesis
    by (simp add: True token_word0_def ResolveID_def)
next
  case False
  from EmitToken_nonliteral [OF False, of PP W] show ?thesis
    by (simp add: False token_word0_def ResolveID_def)
qed

text \<open>
Claim C3 as stated fails: an identifier of 65536 characters is emitted without any
  assertion failing, and the length field of its first word reads 0.
\<close>

theorem EmitToken_no_assertion:
  "(65535 :: 32 word) < Length long_identifier \<and>
   map_option Out (EmitToken (example_PP (\<lambda>T. foo_II) (\<lambda>T. [])) long_identifier (new_PTHWriter [])) =
     Some [4, 0, 0, 0, 1, 0, 0, 0, 0, 0, 0, 0]"
  by (simp add: EmitToken_nonliteral isLiteral_def long_identifier_def example_PP_def
      example_kind_def token_word0_def ResolveID_def new_PTHWriter_def Emit32_def)

lemma emit_eq: "emit PP T ls = map_option (\<lambda>W'. ls\<lparr>Writer := W'\<rparr>) (EmitToken PP T (Writer ls))"
  by (simp add: emit_def)

definition hash_Token :: "32 word \<Rightarrow> SourceLocation \<Rightarrow> Token" where
  "hash_Token flags loc =
     \<lparr>Kind = tok_hash, Flags = flags, Length = 1, getIdentifierInfo = None, getLocation = loc\<rparr>"

definition empty_Lexer :: Lexer where
  "empty_Lexer = \<lparr>Pending = [], EofFlags = 1, EofLoc = 0\<rparr>"

subsection \<open>The key of a file-map entry\<close>

definition le16 :: "32 word \<Rightarrow> byte list" where
  "le16 V = [ucast V, ucast (drop_bit 8 V)]"

lemma Emit16_Some: "Emit16 os V = Some os' \<Longrightarrow> os' = os @ le16 V"
  by (auto simp: Emit16_def le16_def split: if_splits)

lemma Emit64_append: "Emit64 os V = os @ Emit64 [] V"
  by (simp add: Emit64_def)

definition FileEntry_data_bytes :: "PTHEntryKeyVariant \<Rightarrow> PTHEntry \<Rightarrow> byte list" where
  "FileEntry_data_bytes V E =
     (case V of
        IsFE FE \<Rightarrow>
          Emit32 [] (TokenData E) @ Emit32 [] (PPCondData E) @
          Emit32 [] (getInode FE) @ Emit32 [] (getDevice FE) @ le16 (getFileMode FE) @
          Emit64 [] (getModificationTime FE) @ Emit64 [] (getSize FE)
      | _ \<Rightarrow> [])"

definition FileEntry_data_length :: "PTHEntryKeyVariant \<Rightarrow> nat" where
  "FileEntry_data_length V = getRepresentationLength V + (if getFile V \<noteq> None then 4 + 4 else 0)"

definition FileEntry_item_bytes :: "(PTHEntryKeyVariant, PTHEntry) Item \<Rightarrow> byte list" where
  "FileEntry_item_bytes I =
     Emit32 [] (hash I) @
     le16 (of_nat (strlen (getCString (key I)) + 2)) @
     [ucast (of_nat (FileEntry_data_length (key I)) :: 32 word)] @
     [ucast (getKind (key I))] @
     take (unat ((of_nat (strlen (getCString (key I)) + 2) :: 32 word) - 1))
       (map byte_of (getCString (key I)) @ [0]) @
     FileEntry_data_bytes (key I) (data I)"

lemma FileEntry_data_Some:
  "FileEntry_EmitData os V E = Some os' \<Longrightarrow> os' = os @ FileEntry_data_bytes V E"
  by (cases V)
    (auto simp: FileEntry_EmitData_def FileEntry_data_bytes_def Emit32_append [of "Emit32 _ _"]
      Emit32_append [of "_ @ _"] Emit32_append [of os] Emit64_append [of "Emit64 _ _"]
      Emit64_append [of "_ @ _"] dest!: Emit16_Some split: Option.bind_splits)

lemma length_FileEntry_data_bytes:
  "length (FileEntry_data_bytes V E) = FileEntry_data_length V"
  by (cases V) (simp_all add: FileEntry_data_bytes_def FileEntry_data_length_def le16_def Emit64_def)

lemma FileEntry_Emit_Items_single:
  assumes "Emit_Items (FileEntryPTHEntryInfo cs) os s [I] = Some (os', s')"
  shows "os' = os @ FileEntry_item_bytes I"
  using assms
  by (auto simp: FileEntryPTHEntryInfo_def FileEntry_EmitKeyDataLength_def FileEntry_EmitKey_def
      write_cstring_def FileEntry_item_bytes_def FileEntry_data_length_def Emit8_def
      Emit32_append [of os]
      dest!: Emit16_Some FileEntry_data_Some split: Option.bind_splits if_splits)


definition file_a :: FileEntry where
  "file_a = \<lparr>getName = ''/a'', getInode = 1, getDevice = 2, getFileMode = 0x81A4,
              getModificationTime = 3, getSize = 4\<rparr>"

definition item_a :: "(PTHEntryKeyVariant, PTHEntry) Item" where
  "item_a = \<lparr>key = IsFE file_a, data = \<lparr>TokenData = 28, PPCondData = 40\<rparr>,
             hash = BernsteinHash True ''/a''\<rparr>"


text \<open>
Claim C2, as amended. The item of a file-map entry whose path is shorter than 65534
  characters is written as: the hash (4 bytes), the key length \<open>strlen(path) + 2\<close> on 16 bits,
  the data length on 8 bits, then the key, which is the kind tag followed by the
  \<open>strlen(path)\<close> bytes of the name and by its NUL terminator (\<open>strlen(path) + 2\<close> bytes, as
  the length field says), then the data.
\<close>

theorem FileEntry_key_layout:
  assumes "strlen (getCString (key I)) + 2 < 65536"
    and "Emit_Items (FileEntryPTHEntryInfo cs) os s [I] = Some (os', s')"
  shows "os' = os @ Emit32 [] (hash I)
            @ le16 (of_nat (strlen (getCString (key I)) + 2))
            @ [ucast (of_nat (FileEntry_data_length (key I)) :: 32 word)]
            @ (ucast (getKind (key I)) # map byte_of (getCString (key I)) @ [0])
            @ FileEntry_data_bytes (key I) (data I) \<and>
         length (ucast (getKind (key I)) # map byte_of (getCString (key I)) @ [0 :: byte])
           = strlen (getCString (key I)) + 2 \<and>
         unat (of_nat (strlen (getCString (key I)) + 2) :: 32 word) = strlen (getCString (key I)) + 2 \<and>
         length (FileEntry_data_bytes (key I) (data I)) = FileEntry_data_length (key I)"
proof -
  have "(of_nat (strlen (getCString (key I)) + 2) :: 32 word) - 1 = of_nat (strlen (getCString (key I)) + 1)"
    by simp
  moreover have "unat (of_nat (strlen (getCString (key I)) + 1) :: 32 word) = strlen (getCString (key I)) + 1"
    using assms(1) unfolding unat_of_nat by (intro mod_less) simp
  ultimately have "unat ((of_nat (strlen (getCString (key I)) + 2) :: 32 word) - 1) = strlen (getCString (key I)) + 1"
    by simp
  then have "take (unat ((of_nat (strlen (getCString (key I)) + 2) :: 32 word) - 1))
       (map byte_of (getCString (key I)) @ [0 :: byte]) = map byte_of (getCString (key I)) @ [0]"
    by (simp add: strlen_def)
  with FileEntry_Emit_Items_single [OF assms(2)] have
    "os' = os @ Emit32 [] (hash I)
            @ le16 (of_nat (strlen (getCString (key I)) + 2))
            @ [ucast (of_nat (FileEntry_data_length (key I)) :: 32 word)]
            @ (ucast (getKind (key I)) # map byte_of (getCString (key I)) @ [0])
            @ FileEntry_data_bytes (key I) (data I)"
    by (simp add: FileEntry_item_bytes_def)
  moreover have "unat (of_nat (strlen (getCString (key I)) + 2) :: 32 word) = strlen (getCString (key I)) + 2"
    using assms(1) unfolding unat_of_nat by (intro mod_less) simp
  ultimately show ?thesis
    by (simp add: length_FileEntry_data_bytes strlen_def)
qed

lemma item_a_bytes:
  "Emit_Items (FileEntryPTHEntryInfo True) [] () [item_a] =
     Some ([163, 6, 0, 0,  4, 0,  34,  1,  47, 97, 0,
            28, 0, 0, 0,  40, 0, 0, 0,  1, 0, 0, 0,  2, 0, 0, 0,  164, 129,
            3, 0, 0, 0, 0, 0, 0, 0,  4, 0, 0, 0, 0, 0, 0, 0], ())"
  by code_simp

lemma item_a_name: "getCString (key item_a) = ''/a''"
  by (simp add: item_a_def file_a_def)

text \<open>
The layout on the file \<^verbatim>\<open>/a\<close>.
\<close>

theorem FileEntry_key_layout_witness:
  "strlen (getCString (key item_a)) + 2 < 65536 \<and>
   Emit_Items (FileEntryPTHEntryInfo True) [] () [item_a] =
     Some ([163, 6, 0, 0,  4, 0,  34,  1,  47, 97, 0,
            28, 0, 0, 0,  40, 0, 0, 0,  1, 0, 0, 0,  2, 0, 0, 0,  164, 129,
            3, 0, 0, 0, 0, 0, 0, 0,  4, 0, 0, 0, 0, 0, 0, 0], ()) \<and>
   [163, 6, 0, 0,  4, 0,  34,  1,  47, 97, 0,
            28, 0, 0, 0,  40, 0, 0, 0,  1, 0, 0, 0,  2, 0, 0, 0,  164, 129,
            3, 0, 0, 0, 0, 0, 0, 0,  4, 0, 0, 0, 0, 0, 0, 0] =
     [] @ Emit32 [] (hash item_a)
        @ le16 (of_nat (strlen (getCString (key item_a)) + 2))
        @ [ucast (of_nat (FileEntry_data_length (key item_a)) :: 32 word)]
        @ (ucast (getKind (key item_a)) # map byte_of (getCString (key item_a)) @ [0])
        @ FileEntry_data_bytes (key item_a) (data item_a)"
proof -
  have short: "strlen (getCString (key item_a)) + 2 < 65536"
    by (simp add: item_a_name strlen_def)
  from FileEntry_key_layout [OF short item_a_bytes] item_a_bytes short show ?thesis
    by blast
qed

text \<open>
Claim C2 as stated fails: for the file \<^verbatim>\<open>/a\<close>, whose name has two characters, the key
  length is 4 and the four bytes after the length fields are the kind tag, the two
  characters of the name and a NUL; the data begins after the NUL, at byte 11 of the item.
\<close>

theorem FileEntry_key_keeps_NUL:
  "strlen (getCString (key item_a)) = 2 \<and>
   map_option (\<lambda>(os, s). (take 2 (drop 4 os), take 4 (drop 7 os), drop 11 os))
     (Emit_Items (FileEntryPTHEntryInfo True) [] () [item_a]) =
     Some ([4, 0], [1, 47, 97, 0],
           [28, 0, 0, 0,  40, 0, 0, 0,  1, 0, 0, 0,  2, 0, 0, 0,  164, 129,
            3, 0, 0, 0, 0, 0, 0, 0,  4, 0, 0, 0, 0, 0, 0, 0])"
  unfolding item_a_bytes item_a_name by (simp add: strlen_def)

subsection \<open>The layout of an emitted hash table\<close>

definition appends :: "('k, 'd, 's) Info \<Rightarrow> ('s \<Rightarrow> ('k, 'd) Item \<Rightarrow> byte list) \<Rightarrow> bool" where
  "appends info enc \<longleftrightarrow>
     (\<forall>os s I os' s'. Emit_Items info os s [I] = Some (os', s') \<longrightarrow>
        os' = os @ enc s I \<and> enc s' = enc s)"

definition bucket_bytes :: "(('k, 'd) Item \<Rightarrow> byte list) \<Rightarrow> ('k, 'd) Bucket \<Rightarrow> byte list" where
  "bucket_bytes enc B =
     (if head B = [] then [] else le16 (of_nat (length_B B)) @ concat (map enc (head B)))"

definition payload_bytes :: "(('k, 'd) Item \<Rightarrow> byte list) \<Rightarrow> ('k, 'd) Bucket list \<Rightarrow> byte list" where
  "payload_bytes enc Bs = concat (map (bucket_bytes enc) Bs)"

lemma Emit_Items_Cons:
  "Emit_Items info os s (I # Is) =
     (case Emit_Items info os s [I] of
        None \<Rightarrow> None
      | Some (os1, s1) \<Rightarrow> Emit_Items info os1 s1 Is)"
  by (simp split: Option.bind_split prod.splits)

lemma Emit_Items_appends:
  assumes "appends info enc"
  shows "Emit_Items info os s Is = Some (os', s') \<Longrightarrow>
         os' = os @ concat (map (enc s) Is) \<and> enc s' = enc s"
proof (induction Is arbitrary: os s)
  case Nil
  then show ?case by simp
next
  case (Cons I Is)
  from Cons.prems obtain os1 s1 where
    one: "Emit_Items info os s [I] = Some (os1, s1)" and rest: "Emit_Items info os1 s1 Is = Some (os', s')"
    by (subst (asm) Emit_Items_Cons) (auto split: option.splits)
  from assms one have "os1 = os @ enc s I" "enc s1 = enc s" unfolding appends_def by blast+
  with Cons.IH [OF rest] show ?case by simp
qed

lemma Emit_payload_append:
  "Emit_payload info (is @ js) os s Bs =
     (case Emit_payload info is os s Bs of
        None \<Rightarrow> None
      | Some (os1, s1, Bs1) \<Rightarrow> Emit_payload info js os1 s1 Bs1)"
  by (induction "is" arbitrary: os s Bs) (auto split: Option.bind_split)

lemma Emit_payload_single:
  assumes "appends info enc" and "i < length Bs"
    and "Emit_payload info [i] os s Bs = Some (os', s', Bs')"
  shows "os' = os @ bucket_bytes (enc s) (Bs ! i)" and "enc s' = enc s"
    and "Bs' = (if head (Bs ! i) = [] then Bs else Bs[i := (Bs ! i)\<lparr>off := of_nat (length os)\<rparr>])"
proof -
  show "os' = os @ bucket_bytes (enc s) (Bs ! i)"
    using assms(3) Emit_Items_appends [OF assms(1)]
    by (fastforce simp: bucket_bytes_def tell_def dest!: Emit16_Some split: if_splits Option.bind_splits)
  show "enc s' = enc s"
    using assms(3) Emit_Items_appends [OF assms(1)]
    by (fastforce simp: split: if_splits Option.bind_splits)
  show "Bs' = (if head (Bs ! i) = [] then Bs else Bs[i := (Bs ! i)\<lparr>off := of_nat (length os)\<rparr>])"
    using assms(3)
    by (auto simp: tell_def split: if_splits Option.bind_splits)
qed

lemma bucket_bytes_off [simp]: "bucket_bytes enc (B\<lparr>off := x\<rparr>) = bucket_bytes enc B"
  by (simp add: bucket_bytes_def)

lemma Emit_payload_upt:
  assumes "appends info enc"
  shows "n \<le> length Bs \<Longrightarrow> Emit_payload info [0..<n] os s Bs = Some (os', s', Bs') \<Longrightarrow>
     os' = os @ payload_bytes (enc s) (take n Bs) \<and> enc s' = enc s \<and> length Bs' = length Bs \<and>
     (\<forall>i<length Bs.
        head (Bs' ! i) = head (Bs ! i) \<and> length_B (Bs' ! i) = length_B (Bs ! i) \<and>
        off (Bs' ! i) =
          (if i < n \<and> head (Bs ! i) \<noteq> []
           then of_nat (length os + length (payload_bytes (enc s) (take i Bs)))
           else off (Bs ! i)))"
proof (induction n arbitrary: os' s' Bs')
  case 0
  then show ?case by (simp add: payload_bytes_def)
next
  case (Suc n)
  from Suc.prems(2) obtain os1 s1 Bs1 where
    first: "Emit_payload info [0..<n] os s Bs = Some (os1, s1, Bs1)" and
    last: "Emit_payload info [n] os1 s1 Bs1 = Some (os', s', Bs')"
    by (simp add: Emit_payload_append split: option.splits prod.splits)
  from Suc.prems(1) have n: "n \<le> length Bs" "n < length Bs" by simp_all
  note ih = Suc.IH [OF n(1) first]
  from ih n have n1: "n < length Bs1" and hn: "head (Bs1 ! n) = head (Bs ! n)"
    and ln: "length_B (Bs1 ! n) = length_B (Bs ! n)" by simp_all
  note st = Emit_payload_single [OF assms n1 last]
  have bb: "bucket_bytes (enc s1) (Bs1 ! n) = bucket_bytes (enc s) (Bs ! n)"
    using ih hn ln by (simp add: bucket_bytes_def)
  have tk: "take (Suc n) Bs = take n Bs @ [Bs ! n]" using n(2) by (simp add: take_Suc_conv_app_nth)
  have os': "os' = os @ payload_bytes (enc s) (take (Suc n) Bs)"
    using st(1) ih bb by (simp add: tk payload_bytes_def)
  have len1: "length os1 = length os + length (payload_bytes (enc s) (take n Bs))"
    using ih by simp
  show ?case
  proof (intro conjI allI impI)
    show "os' = os @ payload_bytes (enc s) (take (Suc n) Bs)" by (rule os')
    show "enc s' = enc s" using st(2) ih by simp
    show "length Bs' = length Bs" using st(3) ih by (simp split: if_splits)
  next
    fix i assume i: "i < length Bs"
    show "head (Bs' ! i) = head (Bs ! i)"
      using st(3) ih i n1 by (cases "i = n") (auto split: if_splits)
    show "length_B (Bs' ! i) = length_B (Bs ! i)"
      using st(3) ih i n1 by (cases "i = n") (auto split: if_splits)
    show "off (Bs' ! i) =
          (if i < Suc n \<and> head (Bs ! i) \<noteq> []
           then of_nat (length os + length (payload_bytes (enc s) (take i Bs)))
           else off (Bs ! i))"
    proof (cases "i = n")
      case True
      with st(3) ih i n1 hn len1 show ?thesis by (auto split: if_splits)
    next
      case False
      with st(3) ih i n1 show ?thesis by (auto split: if_splits)
    qed
  qed
qed

lemma and_not_3:
  fixes q :: "32 word"
  shows "q AND NOT 3 = q - (q AND 3)"
proof -
  have "NOT q AND (q AND 3) = 0" by (simp add: bit_eq_iff bit_simps)
  then have "q - (q AND 3) = q AND NOT (q AND 3)" by (rule disjunctive_diff_eq_and_not)
  also have "\<dots> = q AND NOT 3" by (auto simp: bit_eq_iff bit_simps)
  finally show ?thesis by simp
qed

lemma unat_and_3:
  fixes q :: "32 word"
  shows "unat (q AND 3) = unat q mod 4"
proof -
  have "q AND 3 = take_bit 2 q" by (simp add: take_bit_eq_mask mask_eq_exp_minus_1)
  then show ?thesis by (simp add: take_bit_eq_mod unat_mod)
qed

lemma Pad_4:
  "\<exists>k<4. Pad os 4 = os @ replicate k 0 \<and> (length os + k) mod 4 = 0"
proof -
  define off :: "32 word" where "off = of_nat (length os)"
  define q where "q = off + 3"
  have "off + 4 - 1 = q" by (simp add: q_def)
  moreover have "(4 - 1 :: 32 word) = 3" by simp
  ultimately have "((off + 4 - 1) AND NOT (4 - 1)) - off = (q AND NOT 3) - off"
    by (simp only:)
  also have "\<dots> = q - (q AND 3) - off" by (simp only: and_not_3)
  also have "\<dots> = 3 - (q AND 3)" by (simp add: q_def)
  finally have n: "((off + 4 - 1) AND NOT (4 - 1)) - off = 3 - (q AND 3)" .
  have le: "q AND 3 \<le> 3" by (rule word_and_le1)
  then have u: "unat (3 - (q AND 3)) = 3 - unat (q AND 3)"
    by (simp add: unat_sub)
  have "(2::nat) ^ 2 dvd 2 ^ 32" by (rule le_imp_power_dvd) simp
  then have d: "(4::nat) dvd 2 ^ 32" by simp
  have uo: "unat off = length os mod 2 ^ 32" by (simp add: off_def unat_of_nat)
  have uq: "unat q = (unat off + 3) mod 2 ^ 32" by (simp add: q_def unat_word_ariths)
  have "unat q mod 4 = (unat off + 3) mod 2 ^ 32 mod 4" by (simp only: uq)
  also have "\<dots> = (unat off + 3) mod 4" by (rule mod_mod_cancel [OF d])
  also have "\<dots> = (unat off mod 4 + 3) mod 4" by (simp only: mod_add_left_eq)
  also have "unat off mod 4 = length os mod 4" unfolding uo by (rule mod_mod_cancel [OF d])
  also have "(length os mod 4 + 3) mod 4 = (length os + 3) mod 4" by (simp only: mod_add_left_eq)
  finally have "unat q mod 4 = (length os + 3) mod 4" .
  then have k: "unat (3 - (q AND 3)) = 3 - (length os + 3) mod 4"
    by (simp add: u unat_and_3)
  have "Pad os 4 = os @ replicate (unat (((off + 4 - 1) AND NOT (4 - 1)) - off)) 0"
    by (simp only: Pad_def tell_def Let_def off_def)
  then have p1: "Pad os 4 = os @ replicate (3 - (length os + 3) mod 4) 0"
    unfolding n k .
  have p2: "(length os + (3 - (length os + 3) mod 4)) mod 4 = 0"
  proof -
    define r where "r = (length os + 3) mod 4"
    define a where "a = (length os + 3) div 4"
    have r: "r < 4" by (simp add: r_def)
    have "length os + 3 = 4 * a + r" by (simp add: r_def a_def)
    with r have "length os + (3 - r) = 4 * a" by linarith
    then show ?thesis by (simp add: r_def)
  qed
  have p3: "3 - (length os + 3) mod 4 < 4" by simp
  show ?thesis
    by (rule exI [of _ "3 - (length os + 3) mod 4"]) (intro conjI p1 p2 p3)
qed

definition chains_inv :: "('k, 'd) Bucket list \<Rightarrow> bool" where
  "chains_inv b \<longleftrightarrow> (\<forall>B\<in>set b. off B = 0 \<and> length_B B = u32 (length (head B)))"

lemma chains_inv_insert_Item: "chains_inv b \<Longrightarrow> chains_inv (insert_Item b sz E)"
  by (auto simp: chains_inv_def insert_Item_def Let_def u32_Suc_u32
        dest!: set_update_subset_insert [THEN subsetD])

lemma chains_inv_calloc: "chains_inv (calloc_Buckets n)"
  by (simp add: chains_inv_def calloc_Buckets_def u32_id)

lemma chains_inv_fold: "chains_inv b \<Longrightarrow> chains_inv (fold (\<lambda>E nb. insert_Item nb sz E) Es b)"
  by (induction Es arbitrary: b) (simp_all add: chains_inv_insert_Item)

lemma chains_inv_fold_chains:
  "chains_inv b \<Longrightarrow>
   chains_inv (fold (\<lambda>i nb. fold (\<lambda>E nb'. insert_Item nb' sz E) (f i) nb) is b)"
  by (induction "is" arbitrary: b) (simp_all add: chains_inv_fold)

lemma chains_inv_resize: "chains_inv (Buckets (resize T n))"
  by (simp add: resize_def Let_def chains_inv_fold_chains chains_inv_calloc)

lemma chains_inv_insert_key_data:
  "chains_inv (Buckets T) \<Longrightarrow> insert_key_data info s k d T = Some T' \<Longrightarrow> chains_inv (Buckets T')"
  by (auto simp: insert_key_data_def Let_def chains_inv_insert_Item chains_inv_resize split: if_splits)

lemma chains_inv_insert_all:
  "chains_inv (Buckets T) \<Longrightarrow> insert_all info s kds T = Some T' \<Longrightarrow> chains_inv (Buckets T')"
proof (induction kds arbitrary: T)
  case Nil then show ?case by simp
next
  case (Cons kd kds)
  obtain k d where kd: "kd = (k, d)" by (cases kd)
  from Cons.prems(2) kd obtain T1 where
    T1: "insert_key_data info s k d T = Some T1" and rest: "insert_all info s kds T1 = Some T'"
    by (auto split: option.splits)
  from chains_inv_insert_key_data [OF Cons.prems(1) T1] Cons.IH [OF _ rest] show ?case by simp
qed

lemma chain_insert_Item:
  "i < length b \<Longrightarrow>
   head (insert_Item b sz E ! i) =
     (if bucket_index sz (hash E) = i then E # head (b ! i) else head (b ! i))"
  by (simp add: insert_Item_def Let_def nth_list_update)

lemma chain_fold:
  "i < length b \<Longrightarrow>
   head (fold (\<lambda>E nb. insert_Item nb sz E) Es b ! i) =
     rev (filter (\<lambda>E. bucket_index sz (hash E) = i) Es) @ head (b ! i)"
  by (induction Es arbitrary: b) (simp_all add: chain_insert_Item)

lemma chain_fold_chains:
  "i < length b \<Longrightarrow>
   head (fold (\<lambda>j nb. fold (\<lambda>E nb'. insert_Item nb' sz E) (f j) nb) js b ! i) =
     rev (filter (\<lambda>E. bucket_index sz (hash E) = i) (concat (map f js))) @ head (b ! i)"
  by (induction js arbitrary: b) (simp_all add: chain_fold)

lemma chain_resize:
  assumes "length (Buckets T) = NumBuckets T" "i < n"
  shows "head (Buckets (resize T n) ! i) =
           rev (filter (\<lambda>E. bucket_index n (hash E) = i) (items_of (Buckets T)))"
proof -
  have "map (\<lambda>i. head (Buckets T ! i)) [0..<NumBuckets T] = map head (Buckets T)"
    using assms(1) by (intro nth_equalityI) simp_all
  then have "concat (map (\<lambda>i. head (Buckets T ! i)) [0..<NumBuckets T]) = items_of (Buckets T)"
    by (simp add: items_of_def)
  then show ?thesis
    using assms(2) by (simp add: resize_def Let_def chain_fold_chains calloc_Buckets_def)
qed

lemma Emit_offsets_eq: "Emit_offsets Bs n os = os @ concat (map (\<lambda>i. Emit32 [] (off (Bs ! i))) [0..<n])"
proof -
  have "fold (\<lambda>i os'. Emit32 os' (off (Bs ! i))) js os = os @ concat (map (\<lambda>i. Emit32 [] (off (Bs ! i))) js)"
    for js
    by (induction js arbitrary: os) (simp_all add: Emit32_def)
  then show ?thesis by (simp add: Emit_offsets_def)
qed

lemma Emit_layout:
  assumes app: "appends info enc"
    and len: "length (Buckets T) = NumBuckets T"
    and emit: "Emit info os s T = Some (os', s', T', TableOff)"
  shows "\<exists>k<4.
     os' = os @ payload_bytes (enc s) (Buckets T) @ replicate k 0
              @ Emit32 [] (of_nat (NumBuckets T)) @ Emit32 [] (of_nat (NumEntries T))
              @ concat (map (\<lambda>B. Emit32 [] (off B)) (Buckets T')) \<and>
     (length os + length (payload_bytes (enc s) (Buckets T)) + k) mod 4 = 0 \<and>
     TableOff = of_nat (length os + length (payload_bytes (enc s) (Buckets T)) + k) \<and>
     NumBuckets T' = NumBuckets T \<and> NumEntries T' = NumEntries T \<and>
     length (Buckets T') = NumBuckets T \<and>
     (\<forall>i<NumBuckets T.
        head (Buckets T' ! i) = head (Buckets T ! i) \<and>
        length_B (Buckets T' ! i) = length_B (Buckets T ! i) \<and>
        off (Buckets T' ! i) =
          (if head (Buckets T ! i) \<noteq> []
           then of_nat (length os + length (payload_bytes (enc s) (take i (Buckets T))))
           else off (Buckets T ! i)))"
proof -
  from emit obtain os1 s1 Bs where
    pay: "Emit_payload info [0..<NumBuckets T] os s (Buckets T) = Some (os1, s1, Bs)"
    and os': "os' = Emit_offsets Bs (NumBuckets T)
                 (Emit32 (Emit32 (Pad os1 4) (of_nat (NumBuckets T))) (of_nat (NumEntries T)))"
    and T': "T' = T\<lparr>Buckets := Bs\<rparr>"
    and off: "TableOff = of_nat (tell (Pad os1 4))"
    by (auto simp: Emit_def Let_def split: Option.bind_splits)
  have le: "NumBuckets T \<le> length (Buckets T)" using len by simp
  note p = Emit_payload_upt [OF app le pay]
  from p len have os1: "os1 = os @ payload_bytes (enc s) (Buckets T)" by simp
  from p have lenBs: "length Bs = length (Buckets T)" by simp
  from Pad_4 [of os1] obtain k where k: "k < 4" "Pad os1 4 = os1 @ replicate k 0"
    "(length os1 + k) mod 4 = 0" by (elim exE conjE)
  have m: "map (\<lambda>i. Emit32 [] (off (Bs ! i))) [0..<NumBuckets T] = map (\<lambda>B. Emit32 [] (off B)) Bs"
    using lenBs len by (intro nth_equalityI) simp_all
  have a: "os' = os @ payload_bytes (enc s) (Buckets T) @ replicate k 0
              @ Emit32 [] (of_nat (NumBuckets T)) @ Emit32 [] (of_nat (NumEntries T))
              @ concat (map (\<lambda>B. Emit32 [] (off B)) (Buckets T'))"
    unfolding os' Emit_offsets_eq m k(2) T'
    by (simp add: os1 Emit32_def)
  have b: "(length os + length (payload_bytes (enc s) (Buckets T)) + k) mod 4 = 0"
    using k(3) os1 by simp
  have c: "TableOff = of_nat (length os + length (payload_bytes (enc s) (Buckets T)) + k)"
    unfolding off k(2) by (simp add: os1 tell_def)
  have d: "\<forall>i<NumBuckets T.
        head (Buckets T' ! i) = head (Buckets T ! i) \<and>
        length_B (Buckets T' ! i) = length_B (Buckets T ! i) \<and>
        off (Buckets T' ! i) =
          (if head (Buckets T ! i) \<noteq> []
           then of_nat (length os + length (payload_bytes (enc s) (take i (Buckets T))))
           else off (Buckets T ! i))"
    using p len by (simp add: T')
  have e: "NumBuckets T' = NumBuckets T" "NumEntries T' = NumEntries T"
      "length (Buckets T') = NumBuckets T"
    using lenBs len by (simp_all add: T')
  show ?thesis
    by (rule exI [of _ k]) (intro conjI k(1) a b c d e)
qed

lemma FileEntry_appends: "appends (FileEntryPTHEntryInfo cs) (\<lambda>s. FileEntry_item_bytes)"
  unfolding appends_def using FileEntry_Emit_Items_single by blast

definition short_key :: "(PTHEntryKeyVariant, PTHEntry) Item \<Rightarrow> bool" where
  "short_key I \<longleftrightarrow>
     strlen (getCString (key I)) + 2 < 65536 \<and>
     (case key I of IsFE FE \<Rightarrow> drop_bit 16 (getFileMode FE) = 0 | _ \<Rightarrow> True)"

lemma Emit16_small: "n < 65536 \<Longrightarrow> Emit16 os (of_nat n) = Some (os @ le16 (of_nat n))"
proof -
  assume n: "n < 65536"
  have "unat (of_nat n :: 32 word) = n" using n unfolding unat_of_nat by (intro mod_less) simp
  then have "unat (drop_bit 16 (of_nat n :: 32 word)) = drop_bit 16 n"
    by (simp only: unat_drop_bit_eq)
  then have "unat (drop_bit 16 (of_nat n :: 32 word)) = 0"
    using n by (simp add: drop_bit_eq_div)
  then have "drop_bit 16 (of_nat n :: 32 word) = 0"
    by (simp only: unsigned_eq_0_iff)
  then show ?thesis by (simp add: Emit16_def le16_def)
qed

lemma FileEntry_Emit_Items_total:
  assumes "\<forall>I\<in>set Is. short_key I"
  shows "\<exists>os'. Emit_Items (FileEntryPTHEntryInfo cs) os s Is = Some (os', s)"
  using assms
proof (induction Is arbitrary: os)
  case Nil
  then show ?case by simp
next
  case (Cons I Is)
  let ?n = "strlen (getCString (key I)) + 2"
  from Cons.prems have sk: "short_key I" by simp
  then have n: "?n < 65536" by (simp add: short_key_def)
  have u: "unat ((of_nat ?n :: 32 word) - 1) \<le> strlen (getCString (key I)) + 1"
  proof -
    have "(of_nat ?n :: 32 word) - 1 = of_nat (strlen (getCString (key I)) + 1)" by simp
    moreover have "unat (of_nat (strlen (getCString (key I)) + 1) :: 32 word) = strlen (getCString (key I)) + 1"
      using n unfolding unat_of_nat by (intro mod_less) simp
    ultimately show ?thesis by simp
  qed
  have d: "\<exists>os''. FileEntry_EmitData os' (key I) (data I) = Some os''" for os'
    using sk by (cases "key I") (auto simp: FileEntry_EmitData_def short_key_def Emit16_def)
  let ?m = "getRepresentationLength (key I) + (if getFile (key I) \<noteq> None then 4 + 4 else 0)"
  let ?os_b = "Emit8 (Emit32 os (hash I) @ le16 (of_nat ?n)) (of_nat ?m)"
  have kdl: "FileEntry_EmitKeyDataLength (Emit32 os (hash I)) (key I) (data I) = Some (?os_b, ?n, ?m)"
    using Emit16_small [OF n, of "Emit32 os (hash I)"]
    by (simp add: FileEntry_EmitKeyDataLength_def)
  obtain os_c where ek: "FileEntry_EmitKey ?os_b (key I) ?n = Some os_c"
    using u by (simp add: FileEntry_EmitKey_def write_cstring_def)
  from d [of os_c] obtain os_d where ed: "FileEntry_EmitData os_c (key I) (data I) = Some os_d" ..
  have "Emit_Items (FileEntryPTHEntryInfo cs) os s [I] = Some (os_d, s)"
    using kdl ek ed by (simp add: FileEntryPTHEntryInfo_def)
  then have "\<exists>os1. Emit_Items (FileEntryPTHEntryInfo cs) os s [I] = Some (os1, s)" ..
  then obtain os1 where "Emit_Items (FileEntryPTHEntryInfo cs) os s [I] = Some (os1, s)" ..
  moreover from Cons.IH [of os1] Cons.prems obtain os' where
    "Emit_Items (FileEntryPTHEntryInfo cs) os1 s Is = Some (os', s)" by auto
  ultimately show ?case by (subst Emit_Items_Cons) simp
qed

lemma FileEntry_Emit_payload_total:
  assumes "\<forall>B\<in>set Bs. length_B B < 65536 \<and> (\<forall>I\<in>set (head B). short_key I)"
    and "\<forall>i\<in>set js. i < length Bs"
  shows "\<exists>os' Bs'. Emit_payload (FileEntryPTHEntryInfo cs) js os s Bs = Some (os', s, Bs')"
  using assms
proof (induction js arbitrary: os Bs)
  case Nil
  then show ?case by simp
next
  case (Cons i js)
  from Cons.prems have i: "i < length Bs" by simp
  then have Bi: "Bs ! i \<in> set Bs" by simp
  show ?case
  proof (cases "head (Bs ! i) = []")
    case True
    with Cons.IH [OF Cons.prems(1), of os] Cons.prems(2) show ?thesis by simp
  next
    case False
    let ?B = "(Bs ! i)\<lparr>off := of_nat (tell os)\<rparr>"
    from Cons.prems(1) Bi have l: "length_B (Bs ! i) < 65536" and sh: "\<forall>I\<in>set (head (Bs ! i)). short_key I"
      by blast+
    from FileEntry_Emit_Items_total [OF sh, of cs "os @ le16 (of_nat (length_B (Bs ! i)))" s]
    obtain os2 where os2: "Emit_Items (FileEntryPTHEntryInfo cs)
        (os @ le16 (of_nat (length_B (Bs ! i)))) s (head (Bs ! i)) = Some (os2, s)" ..
    have inv: "\<forall>B\<in>set (Bs[i := ?B]). length_B B < 65536 \<and> (\<forall>I\<in>set (head B). short_key I)"
    proof
      fix B assume "B \<in> set (Bs[i := ?B])"
      then have "B = ?B \<or> B \<in> set Bs" using set_update_subset_insert [of Bs i ?B] by auto
      with Cons.prems(1) l sh show "length_B B < 65536 \<and> (\<forall>I\<in>set (head B). short_key I)" by auto
    qed
    from Cons.IH [OF inv, of os2] Cons.prems(2) obtain os' Bs' where
      "Emit_payload (FileEntryPTHEntryInfo cs) js os2 s (Bs[i := ?B]) = Some (os', s, Bs')" by auto
    with False os2 Emit16_small [OF l, of os] show ?thesis by simp
  qed
qed

lemma FileEntry_Emit_total:
  assumes "\<forall>B\<in>set (Buckets T). length_B B < 65536 \<and> (\<forall>I\<in>set (head B). short_key I)"
    and "length (Buckets T) = NumBuckets T"
  shows "\<exists>os' T' TableOff. Emit (FileEntryPTHEntryInfo cs) os s T = Some (os', s, T', TableOff)"
proof -
  have "\<forall>i\<in>set [0..<NumBuckets T]. i < length (Buckets T)" using assms(2) by simp
  from FileEntry_Emit_payload_total [OF assms(1) this, of cs os s] obtain os1 Bs where
    "Emit_payload (FileEntryPTHEntryInfo cs) [0..<NumBuckets T] os s (Buckets T) = Some (os1, s, Bs)"
    by auto
  then show ?thesis by (simp add: Emit_def Let_def)
qed

definition FileEntry_Item :: "bool \<Rightarrow> PTHEntryKeyVariant \<times> PTHEntry \<Rightarrow> (PTHEntryKeyVariant, PTHEntry) Item" where
  "FileEntry_Item cs kd = \<lparr>key = fst kd, data = snd kd, hash = BernsteinHash cs (getCString (fst kd))\<rparr>"

lemma FileEntry_new_Item:
  "new_Item (FileEntryPTHEntryInfo cs) s k d = Some (FileEntry_Item cs (k, d))"
  by (simp add: new_Item_def FileEntryPTHEntryInfo_def FileEntry_Item_def)

lemma insert_all_append:
  "insert_all info s (kds @ kds') T =
     (case insert_all info s kds T of None \<Rightarrow> None | Some T1 \<Rightarrow> insert_all info s kds' T1)"
  by (induction kds arbitrary: T) (auto split: option.splits)

lemma FileEntry_insert_all_small:
  "4 * (NumEntries T + length kds) < 3 * NumBuckets T \<Longrightarrow> NumBuckets T \<le> 1073741824 \<Longrightarrow>
   insert_all (FileEntryPTHEntryInfo cs) s kds T =
     Some (T\<lparr>NumEntries := NumEntries T + length kds,
             Buckets := fold (\<lambda>E b. insert_Item b (NumBuckets T) E)
                          (map (FileEntry_Item cs) kds) (Buckets T)\<rparr>)"
proof (induction kds arbitrary: T)
  case Nil
  then show ?case by simp
next
  case (Cons kd kds)
  obtain k d where kd: "kd = (k, d)" by (cases kd)
  let ?T1 = "T\<lparr>NumEntries := NumEntries T + 1,
               Buckets := insert_Item (Buckets T) (NumBuckets T) (FileEntry_Item cs (k, d))\<rparr>"
  from Cons.prems have small: "\<not> 3 * NumBuckets T \<le> 4 * (NumEntries T + 1)" by simp
  from Cons.prems have b: "0 < NumBuckets T" "NumBuckets T \<le> 1073741824" "NumEntries T < 1073741823"
    by simp_all
  from small have one: "insert_key_data (FileEntryPTHEntryInfo cs) s k d T = Some ?T1"
    unfolding insert_key_data_nowrap [OF b] by (simp add: FileEntry_new_Item)
  have "4 * (NumEntries ?T1 + length kds) < 3 * NumBuckets ?T1" "NumBuckets ?T1 \<le> 1073741824"
    using Cons.prems by simp_all
  from Cons.IH [OF this] one kd show ?case by simp
qed

lemma items_insert_key_data:
  assumes len: "length (Buckets T) = NumBuckets T" and ins: "insert_key_data info s k d T = Some T'"
  shows "\<exists>E. new_Item info s k d = Some E \<and>
             mset (items_of (Buckets T')) = add_mset E (mset (items_of (Buckets T)))"
proof -
  let ?T1 = "T\<lparr>NumEntries := u32 (NumEntries T + 1)\<rparr>"
  define T2 where "T2 = (if u32 (4 * NumEntries ?T1) \<ge> u32 (3 * NumBuckets ?T1)
                then resize ?T1 (u32 (NumBuckets ?T1 * 2)) else ?T1)"
  from ins obtain E where E: "new_Item info s k d = Some E" and pos: "0 < NumBuckets T2"
    and T': "T' = T2\<lparr>Buckets := insert_Item (Buckets T2) (NumBuckets T2) E\<rparr>"
    unfolding insert_key_data_def Let_def T2_def [symmetric] by (auto split: if_splits)
  have len1: "length (Buckets ?T1) = NumBuckets ?T1" using len by simp
  have l2: "length (Buckets T2) = NumBuckets T2" using len by (simp add: T2_def)
  have m2: "mset (items_of (Buckets T2)) = mset (items_of (Buckets T))"
  proof (cases "u32 (4 * NumEntries ?T1) \<ge> u32 (3 * NumBuckets ?T1)")
    case True
    then have t: "T2 = resize ?T1 (u32 (NumBuckets ?T1 * 2))" by (simp add: T2_def)
    with pos have "0 < u32 (NumBuckets ?T1 * 2)" by simp
    from resize_rehashes(2) [OF this len1] show ?thesis unfolding t by simp
  next
    case False
    then show ?thesis by (simp add: T2_def)
  qed
  have idx: "bucket_index (NumBuckets T2) (hash E) < length (Buckets T2)"
    using bucket_index_less [OF pos] l2 by simp
  from items_of_insert_Item [OF idx] m2 E show ?thesis unfolding T' by simp
qed

lemma FileEntry_items_insert_all:
  "length (Buckets T) = NumBuckets T \<Longrightarrow> insert_all (FileEntryPTHEntryInfo cs) s kds T = Some T' \<Longrightarrow>
   mset (items_of (Buckets T')) = mset (map (FileEntry_Item cs) kds) + mset (items_of (Buckets T))"
proof (induction kds arbitrary: T)
  case Nil
  then show ?case by simp
next
  case (Cons kd kds)
  obtain k d where kd: "kd = (k, d)" by (cases kd)
  from Cons.prems(2) kd obtain T1 where
    T1: "insert_key_data (FileEntryPTHEntryInfo cs) s k d T = Some T1"
    and rest: "insert_all (FileEntryPTHEntryInfo cs) s kds T1 = Some T'"
    by (auto split: option.splits)
  from items_insert_key_data [OF Cons.prems(1) T1]
  have m: "mset (items_of (Buckets T1)) = add_mset (FileEntry_Item cs (k, d)) (mset (items_of (Buckets T)))"
    by (simp add: FileEntry_new_Item)
  from Cons.IH [OF insert_key_data_length [OF Cons.prems(1) T1] rest] m kd show ?case by simp
qed

lemma chain_subset_items:
  assumes "B \<in> set Bs"
  shows "set (head B) \<subseteq> set (items_of Bs)" and "length (head B) \<le> length (items_of Bs)"
proof -
  from assms obtain xs ys where Bs: "Bs = xs @ B # ys" by (auto simp: in_set_conv_decomp)
  show "set (head B) \<subseteq> set (items_of Bs)" by (auto simp: Bs items_of_def)
  show "length (head B) \<le> length (items_of Bs)" by (simp add: Bs items_of_def)
qed

lemma FileEntry_built_emits:
  assumes built: "insert_all (FileEntryPTHEntryInfo cs) s0 kds new_Generator = Some T"
    and short: "\<forall>kd\<in>set kds. short_key (FileEntry_Item cs kd)"
    and few: "length kds < 65536"
  shows "\<exists>os' T' TableOff. Emit (FileEntryPTHEntryInfo cs) os s T = Some (os', s, T', TableOff)"
proof -
  from insert_all_length [OF length_Buckets_new built] have len: "length (Buckets T) = NumBuckets T" .
  have ci: "chains_inv (Buckets T)"
    using chains_inv_insert_all [OF _ built] by (simp add: new_Generator_def chains_inv_calloc)
  have "items_of (Buckets (new_Generator :: (PTHEntryKeyVariant, PTHEntry) OnDiskChainedHashTableGenerator)) = []"
    by (simp add: items_of_def new_Generator_def calloc_Buckets_def)
  with FileEntry_items_insert_all [OF length_Buckets_new built]
  have m: "mset (items_of (Buckets T)) = mset (map (FileEntry_Item cs) kds)" by simp
  then have st: "set (items_of (Buckets T)) = FileEntry_Item cs ` set kds"
    by (metis set_mset_mset set_map)
  from m have sz: "length (items_of (Buckets T)) = length kds"
    by (metis size_mset length_map)
  have "\<forall>B\<in>set (Buckets T). length_B B < 65536 \<and> (\<forall>I\<in>set (head B). short_key I)"
  proof
    fix B assume B: "B \<in> set (Buckets T)"
    from ci B have "length_B B = u32 (length (head B))" by (simp add: chains_inv_def)
    moreover from chain_subset_items(2) [OF B] sz few have "length (head B) < 65536" by simp
    ultimately have "length_B B < 65536" by (simp add: u32_id)
    moreover from chain_subset_items(1) [OF B] st short have "\<forall>I\<in>set (head B). short_key I" by auto
    ultimately show "length_B B < 65536 \<and> (\<forall>I\<in>set (head B). short_key I)" ..
  qed
  from FileEntry_Emit_total [OF this len] show ?thesis .
qed

definition Item_of :: "('k, 'd, 's) Info \<Rightarrow> 's \<Rightarrow> 'k \<times> 'd \<Rightarrow> ('k, 'd) Item" where
  "Item_of info s kd = \<lparr>key = fst kd, data = snd kd, hash = the (ComputeHash info s (fst kd))\<rparr>"

lemma insert_all_small:
  "insert_all info s kds T = Some T' \<Longrightarrow> 4 * (NumEntries T + length kds) < 3 * NumBuckets T \<Longrightarrow>
   NumBuckets T \<le> 1073741824 \<Longrightarrow>
   NumBuckets T' = NumBuckets T \<and>
   Buckets T' = fold (\<lambda>E b. insert_Item b (NumBuckets T) E) (map (Item_of info s) kds) (Buckets T)"
proof (induction kds arbitrary: T)
  case Nil
  then show ?case by simp
next
  case (Cons kd kds)
  obtain k d where kd: "kd = (k, d)" by (cases kd)
  from Cons.prems(1) obtain T1 where one: "insert_key_data info s k d T = Some T1"
    and rest: "insert_all info s kds T1 = Some T'"
    by (auto simp: kd split: option.splits)
  from Cons.prems(2) have small: "\<not> 3 * NumBuckets T \<le> 4 * (NumEntries T + 1)" by simp
  from Cons.prems(2,3) have b: "0 < NumBuckets T" "NumBuckets T \<le> 1073741824"
    "NumEntries T < 1073741823"
    by simp_all
  from one small obtain h where h: "ComputeHash info s k = Some h"
    and T1: "T1 = T\<lparr>NumEntries := NumEntries T + 1,
               Buckets := insert_Item (Buckets T) (NumBuckets T) \<lparr>key = k, data = d, hash = h\<rparr>\<rparr>"
    unfolding insert_key_data_nowrap [OF b] by (auto simp: new_Item_def)
  have "4 * (NumEntries T1 + length kds) < 3 * NumBuckets T1" "NumBuckets T1 \<le> 1073741824"
    using Cons.prems(2,3) by (simp_all add: T1)
  from Cons.IH [OF rest this] show ?case by (simp add: T1 kd Item_of_def h)
qed

lemma chain_new_small:
  assumes "insert_all info s kds new_Generator = Some T" "4 * length kds < 192" "i < 64"
  shows "head (Buckets T ! i) = rev (filter (\<lambda>E. bucket_index 64 (hash E) = i) (map (Item_of info s) kds))"
proof -
  from assms(2) have "4 * (NumEntries new_Generator + length kds) < 3 * NumBuckets new_Generator"
    by (simp add: new_Generator_def)
  moreover have "NumBuckets (new_Generator :: ('a, 'b) OnDiskChainedHashTableGenerator) \<le> 1073741824"
    by (simp add: new_Generator_def)
  ultimately have "Buckets T = fold (\<lambda>E b. insert_Item b 64 E) (map (Item_of info s) kds) (calloc_Buckets 64)"
    using insert_all_small [OF assms(1)] by (simp add: new_Generator_def)
  with assms(3) show ?thesis by (simp add: chain_fold calloc_Buckets_def)
qed

text \<open>
Claim C7, as amended. For a table built by \<^verbatim>\<open>insert\<close> from a new generator, \<^verbatim>\<open>Emit\<close> writes the
  payload of every non-empty bucket in the order of the bucket indices: the number of items
  on 16 bits, then the items in the order of the chain, from its head. It then pads with
  zero bytes to a multiple of 4, and at the returned offset writes \<open>NumBuckets\<close>,
  \<open>NumEntries\<close> and one 32-bit offset for each bucket: the offset of the bucket's payload,
  or 0 for an empty bucket. As long as the table was never resized (fewer than 48 keys),
  the chain of a bucket holds its items with the later inserted first.
\<close>

theorem Emit_protocol:
  assumes built: "insert_all info s0 kds new_Generator = Some T"
    and app: "appends info enc"
    and emit: "Emit info os s T = Some (os', s', T', TableOff)"
  shows "\<exists>k<4.
     os' = os
        @ concat (map (\<lambda>B. if head B = [] then []
                            else le16 (of_nat (length (head B))) @ concat (map (enc s) (head B)))
                   (Buckets T))
        @ replicate k 0
        @ Emit32 [] (of_nat (NumBuckets T)) @ Emit32 [] (of_nat (NumEntries T))
        @ concat (map (\<lambda>B. Emit32 [] (off B)) (Buckets T')) \<and>
     TableOff = of_nat (length os + length (payload_bytes (enc s) (Buckets T)) + k) \<and>
     (length os + length (payload_bytes (enc s) (Buckets T)) + k) mod 4 = 0 \<and>
     length (Buckets T') = NumBuckets T \<and>
     (\<forall>i<NumBuckets T.
        off (Buckets T' ! i) =
          (if head (Buckets T ! i) \<noteq> []
           then of_nat (length os + length (payload_bytes (enc s) (take i (Buckets T))))
           else 0)) \<and>
     (4 * length kds < 192 \<longrightarrow>
        (\<forall>i<64. head (Buckets T ! i) =
           rev (filter (\<lambda>E. bucket_index 64 (hash E) = i) (map (Item_of info s0) kds))))"
proof -
  from insert_all_length [OF length_Buckets_new built] have len: "length (Buckets T) = NumBuckets T" .
  have ci: "chains_inv (Buckets T)"
    using chains_inv_insert_all [OF _ built] by (simp add: new_Generator_def chains_inv_calloc)
  have pb: "payload_bytes (enc s) (Buckets T) =
      concat (map (\<lambda>B. if head B = [] then []
                        else le16 (of_nat (length (head B))) @ concat (map (enc s) (head B)))
               (Buckets T))"
    unfolding payload_bytes_def
    by (rule arg_cong [of _ _ concat], rule map_cong [OF refl])
       (use ci in \<open>simp add: bucket_bytes_def chains_inv_def\<close>)
  from Emit_layout [OF app len emit] obtain k where k: "k < 4"
    and a: "os' = os @ payload_bytes (enc s) (Buckets T) @ replicate k 0
              @ Emit32 [] (of_nat (NumBuckets T)) @ Emit32 [] (of_nat (NumEntries T))
              @ concat (map (\<lambda>B. Emit32 [] (off B)) (Buckets T'))"
    and b: "(length os + length (payload_bytes (enc s) (Buckets T)) + k) mod 4 = 0"
    and c: "TableOff = of_nat (length os + length (payload_bytes (enc s) (Buckets T)) + k)"
    and l: "length (Buckets T') = NumBuckets T"
    and d: "\<forall>i<NumBuckets T.
        head (Buckets T' ! i) = head (Buckets T ! i) \<and>
        length_B (Buckets T' ! i) = length_B (Buckets T ! i) \<and>
        off (Buckets T' ! i) =
          (if head (Buckets T ! i) \<noteq> []
           then of_nat (length os + length (payload_bytes (enc s) (take i (Buckets T))))
           else off (Buckets T ! i))"
    by (elim exE conjE)
  have z: "off (Buckets T ! i) = 0" if "i < NumBuckets T" for i
    using ci that len by (simp add: chains_inv_def)
  have d': "\<forall>i<NumBuckets T.
        off (Buckets T' ! i) =
          (if head (Buckets T ! i) \<noteq> []
           then of_nat (length os + length (payload_bytes (enc s) (take i (Buckets T))))
           else 0)"
    using d z by simp
  have e: "4 * length kds < 192 \<longrightarrow>
        (\<forall>i<64. head (Buckets T ! i) =
           rev (filter (\<lambda>E. bucket_index 64 (hash E) = i) (map (Item_of info s0) kds)))"
    using chain_new_small [OF built] by blast
  show ?thesis
    by (rule exI [of _ k]) (intro conjI k a [unfolded pb] b c l d' e)
qed

definition names48 :: "string list" where
  "names48 = ''/cs.h'' # ''/gx.h'' #
     map (\<lambda>c. [CHR ''/'', c, CHR ''.'', CHR ''h'']) ''abcdefghijklmnopqrstuvwxyz'' @
     map (\<lambda>c. [CHR ''/'', c, CHR ''.'', CHR ''c'']) ''abcdefghijklmnopqrst''"

definition kds48 :: "(PTHEntryKeyVariant \<times> PTHEntry) list" where
  "kds48 = map (\<lambda>x. (IsNoExist x, \<lparr>TokenData = 0, PPCondData = 0\<rparr>)) names48"

lemma bucket_index_128_64: "bucket_index 128 h = 0 \<Longrightarrow> bucket_index 64 h = 0"
proof -
  assume "bucket_index 128 h = 0"
  then have z: "(ucast h :: 64 word) AND 127 = 0" by (simp add: bucket_index_def unsigned_eq_0_iff)
  have "(ucast h :: 64 word) AND 63 = ((ucast h :: 64 word) AND 127) AND 63"
    by (simp add: and.assoc)
  with z show ?thesis by (simp add: bucket_index_def)
qed

lemma filter_classes:
  assumes "\<forall>E\<in>set Es. P E \<longrightarrow> g E = j0" and "j0 < n"
  shows "filter P (concat (map (\<lambda>j. rev (filter (\<lambda>E. g E = j) Es)) [0..<n])) = rev (filter P Es)"
proof -
  have c: "filter P (rev (filter (\<lambda>E. g E = j) Es)) = (if j = j0 then rev (filter P Es) else [])" for j
  proof -
    have "filter P (filter (\<lambda>E. g E = j) Es) = (if j = j0 then filter P Es else [])"
      using assms(1) by (induction Es) auto
    then show ?thesis by (simp add: rev_filter [symmetric] split: if_splits)
  qed
  have "filter P (concat (map (\<lambda>j. rev (filter (\<lambda>E. g E = j) Es)) js))
      = (if j0 \<in> set js then rev (filter P Es) else [])" if "distinct js" for js
    using that by (induction js) (auto simp: c)
  from this [of "[0..<n]"] assms(2) show ?thesis by simp
qed

lemma items_of_fold_calloc:
  "items_of (fold (\<lambda>E b. insert_Item b n E) Es (calloc_Buckets n)) =
     concat (map (\<lambda>j. rev (filter (\<lambda>E. bucket_index n (hash E) = j) Es)) [0..<n])"
proof -
  let ?b = "fold (\<lambda>E b. insert_Item b n E) Es (calloc_Buckets n)"
  have l: "length ?b = n" by (simp add: calloc_Buckets_def)
  have "map head ?b = map (\<lambda>j. rev (filter (\<lambda>E. bucket_index n (hash E) = j) Es)) [0..<n]"
    using l by (intro nth_equalityI) (simp_all add: chain_fold calloc_Buckets_def)
  then show ?thesis by (simp add: items_of_def)
qed

lemma kds48_split: "kds48 = take 47 kds48 @ [(IsNoExist ''/t.c'', \<lparr>TokenData = 0, PPCondData = 0\<rparr>)]"
  by (simp add: kds48_def names48_def)

lemma length_take47: "length (take 47 kds48) = 47"
  by (simp add: kds48_def names48_def)

lemma kds48_short: "\<forall>kd\<in>set kds48. short_key (FileEntry_Item True kd)"
  by (simp add: kds48_def names48_def short_key_def FileEntry_Item_def strlen_def)

lemma bucket0_47:
  "filter (\<lambda>E. bucket_index 128 (hash E) = 0) (map (FileEntry_Item True) (take 47 kds48)) =
     [FileEntry_Item True (IsNoExist ''/cs.h'', \<lparr>TokenData = 0, PPCondData = 0\<rparr>),
      FileEntry_Item True (IsNoExist ''/gx.h'', \<lparr>TokenData = 0, PPCondData = 0\<rparr>)]"
  by code_simp

lemma bucket0_last:
  "bucket_index 128 (hash (FileEntry_Item True (IsNoExist ''/t.c'', \<lparr>TokenData = 0, PPCondData = 0\<rparr>))) \<noteq> 0"
  by code_simp

lemma bucket0_bytes:
  "le16 (of_nat 2)
     @ FileEntry_item_bytes (FileEntry_Item True (IsNoExist ''/cs.h'', \<lparr>TokenData = 0, PPCondData = 0\<rparr>))
     @ FileEntry_item_bytes (FileEntry_Item True (IsNoExist ''/gx.h'', \<lparr>TokenData = 0, PPCondData = 0\<rparr>))
   = [2, 0,
      0x80, 0x0E, 0xA7, 0x03, 7, 0, 0, 0, 47, 99, 115, 46, 104, 0,
      0x80, 0x67, 0xA9, 0x03, 7, 0, 0, 0, 47, 103, 120, 46, 104, 0]"
  by code_simp


lemma table48:
  defines "E0 \<equiv> \<lparr>TokenData = 0, PPCondData = 0\<rparr>"
  shows "\<exists>T. insert_all (FileEntryPTHEntryInfo True) () kds48 new_Generator = Some T \<and>
          length (Buckets T) = NumBuckets T \<and> NumBuckets T = 128 \<and>
          chains_inv (Buckets T) \<and>
          head (Buckets T ! 0) =
            [FileEntry_Item True (IsNoExist ''/cs.h'', E0), FileEntry_Item True (IsNoExist ''/gx.h'', E0)]"
proof -
  let ?I = "FileEntryPTHEntryInfo True"
  let ?G = "new_Generator :: (PTHEntryKeyVariant, PTHEntry) OnDiskChainedHashTableGenerator"
  let ?Es = "map (FileEntry_Item True) (take 47 kds48)"
  let ?E48 = "FileEntry_Item True (IsNoExist ''/t.c'', E0)"
  define T47 where "T47 = ?G\<lparr>NumEntries := NumEntries ?G + length (take 47 kds48),
       Buckets := fold (\<lambda>E b. insert_Item b (NumBuckets ?G) E) ?Es (Buckets ?G)\<rparr>"
  have "4 * (NumEntries ?G + length (take 47 kds48)) < 3 * NumBuckets ?G"
    unfolding length_take47 by (simp add: new_Generator_def)
  moreover have "NumBuckets ?G \<le> 1073741824" by (simp add: new_Generator_def)
  ultimately have t47: "insert_all ?I () (take 47 kds48) ?G = Some T47"
    unfolding T47_def by (rule FileEntry_insert_all_small)
  have nb: "NumBuckets T47 = 64" and ne: "NumEntries T47 = 47"
    and b47: "Buckets T47 = fold (\<lambda>E b. insert_Item b 64 E) ?Es (calloc_Buckets 64)"
    unfolding T47_def length_take47 by (simp_all add: new_Generator_def)
  have len47: "length (Buckets T47) = NumBuckets T47"
    by (simp add: b47 nb calloc_Buckets_def)
  define T48 where "T48 = (resize T47 128)\<lparr>NumEntries := 48,
       Buckets := insert_Item (Buckets (resize T47 128)) 128 ?E48\<rparr>"
  have b47': "0 < NumBuckets T47" "NumBuckets T47 \<le> 1073741824" "NumEntries T47 < 1073741823"
    by (simp_all add: nb ne)
  have t48: "insert_key_data ?I () (IsNoExist ''/t.c'') E0 T47 = Some T48"
    unfolding insert_key_data_nowrap [OF b47'] by (simp add: FileEntry_new_Item nb ne T48_def)
  have built: "insert_all ?I () kds48 ?G = Some T48"
    using t48 unfolding E0_def by (subst kds48_split) (simp add: insert_all_append t47)
  have "\<forall>E\<in>set ?Es. bucket_index 128 (hash E) = 0 \<longrightarrow> bucket_index 64 (hash E) = 0"
    using bucket_index_128_64 by blast
  from filter_classes [OF this, of 64]
  have "filter (\<lambda>E. bucket_index 128 (hash E) = 0) (items_of (Buckets T47)) =
          rev (filter (\<lambda>E. bucket_index 128 (hash E) = 0) ?Es)"
    by (simp add: b47 items_of_fold_calloc)
  with chain_resize [OF len47, of 0 128]
  have "head (Buckets (resize T47 128) ! 0) = filter (\<lambda>E. bucket_index 128 (hash E) = 0) ?Es"
    by simp
  then have c0: "head (Buckets T48 ! 0) =
      [FileEntry_Item True (IsNoExist ''/cs.h'', E0), FileEntry_Item True (IsNoExist ''/gx.h'', E0)]"
    using bucket0_last bucket0_47 by (simp add: T48_def chain_insert_Item E0_def)
  have l48: "length (Buckets T48) = NumBuckets T48" "NumBuckets T48 = 128"
    by (simp_all add: T48_def)
  have ci: "chains_inv (Buckets T48)"
    using chains_inv_insert_all [OF _ built] by (simp add: new_Generator_def chains_inv_calloc)
  from built l48 ci c0 show ?thesis by blast
qed

text \<open>
Claim C7 as stated fails after a resize, which links the items of the old chains again,
  each at the head of its new chain, and so reverses them. Of 48 files inserted, the first
  two (\<^verbatim>\<open>/cs.h\<close> then \<^verbatim>\<open>/gx.h\<close>) fall in bucket 0 of the resized table, and the payload of bucket 0
  begins with \<^verbatim>\<open>/cs.h\<close>, the item inserted first.
\<close>

theorem Emit_earlier_item_first:
  "map_option (\<lambda>(os, s, T, TableOff). take 30 os)
     (Option.bind (insert_all (FileEntryPTHEntryInfo True) () kds48 new_Generator)
        (Emit (FileEntryPTHEntryInfo True) [] ()))
   = Some [2, 0,
      0x80, 0x0E, 0xA7, 0x03, 7, 0, 0, 0, 47, 99, 115, 46, 104, 0,
      0x80, 0x67, 0xA9, 0x03, 7, 0, 0, 0, 47, 103, 120, 46, 104, 0]"
proof -
  let ?I = "FileEntryPTHEntryInfo True"
  let ?E0 = "\<lparr>TokenData = 0, PPCondData = 0\<rparr>"
  let ?cs = "FileEntry_Item True (IsNoExist ''/cs.h'', ?E0)"
  let ?gx = "FileEntry_Item True (IsNoExist ''/gx.h'', ?E0)"
  from table48 obtain T where built: "insert_all ?I () kds48 new_Generator = Some T"
    and len: "length (Buckets T) = NumBuckets T" and nb: "NumBuckets T = 128"
    and ci: "chains_inv (Buckets T)" and c0: "head (Buckets T ! 0) = [?cs, ?gx]"
    by (elim exE conjE)
  have few: "length kds48 < 65536" by (simp add: kds48_def names48_def)
  from FileEntry_built_emits [OF built kds48_short few, of "[]" "()"] obtain os' T' TableOff where
    emit: "Emit ?I [] () T = Some (os', (), T', TableOff)" by (elim exE)
  from Emit_layout [OF FileEntry_appends len emit] obtain rest where
    os': "os' = payload_bytes FileEntry_item_bytes (Buckets T) @ rest" by auto
  from len nb have "Buckets T \<noteq> []" by auto
  then have Bs: "Buckets T = (Buckets T ! 0) # tl (Buckets T)" by (simp add: hd_conv_nth [symmetric])
  have "Buckets T ! 0 \<in> set (Buckets T)" using len nb by simp
  with ci have "length_B (Buckets T ! 0) = u32 (length (head (Buckets T ! 0)))"
    by (simp add: chains_inv_def)
  with c0 have bb: "bucket_bytes FileEntry_item_bytes (Buckets T ! 0) =
      le16 (of_nat 2) @ FileEntry_item_bytes ?cs @ FileEntry_item_bytes ?gx"
    by (simp add: bucket_bytes_def u32_id)
  have "payload_bytes FileEntry_item_bytes (Buckets T) =
      bucket_bytes FileEntry_item_bytes (Buckets T ! 0) @ payload_bytes FileEntry_item_bytes (tl (Buckets T))"
    by (subst Bs) (simp add: payload_bytes_def)
  then have "os' = (le16 (of_nat 2) @ FileEntry_item_bytes ?cs @ FileEntry_item_bytes ?gx) @
      (payload_bytes FileEntry_item_bytes (tl (Buckets T)) @ rest)"
    unfolding os' bb by simp
  then have "take 30 os' = [2, 0,
      0x80, 0x0E, 0xA7, 0x03, 7, 0, 0, 0, 47, 99, 115, 46, 104, 0,
      0x80, 0x67, 0xA9, 0x03, 7, 0, 0, 0, 47, 103, 120, 46, 104, 0]"
    unfolding bucket0_bytes by simp
  with built emit show ?thesis by simp
qed

text \<open>
The protocol on a table of one file.
\<close>

theorem Emit_protocol_witness:
  "\<exists>T os' T' TableOff k.
     insert_all (FileEntryPTHEntryInfo True) () [(IsFE file_a, \<lparr>TokenData = 28, PPCondData = 40\<rparr>)]
        new_Generator = Some T \<and>
     Emit (FileEntryPTHEntryInfo True) [] () T = Some (os', (), T', TableOff) \<and>
     k < 4 \<and> TableOff = of_nat (length (payload_bytes FileEntry_item_bytes (Buckets T)) + k) \<and>
     length (Buckets T') = 64 \<and>
     (\<forall>i<64. head (Buckets T ! i) =
        rev (filter (\<lambda>E. bucket_index 64 (hash E) = i)
               (map (Item_of (FileEntryPTHEntryInfo True) ())
                  [(IsFE file_a, \<lparr>TokenData = 28, PPCondData = 40\<rparr>)])))"
proof -
  let ?I = "FileEntryPTHEntryInfo True"
  let ?kds = "[(IsFE file_a, \<lparr>TokenData = 28, PPCondData = 40\<rparr>)]"
  let ?G = "new_Generator :: (PTHEntryKeyVariant, PTHEntry) OnDiskChainedHashTableGenerator"
  have "4 * (NumEntries ?G + length ?kds) < 3 * NumBuckets ?G" by (simp add: new_Generator_def)
  from FileEntry_insert_all_small [OF this, of True "()"] obtain T where
    built: "insert_all ?I () ?kds ?G = Some T" and nb: "NumBuckets T = 64"
    by (simp add: new_Generator_def)
  have short: "\<forall>kd\<in>set ?kds. short_key (FileEntry_Item True kd)"
    by (simp add: short_key_def FileEntry_Item_def file_a_def strlen_def)
  from FileEntry_built_emits [OF built short, of "[]" "()"] obtain os' T' TableOff where
    emit: "Emit ?I [] () T = Some (os', (), T', TableOff)" by auto
  from Emit_protocol [OF built FileEntry_appends emit] obtain k where
    "k < 4" "TableOff = of_nat (length ([] :: byte list) + length (payload_bytes FileEntry_item_bytes (Buckets T)) + k)"
    "length (Buckets T') = NumBuckets T"
    "4 * length ?kds < 192 \<longrightarrow>
        (\<forall>i<64. head (Buckets T ! i) =
           rev (filter (\<lambda>E. bucket_index 64 (hash E) = i) (map (Item_of ?I ()) ?kds)))"
    by (elim exE conjE)
  with built emit nb show ?thesis by auto
qed

subsection \<open>Files passed over, and the failure to open the output\<close>

definition processed :: "Externals \<Rightarrow> ContentCache \<Rightarrow> bool" where
  "processed PP C \<longleftrightarrow> isAbsolute PP (getName (Entry C)) \<and> getBuffer C \<noteq> None"

lemma cache_files_skip:
  "\<not> processed PP C \<Longrightarrow> cache_files PP (C # Cs) W = cache_files PP Cs W"
  by (auto simp: processed_def)

lemma cache_files_process:
  assumes "isAbsolute PP (getName (Entry C))" "getBuffer C = Some L"
  shows "cache_files PP (C # Cs) W =
     do {
       (E, W1) \<leftarrow> LexTokens PP L W;
       PM1 \<leftarrow> insert_key_data (FileEntryPTHEntryInfo (char_signed PP)) () (IsFE (Entry C)) E (PM W1);
       cache_files PP Cs (W1\<lparr>PM := PM1\<rparr>)
     }"
  using assms by simp

lemma cache_files_filter:
  "cache_files PP SM W = cache_files PP (filter (processed PP) SM) W"
proof (induction SM arbitrary: W)
  case Nil
  show ?case by simp
next
  case (Cons C Cs)
  show ?case
  proof (cases "processed PP C")
    case False
    then show ?thesis
      unfolding cache_files_skip [OF False] using Cons.IH [of W] by simp
  next
    case True
    then obtain L where L: "isAbsolute PP (getName (Entry C))" "getBuffer C = Some L"
      by (auto simp: processed_def)
    have "cache_files PP (C # Cs) W = cache_files PP (C # filter (processed PP) Cs) W"
      unfolding cache_files_process [OF L]
      by (intro bind_option_cong refl) (auto simp: Cons.IH)
    with True show ?thesis by simp
  qed
qed

definition relative_file :: ContentCache where
  "relative_file =
     \<lparr>Entry = \<lparr>getName = ''a.h'', getInode = 1, getDevice = 2, getFileMode = 0x81A4,
                getModificationTime = 3, getSize = 4\<rparr>,
      getBuffer = Some empty_Lexer\<rparr>"

definition unread_file :: ContentCache where
  "unread_file = \<lparr>Entry = file_a, getBuffer = None\<rparr>"

text \<open>
Claim C8. A file of the source manager whose path is not absolute, or whose buffer is
  absent, is passed over: the writer is left as it was (no token, no table of
  conditionals, no entry of the file map). A file with an absolute path and a buffer is
  lexed and entered in the file map. So the files, the whole output of \<^verbatim>\<open>GeneratePTH\<close> and
  that of \<^verbatim>\<open>CacheTokens\<close> are those of the source manager without the files passed over. When
  opening the output leaves an error message, \<^verbatim>\<open>CacheTokens\<close> writes \<^verbatim>\<open>PTH error: \<close>, the
  message and a newline to the error stream and returns: no writer runs and no byte of
  the file is written.
\<close>

theorem skipped_files:
  "(\<not> isAbsolute PP (getName (Entry C)) \<or> getBuffer C = None \<longrightarrow>
      cache_files PP (C # Cs) W = cache_files PP Cs W) \<and>
   (isAbsolute PP (getName (Entry C)) \<and> getBuffer C = Some L \<longrightarrow>
      cache_files PP (C # Cs) W =
        do {
          (E, W1) \<leftarrow> LexTokens PP L W;
          PM1 \<leftarrow> insert_key_data (FileEntryPTHEntryInfo (char_signed PP)) () (IsFE (Entry C)) E (PM W1);
          cache_files PP Cs (W1\<lparr>PM := PM1\<rparr>)
        }) \<and>
   cache_files PP SM W = cache_files PP (filter (processed PP) SM) W \<and>
   GeneratePTH PP SM W = GeneratePTH PP (filter (processed PP) SM) W \<and>
   CacheTokens PP SM [] = CacheTokens PP (filter (processed PP) SM) [] \<and>
   (ErrMsg \<noteq> [] \<longrightarrow>
      CacheTokens PP SM ErrMsg = Some (''PTH error: '' @ ErrMsg @ [CHR 0x0A], None))"
proof -
  have a: "\<not> isAbsolute PP (getName (Entry C)) \<or> getBuffer C = None \<longrightarrow>
      cache_files PP (C # Cs) W = cache_files PP Cs W"
    by (auto simp: cache_files_skip processed_def)
  have b: "isAbsolute PP (getName (Entry C)) \<and> getBuffer C = Some L \<longrightarrow>
      cache_files PP (C # Cs) W =
        do {
          (E, W1) \<leftarrow> LexTokens PP L W;
          PM1 \<leftarrow> insert_key_data (FileEntryPTHEntryInfo (char_signed PP)) () (IsFE (Entry C)) E (PM W1);
          cache_files PP Cs (W1\<lparr>PM := PM1\<rparr>)
        }"
    using cache_files_process by blast
  have c: "cache_files PP SM W' = cache_files PP (filter (processed PP) SM) W'" for W'
    by (rule cache_files_filter)
  have d: "GeneratePTH PP SM W' = GeneratePTH PP (filter (processed PP) SM) W'" for W'
    unfolding GeneratePTH_def c [symmetric] ..
  have e: "CacheTokens PP SM [] = CacheTokens PP (filter (processed PP) SM) []"
    unfolding CacheTokens_def d [symmetric] ..
  have f: "ErrMsg \<noteq> [] \<longrightarrow>
      CacheTokens PP SM ErrMsg = Some (''PTH error: '' @ ErrMsg @ [CHR 0x0A], None)"
    by (simp add: CacheTokens_def)
  from a b c d e f show ?thesis by (intro conjI)
qed

definition read_file :: ContentCache where
  "read_file = \<lparr>Entry = file_a, getBuffer = Some empty_Lexer\<rparr>"

lemma read_file_cached:
  "map_option (\<lambda>W. (Out W, map (\<lambda>E. (key E, data E)) (items_of (Buckets (PM W)))))
     (cache_files (example_PP (\<lambda>T. foo_II) (\<lambda>T. [])) [read_file] (new_PTHWriter []))
     = Some ([1, 1, 0, 0,  0, 0, 0, 0,  0, 0, 0, 0,  0, 0, 0, 0],
             [(IsFE file_a, \<lparr>TokenData = 0, PPCondData = 12\<rparr>)])"
  by code_simp

text \<open>
Three files: one with a relative path, one without buffer, and an empty file \<^verbatim>\<open>/a\<close>, the
  only one that is lexed (one end-of-file token and an empty table of conditionals).
\<close>

theorem skipped_files_witness:
  "cache_files (example_PP (\<lambda>T. foo_II) (\<lambda>T. [])) [relative_file, unread_file, read_file] (new_PTHWriter [])
     = cache_files (example_PP (\<lambda>T. foo_II) (\<lambda>T. [])) [read_file] (new_PTHWriter []) \<and>
   cache_files (example_PP (\<lambda>T. foo_II) (\<lambda>T. [])) [read_file] (new_PTHWriter []) =
     do {
       (E, W1) \<leftarrow> LexTokens (example_PP (\<lambda>T. foo_II) (\<lambda>T. [])) empty_Lexer (new_PTHWriter []);
       PM1 \<leftarrow> insert_key_data (FileEntryPTHEntryInfo True) () (IsFE file_a) E (PM W1);
       Some (W1\<lparr>PM := PM1\<rparr>)
     } \<and>
   map_option (\<lambda>W. (Out W, map (\<lambda>E. (key E, data E)) (items_of (Buckets (PM W)))))
     (cache_files (example_PP (\<lambda>T. foo_II) (\<lambda>T. [])) [read_file] (new_PTHWriter []))
     = Some ([1, 1, 0, 0,  0, 0, 0, 0,  0, 0, 0, 0,  0, 0, 0, 0],
             [(IsFE file_a, \<lparr>TokenData = 0, PPCondData = 12\<rparr>)]) \<and>
   CacheTokens (example_PP (\<lambda>T. foo_II) (\<lambda>T. [])) [relative_file, unread_file, read_file] ''denied''
     = Some (''PTH error: denied'' @ [CHR 0x0A], None)"
proof -
  let ?PP = "example_PP (\<lambda>T. foo_II) (\<lambda>T. [])"
  let ?W = "new_PTHWriter []"
  have p: "filter (processed ?PP) [relative_file, unread_file, read_file] = [read_file]"
    by (simp add: processed_def relative_file_def unread_file_def read_file_def example_PP_def file_a_def)
  have "''denied'' \<noteq> []" by simp
  with skipped_files [of ?PP relative_file "[unread_file, read_file]" ?W empty_Lexer
      "[relative_file, unread_file, read_file]" "''denied''"]
  have a: "cache_files ?PP [relative_file, unread_file, read_file] ?W = cache_files ?PP [read_file] ?W"
    and c: "CacheTokens ?PP [relative_file, unread_file, read_file] ''denied''
              = Some (''PTH error: denied'' @ [CHR 0x0A], None)"
    unfolding p by simp_all
  have "isAbsolute ?PP (getName (Entry read_file)) \<and> getBuffer read_file = Some empty_Lexer"
    by (simp add: read_file_def example_PP_def file_a_def)
  with skipped_files [of ?PP read_file "[]" ?W empty_Lexer "[]" "[]"]
  have "cache_files ?PP [read_file] ?W =
        do {
          (E, W1) \<leftarrow> LexTokens ?PP empty_Lexer ?W;
          PM1 \<leftarrow> insert_key_data (FileEntryPTHEntryInfo (char_signed ?PP)) () (IsFE (Entry read_file)) E (PM W1);
          cache_files ?PP [] (W1\<lparr>PM := PM1\<rparr>)
        }"
    by blast
  then have b: "cache_files ?PP [read_file] ?W =
     do {
       (E, W1) \<leftarrow> LexTokens ?PP empty_Lexer ?W;
       PM1 \<leftarrow> insert_key_data (FileEntryPTHEntryInfo True) () (IsFE file_a) E (PM W1);
       Some (W1\<lparr>PM := PM1\<rparr>)
     }"
    by (simp add: read_file_def example_PP_def)
  from a b read_file_cached c show ?thesis by (intro conjI)
qed

subsection \<open>The spelling pool\<close>

text \<open>
  The pool is in order when its entries are distinct, \<open>CurStrOffset\<close> is the size of the
  entries with their terminators, and the map gives each entry the offset of its first
  byte in the concatenation of the entries, and nothing to any other spelling.
\<close>

definition pool_size :: "string list \<Rightarrow> nat" where
  "pool_size xs = sum_list (map (\<lambda>x. length x + 1) xs)"

fun pool_offset :: "string list \<Rightarrow> string \<Rightarrow> nat" where
  "pool_offset [] s = 0"
| "pool_offset (x # xs) s = (if x = s then 0 else length x + 1 + pool_offset xs s)"

definition pool_bytes :: "string list \<Rightarrow> byte list" where
  "pool_bytes xs = concat (map (\<lambda>x. map byte_of x @ [0]) xs)"

definition pool_inv :: "PTHWriter \<Rightarrow> bool" where
  "pool_inv W \<longleftrightarrow>
     distinct (StrEntries W) \<and>
     CurStrOffset W = of_nat (pool_size (StrEntries W)) \<and>
     (\<forall>s. CachedStrs W s =
            (if s \<in> set (StrEntries W) then Some (Some (of_nat (pool_offset (StrEntries W) s)))
             else None))"

lemma pool_size_append [simp]: "pool_size (xs @ ys) = pool_size xs + pool_size ys"
  by (simp add: pool_size_def)

lemma pool_offset_append:
  "pool_offset (xs @ ys) s = (if s \<in> set xs then pool_offset xs s else pool_size xs + pool_offset ys s)"
  by (induction xs) (auto simp: pool_size_def)

lemma length_pool_bytes [simp]: "length (pool_bytes xs) = pool_size xs"
  by (induction xs) (simp_all add: pool_bytes_def pool_size_def)

lemma pool_offset_bound:
  "s \<in> set xs \<Longrightarrow> pool_offset xs s + length s + 1 \<le> pool_size xs"
  by (induction xs) (auto simp: pool_size_def)

lemma pool_bytes_at:
  "s \<in> set xs \<Longrightarrow> take (length s + 1) (drop (pool_offset xs s) (pool_bytes xs)) = map byte_of s @ [0]"
proof (induction xs)
  case Nil
  then show ?case by simp
next
  case (Cons x xs)
  show ?case
  proof (cases "x = s")
    case True
    then show ?thesis by (simp add: pool_bytes_def)
  next
    case False
    with Cons.prems have "s \<in> set xs" by simp
    from Cons.IH [OF this] False show ?thesis by (simp add: pool_bytes_def)
  qed
qed

lemma pool_inv_new: "pool_inv (new_PTHWriter os)"
  by (simp add: pool_inv_def new_PTHWriter_def pool_size_def)

lemma cache_spelling_old:
  assumes "pool_inv W" "CachedStrs W s \<noteq> None"
  shows "\<exists>ofs. CachedStrs W s = Some (Some ofs) \<and> cache_spelling s W = Some (ofs, W)"
  using assms by (auto simp: pool_inv_def cache_spelling_eq split: if_splits)

lemma cache_spelling_new:
  assumes "pool_inv W" "CachedStrs W s = None"
  shows "cache_spelling s W =
     Some (CurStrOffset W,
           W\<lparr>CachedStrs := (CachedStrs W)(s \<mapsto> Some (CurStrOffset W)),
             StrEntries := StrEntries W @ [s],
             CurStrOffset := CurStrOffset W + of_nat (length s + 1)\<rparr>)"
    and "pool_inv (W\<lparr>CachedStrs := (CachedStrs W)(s \<mapsto> Some (CurStrOffset W)),
             StrEntries := StrEntries W @ [s],
             CurStrOffset := CurStrOffset W + of_nat (length s + 1)\<rparr>)"
proof -
  show "cache_spelling s W =
     Some (CurStrOffset W,
           W\<lparr>CachedStrs := (CachedStrs W)(s \<mapsto> Some (CurStrOffset W)),
             StrEntries := StrEntries W @ [s],
             CurStrOffset := CurStrOffset W + of_nat (length s + 1)\<rparr>)"
    using assms(2) by (simp add: cache_spelling_eq)
  from assms have new: "s \<notin> set (StrEntries W)"
    by (auto simp: pool_inv_def split: if_splits)
  with assms(1) show "pool_inv (W\<lparr>CachedStrs := (CachedStrs W)(s \<mapsto> Some (CurStrOffset W)),
             StrEntries := StrEntries W @ [s],
             CurStrOffset := CurStrOffset W + of_nat (length s + 1)\<rparr>)"
    by (auto simp: pool_inv_def pool_offset_append pool_size_def)
qed

lemma EmitCachedSpellings_bytes:
  "EmitCachedSpellings W = (of_nat (length (Out W)), W\<lparr>Out := Out W @ pool_bytes (StrEntries W)\<rparr>)"
proof -
  have "fold (\<lambda>x os. Emit8 (EmitBuf os x) 0) xs os = os @ pool_bytes xs" for xs os
    by (induction xs arbitrary: os) (simp_all add: pool_bytes_def Emit8_def EmitBuf_def)
  then show ?thesis by (simp add: EmitCachedSpellings_def tell_def)
qed

lemma pool_inv_fields:
  "pool_inv W \<Longrightarrow> CachedStrs W' = CachedStrs W \<Longrightarrow> StrEntries W' = StrEntries W \<Longrightarrow>
   CurStrOffset W' = CurStrOffset W \<Longrightarrow> pool_inv W'"
  by (simp add: pool_inv_def)

lemma ResolveID_pool [simp]:
  "CachedStrs (snd (ResolveID h W)) = CachedStrs W"
  "StrEntries (snd (ResolveID h W)) = StrEntries W"
  "CurStrOffset (snd (ResolveID h W)) = CurStrOffset W"
  by (simp_all add: ResolveID_def split: option.splits)

definition numeric_Token :: "32 word \<Rightarrow> SourceLocation \<Rightarrow> Token" where
  "numeric_Token len loc =
     \<lparr>Kind = tok_numeric_constant, Flags = 0, Length = len, getIdentifierInfo = None,
      getLocation = loc\<rparr>"

definition example_spelling :: "Token \<Rightarrow> string" where
  "example_spelling T = (if getLocation T = 4 then ''7'' else ''42'')"

text \<open>
Claim C5. The pool is in order in a new writer and stays in order through every call of
  \<^verbatim>\<open>EmitToken\<close>, which is all that changes it. On a pool in order, a literal whose spelling has
  no entry is given the current \<open>CurStrOffset\<close>, written as the second word of its record;
  the spelling is appended to the entries and \<open>CurStrOffset\<close> advances by the length of the
  spelling plus one. A literal whose spelling has an entry is written with the offset of
  that entry, and the pool is left as it was; so is it by a token that is no literal.
  \<^verbatim>\<open>EmitCachedSpellings\<close> returns the position where it starts and, for a pool of less than
  \<open>2^32\<close> bytes, the bytes at that position plus an assigned offset are those of the
  spelling, followed by a NUL.
\<close>

theorem spelling_pool:
  "pool_inv (new_PTHWriter os) \<and>
   (pool_inv W \<and> \<not> isLiteral T \<longrightarrow>
      (\<exists>W'. EmitToken PP T W = Some W' \<and> pool_inv W' \<and>
         CachedStrs W' = CachedStrs W \<and> StrEntries W' = StrEntries W \<and>
         CurStrOffset W' = CurStrOffset W)) \<and>
   (pool_inv W \<and> isLiteral T \<and> CachedStrs W (getSpelling PP T) = None \<longrightarrow>
      (\<exists>W'. EmitToken PP T W = Some W' \<and> pool_inv W' \<and>
         Out W' = Out W @ Emit32 [] (token_word0 PP T) @ Emit32 [] (CurStrOffset W)
                    @ Emit32 [] (getFileOffset PP (getLocation T)) \<and>
         CachedStrs W' = (CachedStrs W)(getSpelling PP T \<mapsto> Some (CurStrOffset W)) \<and>
         StrEntries W' = StrEntries W @ [getSpelling PP T] \<and>
         CurStrOffset W' = CurStrOffset W + of_nat (length (getSpelling PP T) + 1))) \<and>
   (pool_inv W \<and> isLiteral T \<and> CachedStrs W (getSpelling PP T) \<noteq> None \<longrightarrow>
      (\<exists>W' ofs. EmitToken PP T W = Some W' \<and> pool_inv W' \<and>
         CachedStrs W (getSpelling PP T) = Some (Some ofs) \<and>
         Out W' = Out W @ Emit32 [] (token_word0 PP T) @ Emit32 [] ofs
                    @ Emit32 [] (getFileOffset PP (getLocation T)) \<and>
         CachedStrs W' = CachedStrs W \<and> StrEntries W' = StrEntries W \<and>
         CurStrOffset W' = CurStrOffset W)) \<and>
   (pool_inv W \<and> pool_size (StrEntries W) < 2 ^ 32 \<and> CachedStrs W s = Some (Some ofs) \<longrightarrow>
      fst (EmitCachedSpellings W) = of_nat (length (Out W)) \<and>
      Out (snd (EmitCachedSpellings W)) = Out W @ pool_bytes (StrEntries W) \<and>
      take (length s + 1) (drop (length (Out W) + unat ofs) (Out (snd (EmitCachedSpellings W))))
        = map byte_of s @ [0])"
proof (intro conjI impI; (elim conjE)?)
  show "pool_inv (new_PTHWriter os)" by (rule pool_inv_new)
next
  assume inv: "pool_inv W" and T: "\<not> isLiteral T"
  let ?W' = "(snd (ResolveID (getIdentifierInfo T) W))
             \<lparr>Out := Out W @ Emit32 [] (token_word0 PP T)
                        @ Emit32 [] (of_nat (fst (ResolveID (getIdentifierInfo T) W)))
                        @ Emit32 [] (getFileOffset PP (getLocation T))\<rparr>"
  have "pool_inv ?W'" by (rule pool_inv_fields [OF inv]) simp_all
  with EmitToken_nonliteral [OF T, of PP W]
  show "\<exists>W'. EmitToken PP T W = Some W' \<and> pool_inv W' \<and>
         CachedStrs W' = CachedStrs W \<and> StrEntries W' = StrEntries W \<and>
         CurStrOffset W' = CurStrOffset W"
    by simp
next
  assume inv: "pool_inv W" and T: "isLiteral T" and new: "CachedStrs W (getSpelling PP T) = None"
  let ?s = "getSpelling PP T"
  let ?W1 = "W\<lparr>CachedStrs := (CachedStrs W)(?s \<mapsto> Some (CurStrOffset W)),
             StrEntries := StrEntries W @ [?s],
             CurStrOffset := CurStrOffset W + of_nat (length ?s + 1)\<rparr>"
  let ?W' = "?W1\<lparr>Out := Out W @ Emit32 [] (token_word0 PP T) @ Emit32 [] (CurStrOffset W)
                    @ Emit32 [] (getFileOffset PP (getLocation T))\<rparr>"
  have e: "EmitToken PP T W = Some ?W'"
    unfolding EmitToken_literal [OF T] cache_spelling_new(1) [OF inv new]
    by (simp add: literal_offset_def new)
  have "pool_inv ?W'"
    by (rule pool_inv_fields [OF cache_spelling_new(2) [OF inv new]]) simp_all
  with e show "\<exists>W'. EmitToken PP T W = Some W' \<and> pool_inv W' \<and>
         Out W' = Out W @ Emit32 [] (token_word0 PP T) @ Emit32 [] (CurStrOffset W)
                    @ Emit32 [] (getFileOffset PP (getLocation T)) \<and>
         CachedStrs W' = (CachedStrs W)(getSpelling PP T \<mapsto> Some (CurStrOffset W)) \<and>
         StrEntries W' = StrEntries W @ [getSpelling PP T] \<and>
         CurStrOffset W' = CurStrOffset W + of_nat (length (getSpelling PP T) + 1)"
    by simp
next
  assume inv: "pool_inv W" and T: "isLiteral T" and old: "CachedStrs W (getSpelling PP T) \<noteq> None"
  let ?s = "getSpelling PP T"
  from cache_spelling_old [OF inv old] obtain ofs where
    ofs: "CachedStrs W ?s = Some (Some ofs)" and c: "cache_spelling ?s W = Some (ofs, W)"
    by blast
  let ?W' = "W\<lparr>Out := Out W @ Emit32 [] (token_word0 PP T) @ Emit32 [] ofs
                    @ Emit32 [] (getFileOffset PP (getLocation T))\<rparr>"
  have e: "EmitToken PP T W = Some ?W'"
    unfolding EmitToken_literal [OF T] c by (simp add: literal_offset_def ofs)
  have "pool_inv ?W'" by (rule pool_inv_fields [OF inv]) simp_all
  with e ofs show "\<exists>W' ofs. EmitToken PP T W = Some W' \<and> pool_inv W' \<and>
         CachedStrs W (getSpelling PP T) = Some (Some ofs) \<and>
         Out W' = Out W @ Emit32 [] (token_word0 PP T) @ Emit32 [] ofs
                    @ Emit32 [] (getFileOffset PP (getLocation T)) \<and>
         CachedStrs W' = CachedStrs W \<and> StrEntries W' = StrEntries W \<and>
         CurStrOffset W' = CurStrOffset W"
    by simp
next
  show "fst (EmitCachedSpellings W) = of_nat (length (Out W))"
    by (simp add: EmitCachedSpellings_bytes)
next
  show "Out (snd (EmitCachedSpellings W)) = Out W @ pool_bytes (StrEntries W)"
    by (simp add: EmitCachedSpellings_bytes)
next
  assume inv: "pool_inv W" and small: "pool_size (StrEntries W) < 2 ^ 32"
    and s: "CachedStrs W s = Some (Some ofs)"
  from inv s have mem: "s \<in> set (StrEntries W)"
    and ofs: "ofs = of_nat (pool_offset (StrEntries W) s)"
    by (auto simp: pool_inv_def split: if_splits)
  from pool_offset_bound [OF mem] small have "pool_offset (StrEntries W) s < 2 ^ 32" by simp
  then have "unat ofs = pool_offset (StrEntries W) s"
    unfolding ofs unat_of_nat by simp
  with pool_bytes_at [OF mem]
  show "take (length s + 1) (drop (length (Out W) + unat ofs) (Out (snd (EmitCachedSpellings W))))
        = map byte_of s @ [0]"
    by (simp add: EmitCachedSpellings_bytes)
qed

lemma example_words:
  "Emit32 [] (token_word0 (example_PP (\<lambda>T. foo_II) example_spelling) (numeric_Token 2 0)) = [5, 0, 2, 0]"
  "Emit32 [] (token_word0 (example_PP (\<lambda>T. foo_II) example_spelling) (numeric_Token 1 4)) = [5, 0, 1, 0]"
  "Emit32 [] (token_word0 (example_PP (\<lambda>T. foo_II) example_spelling) (numeric_Token 2 8)) = [5, 0, 2, 0]"
  "Emit32 [] 0 = [0, 0, 0, 0]" "Emit32 [] 3 = [3, 0, 0, 0]"
  "Emit32 [] 4 = [4, 0, 0, 0]" "Emit32 [] 8 = [8, 0, 0, 0]"
  "pool_bytes [''42'', ''7''] = [52, 50, 0, 55, 0]"
  by code_simp+

text \<open>
The literals \<^verbatim>\<open>42\<close>, \<^verbatim>\<open>7\<close>, \<^verbatim>\<open>42\<close>: the offsets are 0, 3 and 0, and the pool holds five bytes.
\<close>

theorem spelling_pool_witness:
  "\<exists>W1 W2 W3.
     EmitToken (example_PP (\<lambda>T. foo_II) example_spelling) (numeric_Token 2 0) (new_PTHWriter []) = Some W1 \<and>
     EmitToken (example_PP (\<lambda>T. foo_II) example_spelling) (numeric_Token 1 4) W1 = Some W2 \<and>
     EmitToken (example_PP (\<lambda>T. foo_II) example_spelling) (numeric_Token 2 8) W2 = Some W3 \<and>
     Out W3 = [5, 0, 2, 0,  0, 0, 0, 0,  0, 0, 0, 0,
               5, 0, 1, 0,  3, 0, 0, 0,  4, 0, 0, 0,
               5, 0, 2, 0,  0, 0, 0, 0,  8, 0, 0, 0] \<and>
     StrEntries W3 = [''42'', ''7''] \<and> CurStrOffset W3 = 5 \<and>
     fst (EmitCachedSpellings W3) = 36 \<and>
     Out (snd (EmitCachedSpellings W3)) = Out W3 @ [52, 50, 0, 55, 0] \<and>
     take 3 (drop (36 + 0) (Out (snd (EmitCachedSpellings W3)))) = [52, 50, 0] \<and>
     take 2 (drop (36 + 3) (Out (snd (EmitCachedSpellings W3)))) = [55, 0]"
proof -
  let ?PP = "example_PP (\<lambda>T. foo_II) example_spelling"
  let ?W0 = "new_PTHWriter []"
  have lit: "isLiteral (numeric_Token n l)" for n l
    by (simp add: isLiteral_def numeric_Token_def)
  have sp: "getSpelling ?PP (numeric_Token 2 0) = ''42''" "getSpelling ?PP (numeric_Token 1 4) = ''7''"
    "getSpelling ?PP (numeric_Token 2 8) = ''42''"
    "getFileOffset ?PP (getLocation (numeric_Token n l)) = l" for n l
    by (simp_all add: example_PP_def example_spelling_def numeric_Token_def)
  have f0: "CachedStrs ?W0 = Map.empty" "StrEntries ?W0 = []" "CurStrOffset ?W0 = 0" "Out ?W0 = []"
    by (simp_all add: new_PTHWriter_def)
  from spelling_pool [where W = ?W0 and T = "numeric_Token 2 0" and PP = ?PP, THEN conjunct2, THEN conjunct2, THEN conjunct1]
    spelling_pool [where os = "[]", THEN conjunct1] lit
  obtain W1 where 1: "EmitToken ?PP (numeric_Token 2 0) ?W0 = Some W1" "pool_inv W1"
    "Out W1 = [5, 0, 2, 0,  0, 0, 0, 0,  0, 0, 0, 0]"
    "CachedStrs W1 = [''42'' \<mapsto> Some 0]" "StrEntries W1 = [''42'']" "CurStrOffset W1 = 3"
    by (auto simp: f0 sp example_words)
  from spelling_pool [where W = W1 and T = "numeric_Token 1 4" and PP = ?PP, THEN conjunct2, THEN conjunct2, THEN conjunct1] lit 1(2)
  obtain W2 where 2: "EmitToken ?PP (numeric_Token 1 4) W1 = Some W2" "pool_inv W2"
    "Out W2 = [5, 0, 2, 0,  0, 0, 0, 0,  0, 0, 0, 0,  5, 0, 1, 0,  3, 0, 0, 0,  4, 0, 0, 0]"
    "CachedStrs W2 = [''42'' \<mapsto> Some 0, ''7'' \<mapsto> Some 3]" "StrEntries W2 = [''42'', ''7'']"
    "CurStrOffset W2 = 5"
    by (auto simp: 1 sp example_words)
  from spelling_pool [where W = W2 and T = "numeric_Token 2 8" and PP = ?PP, THEN conjunct2, THEN conjunct2, THEN conjunct2, THEN conjunct1] lit 2(2)
  obtain W3 where 3: "EmitToken ?PP (numeric_Token 2 8) W2 = Some W3" "pool_inv W3"
    "Out W3 = [5, 0, 2, 0,  0, 0, 0, 0,  0, 0, 0, 0,  5, 0, 1, 0,  3, 0, 0, 0,  4, 0, 0, 0,
               5, 0, 2, 0,  0, 0, 0, 0,  8, 0, 0, 0]"
    "CachedStrs W3 = [''42'' \<mapsto> Some 0, ''7'' \<mapsto> Some 3]" "StrEntries W3 = [''42'', ''7'']"
    "CurStrOffset W3 = 5"
    by (auto simp: 2 sp example_words)
  have small: "pool_size (StrEntries W3) < 2 ^ 32" by (simp add: 3 pool_size_def)
  from spelling_pool [where W = W3 and s = "''42''" and ofs = 0, THEN conjunct2, THEN conjunct2, THEN conjunct2, THEN conjunct2] 3(2) small
  have a: "fst (EmitCachedSpellings W3) = 36"
    "Out (snd (EmitCachedSpellings W3)) = Out W3 @ [52, 50, 0, 55, 0]"
    "take 3 (drop (36 + 0) (Out (snd (EmitCachedSpellings W3)))) = [52, 50, 0]"
    by (simp_all add: 3 example_words)
  from spelling_pool [where W = W3 and s = "''7''" and ofs = 3, THEN conjunct2, THEN conjunct2, THEN conjunct2, THEN conjunct2] 3(2) small
  have b: "take 2 (drop (36 + 3) (Out (snd (EmitCachedSpellings W3)))) = [55, 0]"
    by (simp add: 3 example_words)
  from 1(1) 2(1) 3(1) 3(3,5,6) a b show ?thesis by blast
qed

subsection \<open>The output of the loop\<close>

text \<open>
  Every call of \<^verbatim>\<open>EmitToken\<close> returns and appends a record of 12 bytes, and the loop of
  \<^verbatim>\<open>LexTokens\<close> writes nothing else: what has been written stays.
\<close>

lemma EmitToken_grows:
  "\<exists>W' bs. EmitToken PP T W = Some W' \<and> Out W' = Out W @ bs \<and> length bs = 12 \<and>
     take 4 bs = Emit32 [] (token_word0 PP T) \<and>
     drop 8 bs = Emit32 [] (getFileOffset PP (getLocation T))"
proof (cases "isLiteral T")
  case True
  from EmitToken_literal [OF True, of PP W] show ?thesis by simp
next
  case False
  from EmitToken_nonliteral [OF False, of PP W] show ?thesis by simp
qed

definition grows :: "LexState \<Rightarrow> LexState \<Rightarrow> bool" where
  "grows ls ls' \<longleftrightarrow> (\<exists>bs. Out (Writer ls') = Out (Writer ls) @ bs)"

lemma grows_refl [simp]: "grows ls ls"
  by (simp add: grows_def)

lemma grows_trans: "grows ls ls1 \<Longrightarrow> grows ls1 ls2 \<Longrightarrow> grows ls ls2"
  by (auto simp: grows_def)

lemma grows_Writer: "Writer ls1 = Writer ls \<Longrightarrow> grows ls1 ls2 \<Longrightarrow> grows ls ls2"
  by (simp add: grows_def)

lemma grows_take: "grows ls ls' \<Longrightarrow> take (length (Out (Writer ls))) (Out (Writer ls')) = Out (Writer ls)"
  by (auto simp: grows_def)

lemma emit_total:
  obtains W' bs where "emit PP T ls = Some (ls\<lparr>Writer := W'\<rparr>)" "Out W' = Out (Writer ls) @ bs"
    "length bs = 12" "take 4 bs = Emit32 [] (token_word0 PP T)"
    "drop 8 bs = Emit32 [] (getFileOffset PP (getLocation T))"
  using EmitToken_grows [of PP T "Writer ls"] by (auto simp: emit_def)

lemma emit_grows: "emit PP T ls = Some ls' \<Longrightarrow> grows ls ls'"
  by (rule emit_total [of PP T ls]) (auto simp: grows_def)

lemma backpatch_Some:
  assumes "backpatch index ls = Some ls1"
  shows "PPStartCond ls \<noteq> []"
    and "ls1 = ls\<lparr>PPCond := (PPCond ls)[last (PPStartCond ls) :=
                                   (fst (PPCond ls ! last (PPStartCond ls)), index)],
                    PPStartCond := butlast (PPStartCond ls)\<rparr>"
  using assms by (auto simp: backpatch_def split: if_splits)

lemma backpatch_Writer: "backpatch index ls = Some ls1 \<Longrightarrow> Writer ls1 = Writer ls"
  by (auto simp: backpatch_def split: if_splits)

lemma directive_grows:
  assumes d: "directive PP K HashOff Tok ls L = Some (ls', L', c)"
  shows "grows ls ls'"
proof -
  consider (inc) "K \<in> {pp_include, pp_import, pp_include_next}"
    | (opn) "K \<notin> {pp_include, pp_import, pp_include_next}" "K \<in> {pp_if, pp_ifdef, pp_ifndef}"
    | (endif) "K = pp_endif"
    | (els) "K \<in> {pp_elif, pp_else}"
    | (other) "K \<notin> {pp_include, pp_import, pp_include_next}" "K \<notin> {pp_if, pp_ifdef, pp_ifndef}"
        "K \<noteq> pp_endif" "K \<notin> {pp_elif, pp_else}"
    by blast
  then show ?thesis
  proof cases
    case inc
    obtain Tok1 L1 where lx: "LexIncludeFilename L = (Tok1, L1)" by (cases "LexIncludeFilename L")
    from inc d lx obtain ls1 ls2 T2 where "emit PP Tok ls = Some ls1" "emit PP T2 ls1 = Some ls2" "ls' = ls2"
      by (auto simp: directive_def Let_def bind_eq_Some_conv split: if_splits)
    then show ?thesis by (blast intro: grows_trans emit_grows)
  next
    case opn
    let ?ls1 = "push_PPCond HashOff 0 (ls\<lparr>PPStartCond := PPStartCond ls @ [u32 (length (PPCond ls))]\<rparr>)"
    from opn d have e: "emit PP Tok ?ls1 = Some ls'"
      by (auto simp: directive_def Let_def bind_eq_Some_conv split: if_splits)
    from emit_grows [OF e] show ?thesis by (simp add: grows_def push_PPCond_def)
  next
    case endif
    obtain Tok1 L1 where lx: "Lex_discarding PP L = (Tok1, L1)" by (cases "Lex_discarding PP L")
    from endif d lx obtain ls1 where b: "backpatch (u32 (length (PPCond ls))) ls = Some ls1"
      and e: "emit PP Tok (push_PPCond HashOff (u32 (length (PPCond ls))) ls1) = Some ls'"
      by (auto simp: directive_def Let_def bind_eq_Some_conv split: if_splits)
    from emit_grows [OF e] backpatch_Writer [OF b] show ?thesis
      by (simp add: grows_def push_PPCond_def)
  next
    case els
    then have K: "K \<notin> {pp_include, pp_import, pp_include_next}" "K \<notin> {pp_if, pp_ifdef, pp_ifndef}"
      "K \<noteq> pp_endif" "K \<in> {pp_elif, pp_else}"
      by auto
    let ?n = "u32 (length (PPCond ls))"
    from K d obtain ls1 where b: "backpatch ?n ls = Some ls1"
      and e: "emit PP Tok ((push_PPCond HashOff 0 ls1)
                \<lparr>PPStartCond := PPStartCond (push_PPCond HashOff 0 ls1) @ [?n]\<rparr>) = Some ls'"
      by (auto simp: directive_def Let_def bind_eq_Some_conv split: if_splits)
    from emit_grows [OF e] backpatch_Writer [OF b] show ?thesis
      by (simp add: grows_def push_PPCond_def)
  next
    case other
    with d have "emit PP Tok ls = Some ls'"
      by (auto simp: directive_def Let_def bind_eq_Some_conv split: if_splits)
    then show ?thesis by (rule emit_grows)
  qed
qed

lemma hash_grows:
  assumes "hash_at_start_of_line PP Tok ls L = Some (ls', L', c)"
  shows "grows ls ls'"
proof -
  from assms obtain ls1 where e: "emit PP Tok ls = Some ls1"
    by (auto simp: hash_at_start_of_line_def bind_eq_Some_conv split: if_splits)
  note g = emit_grows [OF e]
  obtain Tok1 L1 where lx: "LexFromRawLexer L = (Tok1, L1)" by (cases "LexFromRawLexer L")
  show ?thesis
  proof (cases "Kind Tok1 = tok_identifier")
    case False
    with assms e lx have "emit PP Tok1 ls1 = Some ls'"
      by (auto simp: hash_at_start_of_line_def bind_eq_Some_conv split: if_splits)
    from grows_trans [OF g emit_grows [OF this]] show ?thesis .
  next
    case True
    with assms e lx obtain K H T2 where
      "directive PP K H T2 (ls1\<lparr>ParsingPreprocessorDirective := True\<rparr>) L1 = Some (ls', L', c)"
      by (auto simp: hash_at_start_of_line_def Let_def bind_eq_Some_conv split: if_splits)
    from directive_grows [OF this] have "grows ls1 ls'" by (simp add: grows_def)
    from grows_trans [OF g this] show ?thesis .
  qed
qed

lemma body_grows:
  assumes "LexTokens_body PP ls Tok L = Some (ls', L', c)"
  shows "grows ls ls'"
proof -
  from assms obtain ls1 where
    1: "(if (isAtStartOfLine PP Tok \<or> Kind Tok = tok_eof) \<and> ParsingPreprocessorDirective ls
          then map_option (\<lambda>ls'. ls'\<lparr>ParsingPreprocessorDirective := False\<rparr>)
                 (emit PP (eom_Token PP Tok) ls)
          else Some ls) = Some ls1"
    and 2: "(if Kind Tok = tok_identifier then
         do {
           let Tok1 = Tok\<lparr>getIdentifierInfo := Some (LookUpIdentifierInfo PP Tok)\<rparr>;
           ls2 \<leftarrow> emit PP Tok1 ls1;
           Some (ls2, L, LoopTest Tok1)
         }
       else if Kind Tok = tok_hash \<and> isAtStartOfLine PP Tok then hash_at_start_of_line PP Tok ls1 L
       else
         do {
           ls2 \<leftarrow> emit PP Tok ls1;
           Some (ls2, L, LoopTest Tok)
         }) = Some (ls', L', c)"
    unfolding LexTokens_body_def bind_eq_Some_conv by blast
  from 1 have g1: "grows ls ls1"
    by (auto split: if_splits dest!: emit_grows simp: grows_def)
  from 2 have "grows ls1 ls'"
    by (auto simp: Let_def bind_eq_Some_conv split: if_splits dest: emit_grows hash_grows)
  from grows_trans [OF g1 this] show ?thesis .
qed

lemma loop_grows:
  "LexTokens_loop PP ls inhand L = Some ls' \<Longrightarrow> grows ls ls'"
proof (induction PP ls inhand L rule: LexTokens_loop.induct)
  case (1 PP ls inhand L)
  obtain Tok L1 where tl: "(case inhand of None \<Rightarrow> LexFromRawLexer L | Some T \<Rightarrow> (T, L)) = (Tok, L1)"
    by (cases "case inhand of None \<Rightarrow> LexFromRawLexer L | Some T \<Rightarrow> (T, L)")
  from "1.prems"(1) tl obtain ls1 L2 c where b: "LexTokens_body PP ls Tok L1 = Some (ls1, L2, c)"
    by (subst (asm) LexTokens_loop.simps) (auto split: option.splits)
  note g = body_grows [OF b]
  show ?case
  proof (cases c)
    case (LoopTest T')
    show ?thesis
    proof (cases "Kind T' = tok_eof")
      case True
      with "1.prems"(1) tl b LoopTest have "ls' = ls1"
        by (subst (asm) LexTokens_loop.simps) simp
      with g show ?thesis by simp
    next
      case False
      with "1.prems"(1) tl b LoopTest have "LexTokens_loop PP ls1 None L2 = Some ls'"
        by (subst (asm) LexTokens_loop.simps) simp
      from "1.IH"(1) [OF tl [symmetric] b refl refl LoopTest False this] g show ?thesis
        by (blast intro: grows_trans)
    qed
  next
    case (NextToken T')
    with "1.prems"(1) tl b have "LexTokens_loop PP ls1 (Some T') L2 = Some ls'"
      by (subst (asm) LexTokens_loop.simps) simp
    from "1.IH"(2) [OF tl [symmetric] b refl refl NextToken this] g show ?thesis
      by (blast intro: grows_trans)
  qed
qed

lemma EmitToken_eom:
  "EmitToken PP (eom_Token PP Tok) W =
     Some (W\<lparr>Out := Out W
        @ Emit32 [] (TokenKindValue PP tok_eom OR push_bit 8 (Flags Tok AND NOT (StartOfLine PP))
                       OR push_bit 16 (Length Tok))
        @ Emit32 [] 0
        @ Emit32 [] (getFileOffset PP (getLocation Tok))\<rparr>)"
proof -
  have nl: "\<not> isLiteral (eom_Token PP Tok)" by (simp add: isLiteral_def eom_Token_def)
  from EmitToken_nonliteral [OF nl, of PP W] show ?thesis
    by (simp add: eom_Token_def token_word0_def ResolveID_def)
qed

definition ident_Token :: "32 word \<Rightarrow> 32 word \<Rightarrow> SourceLocation \<Rightarrow> Token" where
  "ident_Token flags len loc =
     \<lparr>Kind = tok_identifier, Flags = flags, Length = len, getIdentifierInfo = None,
      getLocation = loc\<rparr>"

text \<open>
  Since \<^verbatim>\<open>EmitToken\<close> always returns, the state after it can be named; the passes of the loop
  are then given case by case.
\<close>

definition emitted :: "Externals \<Rightarrow> Token \<Rightarrow> LexState \<Rightarrow> LexState" where
  "emitted PP T ls = ls\<lparr>Writer := the (EmitToken PP T (Writer ls))\<rparr>"

lemma emit_emitted: "emit PP T ls = Some (emitted PP T ls)"
  using EmitToken_grows [of PP T "Writer ls"] by (auto simp: emitted_def emit_def)

lemma emitted_fields [simp]:
  "PPCond (emitted PP T ls) = PPCond ls"
  "PPStartCond (emitted PP T ls) = PPStartCond ls"
  "ParsingPreprocessorDirective (emitted PP T ls) = ParsingPreprocessorDirective ls"
  by (simp_all add: emitted_def)

lemma emitted_Out:
  obtains bs where "Out (Writer (emitted PP T ls)) = Out (Writer ls) @ bs" "length bs = 12"
    "take 4 bs = Emit32 [] (token_word0 PP T)"
    "drop 8 bs = Emit32 [] (getFileOffset PP (getLocation T))"
  using EmitToken_grows [of PP T "Writer ls"] by (auto simp: emitted_def)

lemma length_emitted [simp]:
  "length (Out (Writer (emitted PP T ls))) = length (Out (Writer ls)) + 12"
  by (rule emitted_Out [of PP T ls]) simp

lemma emitted_flag:
  "emitted PP T (ls\<lparr>ParsingPreprocessorDirective := b\<rparr>)
     = (emitted PP T ls)\<lparr>ParsingPreprocessorDirective := b\<rparr>"
  by (simp add: emitted_def)

definition pre_eom :: "Externals \<Rightarrow> Token \<Rightarrow> LexState \<Rightarrow> LexState" where
  "pre_eom PP Tok ls =
     (if (isAtStartOfLine PP Tok \<or> Kind Tok = tok_eof) \<and> ParsingPreprocessorDirective ls
      then (emitted PP (eom_Token PP Tok) ls)\<lparr>ParsingPreprocessorDirective := False\<rparr>
      else ls)"

lemma pre_eom_fields [simp]:
  "PPCond (pre_eom PP Tok ls) = PPCond ls"
  "PPStartCond (pre_eom PP Tok ls) = PPStartCond ls"
  by (simp_all add: pre_eom_def)

lemma pre_eom_flag:
  "isAtStartOfLine PP Tok \<or> Kind Tok = tok_eof \<Longrightarrow> \<not> ParsingPreprocessorDirective (pre_eom PP Tok ls)"
  by (simp add: pre_eom_def)

lemma length_pre_eom:
  "length (Out (Writer (pre_eom PP Tok ls)))
     = length (Out (Writer ls))
       + (if (isAtStartOfLine PP Tok \<or> Kind Tok = tok_eof) \<and> ParsingPreprocessorDirective ls
          then 12 else 0)"
  by (simp add: pre_eom_def)

lemma body_eq:
  "LexTokens_body PP ls Tok L =
     (if Kind Tok = tok_identifier
      then Some (emitted PP (Tok\<lparr>getIdentifierInfo := Some (LookUpIdentifierInfo PP Tok)\<rparr>)
                   (pre_eom PP Tok ls), L,
                 LoopTest (Tok\<lparr>getIdentifierInfo := Some (LookUpIdentifierInfo PP Tok)\<rparr>))
      else if Kind Tok = tok_hash \<and> isAtStartOfLine PP Tok
      then hash_at_start_of_line PP Tok (pre_eom PP Tok ls) L
      else Some (emitted PP Tok (pre_eom PP Tok ls), L, LoopTest Tok))"
  by (simp add: LexTokens_body_def pre_eom_def emit_emitted Let_def)

lemma hash_eq:
  assumes "\<not> ParsingPreprocessorDirective ls" and "LexFromRawLexer L = (N, L1)"
  shows "hash_at_start_of_line PP Tok ls L =
     (if isAtStartOfLine PP N then None
      else if Kind N \<noteq> tok_identifier
      then Some (emitted PP N (emitted PP Tok ls), L1, LoopTest N)
      else if getPPKeywordID (LookUpIdentifierInfo PP N) = pp_not_keyword then None
      else directive PP (getPPKeywordID (LookUpIdentifierInfo PP N))
             (of_nat (length (Out (Writer ls))))
             (N\<lparr>getIdentifierInfo := Some (LookUpIdentifierInfo PP N)\<rparr>)
             ((emitted PP Tok ls)\<lparr>ParsingPreprocessorDirective := True\<rparr>) L1)"
  using assms by (simp add: hash_at_start_of_line_def emit_emitted Let_def tell_def)

lemma directive_include:
  assumes "K \<in> {pp_include, pp_import, pp_include_next}" and "LexIncludeFilename L = (F, L1)"
  shows "directive PP K HashOff Tok ls L =
     (if isAtStartOfLine PP F then None
      else Some (emitted PP (if Kind F = tok_identifier
                             then F\<lparr>getIdentifierInfo := Some (LookUpIdentifierInfo PP F)\<rparr> else F)
                   (emitted PP Tok ls), L1,
                 LoopTest (if Kind F = tok_identifier
                           then F\<lparr>getIdentifierInfo := Some (LookUpIdentifierInfo PP F)\<rparr> else F)))"
  using assms by (simp add: directive_def emit_emitted Let_def)

lemma directive_open:
  assumes "K \<in> {pp_if, pp_ifdef, pp_ifndef}"
  shows "directive PP K HashOff Tok ls L =
     Some (emitted PP Tok
             (ls\<lparr>PPStartCond := PPStartCond ls @ [u32 (length (PPCond ls))],
                 PPCond := PPCond ls @ [(HashOff, 0)]\<rparr>), L, LoopTest Tok)"
proof -
  from assms have "K \<notin> {pp_include, pp_import, pp_include_next}" by auto
  with assms show ?thesis by (simp add: directive_def emit_emitted Let_def push_PPCond_def)
qed

lemma directive_endif:
  assumes "PPStartCond ls \<noteq> []" and "last (PPStartCond ls) < length (PPCond ls)"
    and "snd (PPCond ls ! last (PPStartCond ls)) = 0" and "Lex_discarding PP L = (X, L1)"
  shows "directive PP pp_endif HashOff Tok ls L =
     Some (emitted PP Tok
             (ls\<lparr>PPStartCond := butlast (PPStartCond ls),
                 PPCond := (PPCond ls)[last (PPStartCond ls) :=
                               (fst (PPCond ls ! last (PPStartCond ls)), u32 (length (PPCond ls)))]
                             @ [(HashOff, u32 (length (PPCond ls)))]\<rparr>), L1, NextToken X)"
  using assms by (simp add: directive_def emit_emitted Let_def push_PPCond_def backpatch_def)

lemma directive_else:
  assumes "K \<in> {pp_elif, pp_else}"
    and "PPStartCond ls \<noteq> []" and "last (PPStartCond ls) < length (PPCond ls)"
    and "snd (PPCond ls ! last (PPStartCond ls)) = 0"
  shows "directive PP K HashOff Tok ls L =
     Some (emitted PP Tok
             (ls\<lparr>PPCond := (PPCond ls)[last (PPStartCond ls) :=
                               (fst (PPCond ls ! last (PPStartCond ls)), u32 (length (PPCond ls)))]
                             @ [(HashOff, 0)],
                 PPStartCond := butlast (PPStartCond ls) @ [u32 (length (PPCond ls))]\<rparr>), L, LoopTest Tok)"
proof -
  from assms(1) have "K \<notin> {pp_include, pp_import, pp_include_next}" "K \<notin> {pp_if, pp_ifdef, pp_ifndef}"
    "K \<noteq> pp_endif"
    by auto
  with assms show ?thesis by (simp add: directive_def emit_emitted Let_def push_PPCond_def backpatch_def)
qed

lemma directive_other:
  assumes "K \<notin> {pp_include, pp_import, pp_include_next}" "K \<notin> {pp_if, pp_ifdef, pp_ifndef}"
    "K \<noteq> pp_endif" "K \<notin> {pp_elif, pp_else}"
  shows "directive PP K HashOff Tok ls L = Some (emitted PP Tok ls, L, LoopTest Tok)"
  using assms by (simp add: directive_def emit_emitted Let_def)

lemma directive_unbalanced:
  assumes "K \<in> {pp_endif, pp_elif, pp_else}" and "PPStartCond ls = []"
  shows "directive PP K HashOff Tok ls L = None"
  using assms by (auto simp: directive_def backpatch_def)

subsection \<open>The end of a directive\<close>

lemma body_after_eom:
  assumes "ParsingPreprocessorDirective ls" and "isAtStartOfLine PP Tok \<or> Kind Tok = tok_eof"
    and "EmitToken PP (eom_Token PP Tok) (Writer ls) = Some W1"
  shows "LexTokens_body PP ls Tok L =
         LexTokens_body PP (ls\<lparr>Writer := W1, ParsingPreprocessorDirective := False\<rparr>) Tok L"
  using assms
  by (simp add: LexTokens_body_def [of PP ls]
      LexTokens_body_def [of PP "_\<lparr>ParsingPreprocessorDirective := False\<rparr>"] emit_def)

lemma loop_after_eom:
  assumes "ParsingPreprocessorDirective ls" and "isAtStartOfLine PP Tok \<or> Kind Tok = tok_eof"
    and "EmitToken PP (eom_Token PP Tok) (Writer ls) = Some W1"
  shows "LexTokens_loop PP ls (Some Tok) L =
         LexTokens_loop PP (ls\<lparr>Writer := W1, ParsingPreprocessorDirective := False\<rparr>) (Some Tok) L"
  by (subst LexTokens_loop.simps, subst (2) LexTokens_loop.simps)
     (simp add: body_after_eom [OF assms] del: LexTokens_loop.simps)

lemma loop_next_token:
  "LexTokens_loop PP ls None (L\<lparr>Pending := Tok # Pending L\<rparr>) = LexTokens_loop PP ls (Some Tok) L"
  by (subst LexTokens_loop.simps, subst (2) LexTokens_loop.simps)
     (simp add: LexFromRawLexer_def del: LexTokens_loop.simps)

text \<open>
  The rest of the line of a directive: tokens that neither start a line nor end the file
  are emitted one by one at the head of the loop, and the loop stays in the directive.
\<close>

fun emitted_line :: "Externals \<Rightarrow> Token list \<Rightarrow> LexState \<Rightarrow> LexState" where
  "emitted_line PP [] ls = ls"
| "emitted_line PP (T # Ts) ls =
     emitted_line PP Ts
       (emitted PP (if Kind T = tok_identifier
                    then T\<lparr>getIdentifierInfo := Some (LookUpIdentifierInfo PP T)\<rparr> else T) ls)"

lemma emitted_line_fields:
  "ParsingPreprocessorDirective (emitted_line PP line ls) = ParsingPreprocessorDirective ls"
  "PPCond (emitted_line PP line ls) = PPCond ls"
  "PPStartCond (emitted_line PP line ls) = PPStartCond ls"
  "length (Out (Writer (emitted_line PP line ls))) = length (Out (Writer ls)) + 12 * length line"
  by (induction line arbitrary: ls) simp_all

lemma loop_plain:
  assumes "Kind T \<noteq> tok_eof" and "\<not> isAtStartOfLine PP T"
  shows "LexTokens_loop PP ls None (L\<lparr>Pending := T # Ts\<rparr>)
         = LexTokens_loop PP
             (emitted PP (if Kind T = tok_identifier
                          then T\<lparr>getIdentifierInfo := Some (LookUpIdentifierInfo PP T)\<rparr> else T) ls)
             None (L\<lparr>Pending := Ts\<rparr>)"
  using assms
  by (subst LexTokens_loop.simps)
     (simp add: LexFromRawLexer_def body_eq pre_eom_def del: LexTokens_loop.simps)

lemma loop_line:
  assumes "\<forall>T\<in>set line. Kind T \<noteq> tok_eof \<and> \<not> isAtStartOfLine PP T"
  shows "LexTokens_loop PP ls None (L\<lparr>Pending := line @ Ts\<rparr>)
         = LexTokens_loop PP (emitted_line PP line ls) None (L\<lparr>Pending := Ts\<rparr>)"
  using assms
proof (induction line arbitrary: ls)
  case Nil
  show ?case by simp
next
  case (Cons T line)
  from Cons.prems have T: "Kind T \<noteq> tok_eof" "\<not> isAtStartOfLine PP T" by simp_all
  from Cons.prems have "\<forall>T\<in>set line. Kind T \<noteq> tok_eof \<and> \<not> isAtStartOfLine PP T" by simp
  from Cons.IH [OF this] loop_plain [OF T, where ls = ls and L = L and Ts = "line @ Ts"] show ?case by simp
qed

text \<open>
Claim C9. Let the loop be in a directive and let the token in hand start a line or be the
  end of the file: it is the first token that is not on the line of the directive. Then the
  pass first calls \<^verbatim>\<open>EmitToken\<close> on a copy of that token with the kind \<^verbatim>\<open>eom\<close>, the flag
  \<^verbatim>\<open>StartOfLine\<close> cleared and a null identifier, which appends 12 bytes: the first word with
  the cleared flags, the second word 0, and the third word the file offset of the token in
  hand. The pass then goes on with the token in hand, outside the directive: a \<^verbatim>\<open>#\<close> that
  starts a line is handled as such, and any other token is emitted, which ends the pass.
  The record stays where it is in whatever the pass and the loop write afterwards. When
  the loop is in a directive and the lexer still holds the rest of the line of the
  directive, the end of the directive is written after the records of these tokens, for
  the first token that is not on the line.
\<close>

theorem eom_token_record:
  assumes "ParsingPreprocessorDirective ls" and "isAtStartOfLine PP Tok \<or> Kind Tok = tok_eof"
  shows "\<exists>W1.
     EmitToken PP (Tok\<lparr>Kind := tok_eom, Flags := Flags Tok AND NOT (StartOfLine PP),
                       getIdentifierInfo := None\<rparr>) (Writer ls) = Some W1 \<and>
     Out W1 = Out (Writer ls)
        @ Emit32 [] (TokenKindValue PP tok_eom OR push_bit 8 (Flags Tok AND NOT (StartOfLine PP))
                       OR push_bit 16 (Length Tok))
        @ Emit32 [] 0
        @ Emit32 [] (getFileOffset PP (getLocation Tok)) \<and>
     (Flags Tok AND NOT (StartOfLine PP)) AND StartOfLine PP = 0 \<and>
     (if Kind Tok = tok_hash \<and> isAtStartOfLine PP Tok
      then LexTokens_body PP ls Tok L =
             hash_at_start_of_line PP Tok (ls\<lparr>Writer := W1, ParsingPreprocessorDirective := False\<rparr>) L
      else \<exists>W2. EmitToken PP (if Kind Tok = tok_identifier
                               then Tok\<lparr>getIdentifierInfo := Some (LookUpIdentifierInfo PP Tok)\<rparr>
                               else Tok) W1 = Some W2 \<and>
             length (Out W2) = length (Out W1) + 12 \<and>
             LexTokens_body PP ls Tok L =
               Some (ls\<lparr>Writer := W2, ParsingPreprocessorDirective := False\<rparr>, L,
                     LoopTest (if Kind Tok = tok_identifier
                               then Tok\<lparr>getIdentifierInfo := Some (LookUpIdentifierInfo PP Tok)\<rparr>
                               else Tok))) \<and>
     (\<forall>ls' L' c. LexTokens_body PP ls Tok L = Some (ls', L', c) \<longrightarrow>
        take (length (Out W1)) (Out (Writer ls')) = Out W1) \<and>
     (\<forall>ls'. LexTokens_loop PP ls (Some Tok) L = Some ls' \<longrightarrow>
        take (length (Out W1)) (Out (Writer ls')) = Out W1) \<and>
     (\<forall>ls'. LexTokens_loop PP ls None (L\<lparr>Pending := Tok # Pending L\<rparr>) = Some ls' \<longrightarrow>
        take (length (Out W1)) (Out (Writer ls')) = Out W1) \<and>
     (\<forall>line ls'. (\<forall>T\<in>set line. Kind T \<noteq> tok_eof \<and> \<not> isAtStartOfLine PP T) \<and>
        LexTokens_loop PP ls None (L\<lparr>Pending := line @ Tok # Pending L\<rparr>) = Some ls' \<longrightarrow>
        take 12 (drop (length (Out (Writer ls)) + 12 * length line) (Out (Writer ls')))
          = drop (length (Out (Writer ls))) (Out W1))"
proof -
  let ?W1 = "(Writer ls)\<lparr>Out := Out (Writer ls)
        @ Emit32 [] (TokenKindValue PP tok_eom OR push_bit 8 (Flags Tok AND NOT (StartOfLine PP))
                       OR push_bit 16 (Length Tok))
        @ Emit32 [] 0
        @ Emit32 [] (getFileOffset PP (getLocation Tok))\<rparr>"
  let ?ls1 = "ls\<lparr>Writer := ?W1, ParsingPreprocessorDirective := False\<rparr>"
  let ?Tok' = "if Kind Tok = tok_identifier
               then Tok\<lparr>getIdentifierInfo := Some (LookUpIdentifierInfo PP Tok)\<rparr> else Tok"
  have e: "EmitToken PP (eom_Token PP Tok) (Writer ls) = Some ?W1" by (rule EmitToken_eom)
  note body = body_after_eom [OF assms e]
  note loop = loop_after_eom [OF assms e]
  have w: "Writer ?ls1 = ?W1" by simp
  have 1: "EmitToken PP (Tok\<lparr>Kind := tok_eom, Flags := Flags Tok AND NOT (StartOfLine PP),
                       getIdentifierInfo := None\<rparr>) (Writer ls) = Some ?W1"
    using e by (simp add: eom_Token_def)
  have 2: "(Flags Tok AND NOT (StartOfLine PP)) AND StartOfLine PP = 0"
    by (simp add: and.assoc)
  have 3: "LexTokens_body PP ls Tok L = hash_at_start_of_line PP Tok ?ls1 L"
    if "Kind Tok = tok_hash \<and> isAtStartOfLine PP Tok"
    unfolding body using that by (simp add: LexTokens_body_def)
  have 4: "\<exists>W2. EmitToken PP ?Tok' ?W1 = Some W2 \<and> length (Out W2) = length (Out ?W1) + 12 \<and>
             LexTokens_body PP ls Tok L =
               Some (ls\<lparr>Writer := W2, ParsingPreprocessorDirective := False\<rparr>, L, LoopTest ?Tok')"
    if n: "\<not> (Kind Tok = tok_hash \<and> isAtStartOfLine PP Tok)"
  proof -
    from EmitToken_grows [of PP ?Tok' ?W1] obtain W2 bs where
      W2: "EmitToken PP ?Tok' ?W1 = Some W2" "Out W2 = Out ?W1 @ bs" "length bs = 12"
      by blast
    from n W2(1) have "LexTokens_body PP ls Tok L =
               Some (ls\<lparr>Writer := W2, ParsingPreprocessorDirective := False\<rparr>, L, LoopTest ?Tok')"
      unfolding body by (auto simp: LexTokens_body_def emit_def Let_def)
    with W2 show ?thesis by (intro exI [of _ W2]) simp
  qed
  have 5: "take (length (Out ?W1)) (Out (Writer ls')) = Out ?W1"
    if "LexTokens_body PP ls Tok L = Some (ls', L', c)" for ls' L' c
    using grows_take [OF body_grows [OF that [unfolded body]]] unfolding w .
  have 6: "take (length (Out ?W1)) (Out (Writer ls')) = Out ?W1"
    if "LexTokens_loop PP ls (Some Tok) L = Some ls'" for ls'
    using grows_take [OF loop_grows [OF that [unfolded loop]]] unfolding w .
  have 7: "take (length (Out ?W1)) (Out (Writer ls')) = Out ?W1"
    if "LexTokens_loop PP ls None (L\<lparr>Pending := Tok # Pending L\<rparr>) = Some ls'" for ls'
    using 6 [OF that [unfolded loop_next_token]] .
  have 8: "take 12 (drop (length (Out (Writer ls)) + 12 * length line) (Out (Writer ls')))
          = drop (length (Out (Writer ls))) (Out ?W1)"
    if junk: "\<forall>T\<in>set line. Kind T \<noteq> tok_eof \<and> \<not> isAtStartOfLine PP T"
      and run: "LexTokens_loop PP ls None (L\<lparr>Pending := line @ Tok # Pending L\<rparr>) = Some ls'"
    for line ls'
  proof -
    let ?ll = "emitted_line PP line ls"
    let ?n = "length (Out (Writer ls)) + 12 * length line"
    let ?eom = "Emit32 [] (TokenKindValue PP tok_eom OR push_bit 8 (Flags Tok AND NOT (StartOfLine PP))
                       OR push_bit 16 (Length Tok))
        @ Emit32 [] 0
        @ Emit32 [] (getFileOffset PP (getLocation Tok))"
    have dl: "ParsingPreprocessorDirective ?ll" using assms(1) by (simp add: emitted_line_fields)
    have n: "length (Out (Writer ?ll)) = ?n" by (simp add: emitted_line_fields)
    have el: "EmitToken PP (eom_Token PP Tok) (Writer ?ll) = Some ((Writer ?ll)\<lparr>Out := Out (Writer ?ll) @ ?eom\<rparr>)"
      by (rule EmitToken_eom)
    from run have "LexTokens_loop PP ?ll (Some Tok) L = Some ls'"
      unfolding loop_line [OF junk] loop_next_token .
    from grows_take [OF loop_grows [OF this [unfolded loop_after_eom [OF dl assms(2) el]]]]
    have "take (?n + 12) (Out (Writer ls')) = Out (Writer ?ll) @ ?eom" by (simp add: n)
    then have "drop ?n (take (?n + 12) (Out (Writer ls'))) = ?eom" by (simp add: n)
    then have "take 12 (drop ?n (Out (Writer ls'))) = ?eom" by (simp add: drop_take)
    then show ?thesis by simp
  qed
  show ?thesis
  proof (rule exI [of _ ?W1], intro conjI)
    show "EmitToken PP (Tok\<lparr>Kind := tok_eom, Flags := Flags Tok AND NOT (StartOfLine PP),
                       getIdentifierInfo := None\<rparr>) (Writer ls) = Some ?W1" by (rule 1)
    show "Out ?W1 = Out (Writer ls)
        @ Emit32 [] (TokenKindValue PP tok_eom OR push_bit 8 (Flags Tok AND NOT (StartOfLine PP))
                       OR push_bit 16 (Length Tok))
        @ Emit32 [] 0
        @ Emit32 [] (getFileOffset PP (getLocation Tok))" by simp
    show "(Flags Tok AND NOT (StartOfLine PP)) AND StartOfLine PP = 0" by (rule 2)
    show "if Kind Tok = tok_hash \<and> isAtStartOfLine PP Tok
      then LexTokens_body PP ls Tok L = hash_at_start_of_line PP Tok ?ls1 L
      else \<exists>W2. EmitToken PP ?Tok' ?W1 = Some W2 \<and>
             length (Out W2) = length (Out ?W1) + 12 \<and>
             LexTokens_body PP ls Tok L =
               Some (ls\<lparr>Writer := W2, ParsingPreprocessorDirective := False\<rparr>, L, LoopTest ?Tok')"
    proof (cases "Kind Tok = tok_hash \<and> isAtStartOfLine PP Tok")
      case True
      show ?thesis by (subst if_P [OF True]) (rule 3 [OF True])
    next
      case False
      show ?thesis by (subst if_not_P [OF False]) (rule 4 [OF False])
    qed
    show "\<forall>ls' L' c. LexTokens_body PP ls Tok L = Some (ls', L', c) \<longrightarrow>
        take (length (Out ?W1)) (Out (Writer ls')) = Out ?W1" using 5 by blast
    show "\<forall>ls'. LexTokens_loop PP ls (Some Tok) L = Some ls' \<longrightarrow>
        take (length (Out ?W1)) (Out (Writer ls')) = Out ?W1" using 6 by blast
    show "\<forall>ls'. LexTokens_loop PP ls None (L\<lparr>Pending := Tok # Pending L\<rparr>) = Some ls' \<longrightarrow>
        take (length (Out ?W1)) (Out (Writer ls')) = Out ?W1" using 7 by blast
    show "\<forall>line ls'. (\<forall>T\<in>set line. Kind T \<noteq> tok_eof \<and> \<not> isAtStartOfLine PP T) \<and>
        LexTokens_loop PP ls None (L\<lparr>Pending := line @ Tok # Pending L\<rparr>) = Some ls' \<longrightarrow>
        take 12 (drop (length (Out (Writer ls)) + 12 * length line) (Out (Writer ls')))
          = drop (length (Out (Writer ls))) (Out ?W1)" using 8 by blast
  qed
qed

text \<open>
  The file \<^verbatim>\<open>#define X\<close>, \<^verbatim>\<open>foo\<close> of two lines: the pass on the \<^verbatim>\<open>#\<close> leaves the loop in the
  directive, with \<^verbatim>\<open>X\<close> as the rest of the line; the loop then writes \<^verbatim>\<open>X\<close> and, at offset 36,
  the end of the directive with the file offset 10 of \<^verbatim>\<open>foo\<close>. The whole output of \<^verbatim>\<open>LexTokens\<close>
  follows.
\<close>

definition define_lookup :: "Token \<Rightarrow> IdentifierInfo" where
  "define_lookup T =
     (if getLocation T = 1 then \<lparr>getIdName = ''define'', getPPKeywordID = pp_other 0\<rparr>
      else if getLocation T = 8 then \<lparr>getIdName = ''X'', getPPKeywordID = pp_not_keyword\<rparr>
      else \<lparr>getIdName = ''foo'', getPPKeywordID = pp_not_keyword\<rparr>)"

definition define_Lexer :: "Token list \<Rightarrow> Lexer" where
  "define_Lexer ts = \<lparr>Pending = ts, EofFlags = 1, EofLoc = 14\<rparr>"

lemma define_first_pass:
  "map_option (\<lambda>(ls, L, c). (Out (Writer ls), ParsingPreprocessorDirective ls, L))
     (LexTokens_body (example_PP define_lookup (\<lambda>T. [])) (new_LexState (new_PTHWriter []))
        (hash_Token 1 0) (define_Lexer [ident_Token 0 6 1, ident_Token 2 1 8, ident_Token 1 3 10]))
   = Some ([50, 1, 1, 0,  0, 0, 0, 0,  0, 0, 0, 0,   4, 0, 6, 0,  1, 0, 0, 0,  1, 0, 0, 0], True,
           define_Lexer [ident_Token 2 1 8, ident_Token 1 3 10])"
  by code_simp

lemma define_rest:
  "map_option (\<lambda>ls'. length (Out (Writer ls')))
     (Option.bind
        (LexTokens_body (example_PP define_lookup (\<lambda>T. [])) (new_LexState (new_PTHWriter []))
           (hash_Token 1 0) (define_Lexer [ident_Token 0 6 1, ident_Token 2 1 8, ident_Token 1 3 10]))
        (\<lambda>(ls, L, c). LexTokens_loop (example_PP define_lookup (\<lambda>T. [])) ls None L))
   = Some 72"
  by code_simp

lemma define_eom_bytes:
  "Emit32 [] (TokenKindValue (example_PP define_lookup (\<lambda>T. [])) tok_eom
                OR push_bit 8 (Flags (ident_Token 1 3 10) AND NOT (StartOfLine (example_PP define_lookup (\<lambda>T. []))))
                OR push_bit 16 (Length (ident_Token 1 3 10)))
     @ Emit32 [] 0
     @ Emit32 [] (getFileOffset (example_PP define_lookup (\<lambda>T. [])) (getLocation (ident_Token 1 3 10)))
   = [2, 0, 3, 0,  0, 0, 0, 0,  10, 0, 0, 0]"
  by code_simp

lemma define_output:
  "map_option (\<lambda>(E, W). Out W)
     (LexTokens (example_PP define_lookup (\<lambda>T. []))
        (define_Lexer [hash_Token 1 0, ident_Token 0 6 1, ident_Token 2 1 8, ident_Token 1 3 10])
        (new_PTHWriter []))
   = Some [50, 1, 1, 0,  0, 0, 0, 0,  0, 0, 0, 0,   4, 0, 6, 0,  1, 0, 0, 0,  1, 0, 0, 0,
           4, 2, 1, 0,  2, 0, 0, 0,  8, 0, 0, 0,
           2, 0, 3, 0,  0, 0, 0, 0,  10, 0, 0, 0,   4, 1, 3, 0,  3, 0, 0, 0,  10, 0, 0, 0,
           1, 1, 0, 0,  0, 0, 0, 0,  14, 0, 0, 0,   0, 0, 0, 0]"
  by code_simp

theorem eom_token_record_witness:
  "\<exists>ls c ls'.
     LexTokens_body (example_PP define_lookup (\<lambda>T. [])) (new_LexState (new_PTHWriter []))
        (hash_Token 1 0) (define_Lexer [ident_Token 0 6 1, ident_Token 2 1 8, ident_Token 1 3 10])
       = Some (ls, define_Lexer [ident_Token 2 1 8, ident_Token 1 3 10], c) \<and>
     ParsingPreprocessorDirective ls \<and>
     Out (Writer ls) = [50, 1, 1, 0,  0, 0, 0, 0,  0, 0, 0, 0,   4, 0, 6, 0,  1, 0, 0, 0,  1, 0, 0, 0] \<and>
     LexTokens_loop (example_PP define_lookup (\<lambda>T. [])) ls None
        (define_Lexer [ident_Token 2 1 8, ident_Token 1 3 10]) = Some ls' \<and>
     take 12 (drop 36 (Out (Writer ls'))) = [2, 0, 3, 0,  0, 0, 0, 0,  10, 0, 0, 0] \<and>
     map_option (\<lambda>(E, W). Out W)
       (LexTokens (example_PP define_lookup (\<lambda>T. []))
          (define_Lexer [hash_Token 1 0, ident_Token 0 6 1, ident_Token 2 1 8, ident_Token 1 3 10])
          (new_PTHWriter []))
     = Some [50, 1, 1, 0,  0, 0, 0, 0,  0, 0, 0, 0,   4, 0, 6, 0,  1, 0, 0, 0,  1, 0, 0, 0,
             4, 2, 1, 0,  2, 0, 0, 0,  8, 0, 0, 0,
             2, 0, 3, 0,  0, 0, 0, 0,  10, 0, 0, 0,   4, 1, 3, 0,  3, 0, 0, 0,  10, 0, 0, 0,
             1, 1, 0, 0,  0, 0, 0, 0,  14, 0, 0, 0,   0, 0, 0, 0]"
proof -
  let ?PP = "example_PP define_lookup (\<lambda>T. [])"
  let ?X = "ident_Token 2 1 8"
  let ?foo = "ident_Token 1 3 10"
  from define_first_pass obtain ls c where
    b1: "LexTokens_body ?PP (new_LexState (new_PTHWriter [])) (hash_Token 1 0)
           (define_Lexer [ident_Token 0 6 1, ?X, ?foo]) = Some (ls, define_Lexer [?X, ?foo], c)"
    and dir: "ParsingPreprocessorDirective ls"
    and out: "Out (Writer ls) = [50, 1, 1, 0,  0, 0, 0, 0,  0, 0, 0, 0,   4, 0, 6, 0,  1, 0, 0, 0,  1, 0, 0, 0]"
    by auto
  from define_rest obtain ls' where
    run: "LexTokens_loop ?PP ls None (define_Lexer [?X, ?foo]) = Some ls'"
    unfolding b1 by (auto simp del: LexTokens_loop.simps)
  have sol: "isAtStartOfLine ?PP ?foo \<or> Kind ?foo = tok_eof"
    by (simp add: isAtStartOfLine_def ident_Token_def example_PP_def)
  have line: "\<forall>T\<in>set [?X]. Kind T \<noteq> tok_eof \<and> \<not> isAtStartOfLine ?PP T"
    by (simp add: isAtStartOfLine_def ident_Token_def example_PP_def)
  have L: "(define_Lexer [])\<lparr>Pending := [?X] @ ?foo # Pending (define_Lexer [])\<rparr> = define_Lexer [?X, ?foo]"
    by (simp add: define_Lexer_def)
  from eom_token_record [OF dir sol, of "define_Lexer []"] obtain W1 :: PTHWriter where
    W1: "Out W1 = Out (Writer ls)
        @ Emit32 [] (TokenKindValue ?PP tok_eom OR push_bit 8 (Flags ?foo AND NOT (StartOfLine ?PP))
                       OR push_bit 16 (Length ?foo))
        @ Emit32 [] 0
        @ Emit32 [] (getFileOffset ?PP (getLocation ?foo))"
    and rest: "\<forall>line ls'. (\<forall>T\<in>set line. Kind T \<noteq> tok_eof \<and> \<not> isAtStartOfLine ?PP T) \<and>
        LexTokens_loop ?PP ls None ((define_Lexer [])\<lparr>Pending := line @ ?foo # Pending (define_Lexer [])\<rparr>)
          = Some ls' \<longrightarrow>
        take 12 (drop (length (Out (Writer ls)) + 12 * length line) (Out (Writer ls')))
          = drop (length (Out (Writer ls))) (Out W1)"
    by blast
  from rest line run [folded L]
  have "take 12 (drop (length (Out (Writer ls)) + 12 * length [?X]) (Out (Writer ls')))
          = drop (length (Out (Writer ls))) (Out W1)"
    by blast
  then have eom: "take 12 (drop 36 (Out (Writer ls'))) = [2, 0, 3, 0,  0, 0, 0, 0,  10, 0, 0, 0]"
    unfolding W1 define_eom_bytes by (simp add: out)
  show ?thesis
    by (rule exI [of _ ls], rule exI [of _ c], rule exI [of _ ls'])
       (intro conjI b1 dir out run eom define_output)
qed

subsection \<open>A \<^verbatim>\<open>#\<close> inside a line\<close>

lemma discard_line_junk:
  assumes "\<forall>T\<in>set pre. Kind T \<noteq> tok_eof \<and> \<not> isAtStartOfLine PP T"
  shows "discard_line PP (pre @ Ts) = discard_line PP Ts"
  using assms by (induction pre) simp_all

lemma Lex_discarding_junk:
  assumes "\<forall>T\<in>set pre. Kind T \<noteq> tok_eof \<and> \<not> isAtStartOfLine PP T"
  shows "Lex_discarding PP (L\<lparr>Pending := pre @ Ts\<rparr>) = Lex_discarding PP (L\<lparr>Pending := Ts\<rparr>)"
  by (simp add: Lex_discarding_def discard_line_junk [OF assms])

lemma discard_line_stops:
  "discard_line PP Ts = X # Xs \<Longrightarrow> isAtStartOfLine PP X \<or> Kind X = tok_eof"
  by (induction Ts) (auto split: if_splits)

lemma Lex_discarding_stops:
  assumes "Lex_discarding PP L = (X, L1)"
  shows "isAtStartOfLine PP X \<or> Kind X = tok_eof"
proof (cases "discard_line PP (Pending L)")
  case Nil
  with assms show ?thesis by (auto simp: Lex_discarding_def LexFromRawLexer_def eof_Token_def)
next
  case (Cons Y Ys)
  with assms have "X = Y" by (simp add: Lex_discarding_def LexFromRawLexer_def)
  with discard_line_stops [OF Cons] show ?thesis by simp
qed

lemma directive_endif_cong:
  "Lex_discarding PP L = Lex_discarding PP L' \<Longrightarrow>
   directive PP pp_endif HashOff Tok ls L = directive PP pp_endif HashOff Tok ls L'"
  by (simp add: directive_def)

lemma directive_endif_Some:
  assumes "directive PP pp_endif HashOff Tok ls L = Some (ls', L', c)"
  shows "length (Out (Writer ls')) = length (Out (Writer ls)) + 12"
    and "length (PPCond ls') = Suc (length (PPCond ls))"
    and "\<exists>X. c = NextToken X \<and> (isAtStartOfLine PP X \<or> Kind X = tok_eof)"
proof -
  obtain X L1 where lx: "Lex_discarding PP L = (X, L1)" by (cases "Lex_discarding PP L")
  from assms lx obtain ls1 where b: "backpatch (u32 (length (PPCond ls))) ls = Some ls1"
    and e: "ls' = emitted PP Tok (push_PPCond HashOff (u32 (length (PPCond ls))) ls1)"
    and c: "c = NextToken X"
    by (auto simp: directive_def Let_def bind_eq_Some_conv emit_emitted)
  note bp = backpatch_Some [OF b]
  show "length (Out (Writer ls')) = length (Out (Writer ls)) + 12"
    unfolding e by (simp add: push_PPCond_def bp(2))
  show "length (PPCond ls') = Suc (length (PPCond ls))"
    unfolding e by (simp add: push_PPCond_def bp(2))
  from c Lex_discarding_stops [OF lx]
  show "\<exists>X. c = NextToken X \<and> (isAtStartOfLine PP X \<or> Kind X = tok_eof)" by simp
qed

lemma pre_eom_eq:
  "isAtStartOfLine PP Tok \<or> Kind Tok = tok_eof \<Longrightarrow>
   pre_eom PP Tok ls = ls\<lparr>Writer := Writer (pre_eom PP Tok ls), ParsingPreprocessorDirective := False\<rparr>"
  by (cases ls) (simp add: pre_eom_def emitted_def)

lemma emitted_eq:
  "ls1 = ls\<lparr>Writer := W, ParsingPreprocessorDirective := b\<rparr> \<Longrightarrow>
   emitted PP T ls1 = ls\<lparr>Writer := the (EmitToken PP T W), ParsingPreprocessorDirective := b\<rparr>"
  by (simp add: emitted_def)

text \<open>
Claim C10, as amended. A \<^verbatim>\<open>#\<close> that does not start a line never opens a directive. The loop
  meets it in one of four places. Lexed at the head of the loop, it is emitted as an
  ordinary token of 12 bytes, and the loop goes on with the table of conditionals, the stack
  and the directive mode unchanged. Lexed as the token after a \<^verbatim>\<open>#\<close> that starts a line, or as
  the file name of an \<^verbatim>\<open>#include\<close>, it is emitted as well, the table and the stack stay as they
  are, and the directive mode is the one that the line has without it: none after the bare
  \<^verbatim>\<open>#\<close>, that of the \<^verbatim>\<open>#include\<close> after its name. Lexed on the rest of a line after \<^verbatim>\<open>#endif\<close>, it
  is discarded: the pass gives what it gives on the file without it, writes the records
  of the \<^verbatim>\<open>#\<close> and of \<^verbatim>\<open>endif\<close> only, adds the one entry of the \<^verbatim>\<open>#endif\<close>, and comes back with a
  token that starts a line or ends the file.
\<close>

theorem hash_inside_line:
  assumes "Kind H = tok_hash" and "\<not> isAtStartOfLine PP H"
  shows
   "(\<exists>W'. EmitToken PP H (Writer ls) = Some W' \<and>
        Out W' = Out (Writer ls)
           @ Emit32 [] (TokenKindValue PP tok_hash OR push_bit 8 (Flags H) OR push_bit 16 (Length H))
           @ Emit32 [] (of_nat (fst (ResolveID (getIdentifierInfo H) (Writer ls))))
           @ Emit32 [] (getFileOffset PP (getLocation H)) \<and>
        LexTokens_body PP ls H L = Some (ls\<lparr>Writer := W'\<rparr>, L, LoopTest H) \<and>
        LexTokens_loop PP ls None (L\<lparr>Pending := H # Pending L\<rparr>)
          = LexTokens_loop PP (ls\<lparr>Writer := W'\<rparr>) None L) \<and>
    (\<forall>Tok. Kind Tok = tok_hash \<and> isAtStartOfLine PP Tok \<longrightarrow>
       (\<exists>W1 W2. EmitToken PP H W1 = Some W2 \<and>
           length (Out W2) = length (Out (Writer ls))
                             + (if ParsingPreprocessorDirective ls then 36 else 24) \<and>
           LexTokens_body PP ls Tok (L\<lparr>Pending := H # Pending L\<rparr>)
             = Some (ls\<lparr>Writer := W2, ParsingPreprocessorDirective := False\<rparr>, L, LoopTest H)) \<and>
       (\<forall>N. Kind N = tok_identifier \<and> \<not> isAtStartOfLine PP N \<longrightarrow>
          (getPPKeywordID (LookUpIdentifierInfo PP N) \<in> {pp_include, pp_import, pp_include_next} \<longrightarrow>
             (\<exists>W2 W3. EmitToken PP H W2 = Some W3 \<and>
                 length (Out W3) = length (Out (Writer ls))
                                   + (if ParsingPreprocessorDirective ls then 48 else 36) \<and>
                 LexTokens_body PP ls Tok (L\<lparr>Pending := N # H # Pending L\<rparr>)
                   = Some (ls\<lparr>Writer := W3, ParsingPreprocessorDirective := True\<rparr>, L, LoopTest H))) \<and>
          (getPPKeywordID (LookUpIdentifierInfo PP N) = pp_endif \<and>
           (\<forall>T\<in>set pre. Kind T \<noteq> tok_eof \<and> \<not> isAtStartOfLine PP T) \<longrightarrow>
             LexTokens_body PP ls Tok (L\<lparr>Pending := N # pre @ H # Pending L\<rparr>)
               = LexTokens_body PP ls Tok (L\<lparr>Pending := N # pre @ Pending L\<rparr>) \<and>
             (\<forall>ls' L' c. LexTokens_body PP ls Tok (L\<lparr>Pending := N # pre @ H # Pending L\<rparr>)
                            = Some (ls', L', c) \<longrightarrow>
                 length (Out (Writer ls')) = length (Out (Writer ls))
                                   + (if ParsingPreprocessorDirective ls then 36 else 24) \<and>
                 length (PPCond ls') = Suc (length (PPCond ls)) \<and>
                 (\<exists>X. c = NextToken X \<and> (isAtStartOfLine PP X \<or> Kind X = tok_eof))) \<and>
             (PPStartCond ls \<noteq> [] \<and> last (PPStartCond ls) < length (PPCond ls) \<and>
              snd (PPCond ls ! last (PPStartCond ls)) = 0 \<longrightarrow>
                 (\<exists>ls' L' c. LexTokens_body PP ls Tok (L\<lparr>Pending := N # pre @ H # Pending L\<rparr>)
                                = Some (ls', L', c))))))"
proof (intro conjI allI impI; (elim conjE)?)
  have nl: "\<not> isLiteral H" using assms(1) by (simp add: isLiteral_def)
  let ?W' = "(snd (ResolveID (getIdentifierInfo H) (Writer ls)))
             \<lparr>Out := Out (Writer ls) @ Emit32 [] (token_word0 PP H)
                        @ Emit32 [] (of_nat (fst (ResolveID (getIdentifierInfo H) (Writer ls))))
                        @ Emit32 [] (getFileOffset PP (getLocation H))\<rparr>"
  have e: "EmitToken PP H (Writer ls) = Some ?W'" by (rule EmitToken_nonliteral [OF nl])
  have b: "LexTokens_body PP ls H L = Some (ls\<lparr>Writer := ?W'\<rparr>, L, LoopTest H)"
    using assms e by (simp add: LexTokens_body_def emit_def)
  have l: "LexTokens_loop PP ls None (L\<lparr>Pending := H # Pending L\<rparr>)
          = LexTokens_loop PP (ls\<lparr>Writer := ?W'\<rparr>) None L"
    using assms(1) by (subst LexTokens_loop.simps) (simp add: LexFromRawLexer_def b del: LexTokens_loop.simps)
  show "\<exists>W'. EmitToken PP H (Writer ls) = Some W' \<and>
        Out W' = Out (Writer ls)
           @ Emit32 [] (TokenKindValue PP tok_hash OR push_bit 8 (Flags H) OR push_bit 16 (Length H))
           @ Emit32 [] (of_nat (fst (ResolveID (getIdentifierInfo H) (Writer ls))))
           @ Emit32 [] (getFileOffset PP (getLocation H)) \<and>
        LexTokens_body PP ls H L = Some (ls\<lparr>Writer := W'\<rparr>, L, LoopTest H) \<and>
        LexTokens_loop PP ls None (L\<lparr>Pending := H # Pending L\<rparr>)
          = LexTokens_loop PP (ls\<lparr>Writer := W'\<rparr>) None L"
    by (rule exI [of _ ?W'], intro conjI e b l) (simp add: token_word0_def assms(1))
next
  fix Tok assume Tok: "Kind Tok = tok_hash" "isAtStartOfLine PP Tok"
  let ?ls0 = "pre_eom PP Tok ls"
  have sol: "isAtStartOfLine PP Tok \<or> Kind Tok = tok_eof" using Tok by simp
  note flag = pre_eom_flag [OF sol, of ls]
  have lx: "LexFromRawLexer (L\<lparr>Pending := H # Pending L\<rparr>) = (H, L)"
    by (simp add: LexFromRawLexer_def)
  let ?W1 = "the (EmitToken PP Tok (Writer ?ls0))"
  let ?W2 = "the (EmitToken PP H ?W1)"
  have 1: "emitted PP Tok ?ls0 = ls\<lparr>Writer := ?W1, ParsingPreprocessorDirective := False\<rparr>"
    by (rule emitted_eq [OF pre_eom_eq [OF sol]])
  have 2: "emitted PP H (emitted PP Tok ?ls0) = ls\<lparr>Writer := ?W2, ParsingPreprocessorDirective := False\<rparr>"
    by (rule emitted_eq [OF 1])
  have b: "LexTokens_body PP ls Tok (L\<lparr>Pending := H # Pending L\<rparr>)
             = Some (ls\<lparr>Writer := ?W2, ParsingPreprocessorDirective := False\<rparr>, L, LoopTest H)"
    using Tok assms by (simp add: body_eq hash_eq [OF flag lx] 2)
  obtain W2' where e: "EmitToken PP H ?W1 = Some W2'"
    using EmitToken_grows [of PP H ?W1] by blast
  have "length (Out (Writer (emitted PP H (emitted PP Tok ?ls0))))
          = length (Out (Writer ls)) + (if ParsingPreprocessorDirective ls then 36 else 24)"
    using sol by (simp add: length_pre_eom)
  then have len: "length (Out ?W2) = length (Out (Writer ls))
                             + (if ParsingPreprocessorDirective ls then 36 else 24)"
    unfolding 2 by simp
  show "\<exists>W1 W2. EmitToken PP H W1 = Some W2 \<and>
           length (Out W2) = length (Out (Writer ls))
                             + (if ParsingPreprocessorDirective ls then 36 else 24) \<and>
           LexTokens_body PP ls Tok (L\<lparr>Pending := H # Pending L\<rparr>)
             = Some (ls\<lparr>Writer := W2, ParsingPreprocessorDirective := False\<rparr>, L, LoopTest H)"
    by (rule exI [of _ ?W1], rule exI [of _ ?W2]) (use e len b in simp)
next
  fix Tok N
  assume Tok: "Kind Tok = tok_hash" "isAtStartOfLine PP Tok"
    and N: "Kind N = tok_identifier" "\<not> isAtStartOfLine PP N"
    and K: "getPPKeywordID (LookUpIdentifierInfo PP N) \<in> {pp_include, pp_import, pp_include_next}"
  let ?ls0 = "pre_eom PP Tok ls"
  let ?N' = "N\<lparr>getIdentifierInfo := Some (LookUpIdentifierInfo PP N)\<rparr>"
  have sol: "isAtStartOfLine PP Tok \<or> Kind Tok = tok_eof" using Tok by simp
  note flag = pre_eom_flag [OF sol, of ls]
  have lx: "LexFromRawLexer (L\<lparr>Pending := N # H # Pending L\<rparr>) = (N, L\<lparr>Pending := H # Pending L\<rparr>)"
    by (simp add: LexFromRawLexer_def)
  have lf: "LexIncludeFilename (L\<lparr>Pending := H # Pending L\<rparr>) = (H, L)"
    by (simp add: LexIncludeFilename_def LexFromRawLexer_def)
  from K have nk: "getPPKeywordID (LookUpIdentifierInfo PP N) \<noteq> pp_not_keyword" by auto
  let ?W1 = "the (EmitToken PP Tok (Writer ?ls0))"
  let ?W2 = "the (EmitToken PP ?N' ?W1)"
  let ?W3 = "the (EmitToken PP H ?W2)"
  have 1: "(emitted PP Tok ?ls0)\<lparr>ParsingPreprocessorDirective := True\<rparr>
             = ls\<lparr>Writer := ?W1, ParsingPreprocessorDirective := True\<rparr>"
    unfolding emitted_eq [OF pre_eom_eq [OF sol]] by simp
  have 2: "emitted PP ?N' ((emitted PP Tok ?ls0)\<lparr>ParsingPreprocessorDirective := True\<rparr>)
             = ls\<lparr>Writer := ?W2, ParsingPreprocessorDirective := True\<rparr>"
    by (rule emitted_eq [OF 1])
  have 3: "emitted PP H (emitted PP ?N' ((emitted PP Tok ?ls0)\<lparr>ParsingPreprocessorDirective := True\<rparr>))
             = ls\<lparr>Writer := ?W3, ParsingPreprocessorDirective := True\<rparr>"
    by (rule emitted_eq [OF 2])
  have b: "LexTokens_body PP ls Tok (L\<lparr>Pending := N # H # Pending L\<rparr>)
             = Some (ls\<lparr>Writer := ?W3, ParsingPreprocessorDirective := True\<rparr>, L, LoopTest H)"
    using Tok N nk assms
    by (simp add: body_eq hash_eq [OF flag lx] directive_include [OF K lf] 3)
  obtain W3' where e: "EmitToken PP H ?W2 = Some W3'"
    using EmitToken_grows [of PP H ?W2] by blast
  have "length (Out (Writer (emitted PP H (emitted PP ?N'
            ((emitted PP Tok ?ls0)\<lparr>ParsingPreprocessorDirective := True\<rparr>)))))
          = length (Out (Writer ls)) + (if ParsingPreprocessorDirective ls then 48 else 36)"
    using sol by (simp add: length_pre_eom emitted_flag)
  then have len: "length (Out ?W3) = length (Out (Writer ls))
                             + (if ParsingPreprocessorDirective ls then 48 else 36)"
    unfolding 3 by simp
  show "\<exists>W2 W3. EmitToken PP H W2 = Some W3 \<and>
                 length (Out W3) = length (Out (Writer ls))
                                   + (if ParsingPreprocessorDirective ls then 48 else 36) \<and>
                 LexTokens_body PP ls Tok (L\<lparr>Pending := N # H # Pending L\<rparr>)
                   = Some (ls\<lparr>Writer := W3, ParsingPreprocessorDirective := True\<rparr>, L, LoopTest H)"
    by (rule exI [of _ ?W2], rule exI [of _ ?W3]) (use e len b in simp)
next
  fix Tok N
  assume Tok: "Kind Tok = tok_hash" "isAtStartOfLine PP Tok"
    and N: "Kind N = tok_identifier" "\<not> isAtStartOfLine PP N"
    and K: "getPPKeywordID (LookUpIdentifierInfo PP N) = pp_endif"
    and junk: "\<forall>T\<in>set pre. Kind T \<noteq> tok_eof \<and> \<not> isAtStartOfLine PP T"
  let ?ls0 = "pre_eom PP Tok ls"
  let ?ls1 = "(emitted PP Tok ?ls0)\<lparr>ParsingPreprocessorDirective := True\<rparr>"
  let ?N' = "N\<lparr>getIdentifierInfo := Some (LookUpIdentifierInfo PP N)\<rparr>"
  let ?H = "of_nat (length (Out (Writer ?ls0))) :: Offset"
  have sol: "isAtStartOfLine PP Tok \<or> Kind Tok = tok_eof" using Tok by simp
  note flag = pre_eom_flag [OF sol, of ls]
  have lx: "LexFromRawLexer (L\<lparr>Pending := N # Ts\<rparr>) = (N, L\<lparr>Pending := Ts\<rparr>)" for Ts
    by (simp add: LexFromRawLexer_def)
  have body: "LexTokens_body PP ls Tok (L\<lparr>Pending := N # Ts\<rparr>)
                = directive PP pp_endif ?H ?N' ?ls1 (L\<lparr>Pending := Ts\<rparr>)" for Ts
    using Tok N K by (simp add: body_eq hash_eq [OF flag lx])
  have "discard_line PP (pre @ H # Pending L) = discard_line PP (pre @ Pending L)"
    using assms by (simp add: discard_line_junk [OF junk])
  then have ld: "Lex_discarding PP (L\<lparr>Pending := pre @ H # Pending L\<rparr>)
                   = Lex_discarding PP (L\<lparr>Pending := pre @ Pending L\<rparr>)"
    by (simp add: Lex_discarding_def)
  show "LexTokens_body PP ls Tok (L\<lparr>Pending := N # pre @ H # Pending L\<rparr>)
               = LexTokens_body PP ls Tok (L\<lparr>Pending := N # pre @ Pending L\<rparr>)"
    unfolding body by (rule directive_endif_cong [OF ld])
  have l1: "length (Out (Writer ?ls1)) = length (Out (Writer ls))
               + (if ParsingPreprocessorDirective ls then 24 else 12)"
    using sol by (simp add: length_pre_eom)
  have p1: "PPCond ?ls1 = PPCond ls" "PPStartCond ?ls1 = PPStartCond ls" by simp_all
  {
    fix ls' L' c
    assume "LexTokens_body PP ls Tok (L\<lparr>Pending := N # pre @ H # Pending L\<rparr>) = Some (ls', L', c)"
    then have d: "directive PP pp_endif ?H ?N' ?ls1 (L\<lparr>Pending := pre @ H # Pending L\<rparr>)
                    = Some (ls', L', c)"
      unfolding body .
    from directive_endif_Some [OF d] l1 p1 sol
    show "length (Out (Writer ls')) = length (Out (Writer ls))
                                   + (if ParsingPreprocessorDirective ls then 36 else 24)"
      and "length (PPCond ls') = Suc (length (PPCond ls))"
      and "\<exists>X. c = NextToken X \<and> (isAtStartOfLine PP X \<or> Kind X = tok_eof)"
      by (simp_all add: length_pre_eom split: if_splits)
  }
  {
    assume st: "PPStartCond ls \<noteq> []" "last (PPStartCond ls) < length (PPCond ls)"
      "snd (PPCond ls ! last (PPStartCond ls)) = 0"
    obtain X L1 where ldx: "Lex_discarding PP (L\<lparr>Pending := pre @ H # Pending L\<rparr>) = (X, L1)"
      by (cases "Lex_discarding PP (L\<lparr>Pending := pre @ H # Pending L\<rparr>)")
    from st have st1: "PPStartCond ?ls1 \<noteq> []" "last (PPStartCond ?ls1) < length (PPCond ?ls1)"
      "snd (PPCond ?ls1 ! last (PPStartCond ?ls1)) = 0"
      by simp_all
    show "\<exists>ls' L' c. LexTokens_body PP ls Tok (L\<lparr>Pending := N # pre @ H # Pending L\<rparr>)
                                = Some (ls', L', c)"
      unfolding body directive_endif [OF st1 ldx] by blast
  }
qed

text \<open>
  The file \<^verbatim>\<open>#if A\<close>, \<^verbatim>\<open>#endif # x\<close>, \<^verbatim>\<open>y\<close> of three lines, with a \<^verbatim>\<open>#\<close> at offset 13 inside the second
  line.
\<close>

definition endif_lookup :: "Token \<Rightarrow> IdentifierInfo" where
  "endif_lookup T =
     (if getLocation T = 1 then \<lparr>getIdName = ''if'', getPPKeywordID = pp_if\<rparr>
      else if getLocation T = 7 then \<lparr>getIdName = ''endif'', getPPKeywordID = pp_endif\<rparr>
      else if getLocation T = 4 then \<lparr>getIdName = ''A'', getPPKeywordID = pp_not_keyword\<rparr>
      else if getLocation T = 15 then \<lparr>getIdName = ''x'', getPPKeywordID = pp_not_keyword\<rparr>
      else \<lparr>getIdName = ''y'', getPPKeywordID = pp_not_keyword\<rparr>)"

definition endif_Lexer :: "Token list \<Rightarrow> Lexer" where
  "endif_Lexer ts = \<lparr>Pending = ts, EofFlags = 1, EofLoc = 19\<rparr>"

definition endif_file :: "Token list" where
  "endif_file =
     [hash_Token 1 0, ident_Token 0 2 1, ident_Token 2 1 4,
      hash_Token 1 6, ident_Token 0 5 7, hash_Token 2 13, ident_Token 2 1 15,
      ident_Token 1 1 17]"

lemma endif_first_pass:
  "map_option (\<lambda>(ls, L, c). (PPCond ls, PPStartCond ls, ParsingPreprocessorDirective ls,
                               length (Out (Writer ls)), L))
     (LexTokens_body (example_PP endif_lookup (\<lambda>T. [])) (new_LexState (new_PTHWriter []))
        (hash_Token 1 0) (endif_Lexer (tl endif_file)))
   = Some ([(0, 0)], [0], True, 24, endif_Lexer (drop 2 endif_file))"
  by code_simp

lemma endif_second_pass:
  "map_option (\<lambda>(ls, L, c).
       map_option (\<lambda>(ls', L', c'). (PPCond ls', PPStartCond ls', c', L'))
         (LexTokens_body (example_PP endif_lookup (\<lambda>T. [])) ls (hash_Token 1 6)
            (endif_Lexer (drop 4 endif_file))))
     (LexTokens_body (example_PP endif_lookup (\<lambda>T. [])) (new_LexState (new_PTHWriter []))
        (hash_Token 1 0) (endif_Lexer (tl endif_file)))
   = Some (Some ([(0, 1), (36, 1)], [], NextToken (ident_Token 1 1 17), endif_Lexer []))"
  by code_simp

text \<open>
Claim C10 as stated fails: the \<^verbatim>\<open>#\<close> at offset 13 of this file does not start a line, and
  \<^verbatim>\<open>LexTokens\<close> writes nine records, with the file offsets 0, 1, 4, 6, 6, 7, 17, 17 and 19, and
  the table of the two conditionals: the \<^verbatim>\<open>#\<close> is not emitted.
\<close>

theorem hash_after_endif_discarded:
  "Kind (hash_Token 2 13) = tok_hash \<and>
   \<not> isAtStartOfLine (example_PP endif_lookup (\<lambda>T. [])) (hash_Token 2 13) \<and>
   endif_file ! 5 = hash_Token 2 13 \<and>
   map_option (\<lambda>(E, W). (E, Out W))
     (LexTokens (example_PP endif_lookup (\<lambda>T. [])) (endif_Lexer endif_file) (new_PTHWriter []))
   = Some (\<lparr>TokenData = 0, PPCondData = 108\<rparr>,
       [50, 1, 1, 0,  0, 0, 0, 0,  0, 0, 0, 0,    4, 0, 2, 0,  1, 0, 0, 0,  1, 0, 0, 0,
        4, 2, 1, 0,  2, 0, 0, 0,  4, 0, 0, 0,     2, 0, 1, 0,  0, 0, 0, 0,  6, 0, 0, 0,
        50, 1, 1, 0,  0, 0, 0, 0,  6, 0, 0, 0,    4, 0, 5, 0,  3, 0, 0, 0,  7, 0, 0, 0,
        2, 0, 1, 0,  0, 0, 0, 0,  17, 0, 0, 0,    4, 1, 1, 0,  4, 0, 0, 0,  17, 0, 0, 0,
        1, 1, 0, 0,  0, 0, 0, 0,  19, 0, 0, 0,
        2, 0, 0, 0,   0, 0, 0, 0,  1, 0, 0, 0,   48, 0, 0, 0,  0, 0, 0, 0]) \<and>
   map_option (\<lambda>(E, W). map (\<lambda>i. Out W ! (12 * i + 8)) [0..<9])
     (LexTokens (example_PP endif_lookup (\<lambda>T. [])) (endif_Lexer endif_file) (new_PTHWriter []))
   = Some [0, 1, 4, 6, 6, 7, 17, 17, 19]"
  by code_simp

text \<open>
  The same file, pass by pass: a \<^verbatim>\<open>#\<close> inside a line that is lexed at the head of the loop is
  emitted, and the pass on the \<^verbatim>\<open>#endif\<close> of the second line, after the pass on the \<^verbatim>\<open>#if\<close> of the
  first, gives the same with and without the \<^verbatim>\<open>#\<close> at offset 13.
\<close>

theorem hash_inside_line_witness:
  "\<exists>W' ls c ls' L' X.
     EmitToken (example_PP endif_lookup (\<lambda>T. [])) (hash_Token 2 13) (new_PTHWriter []) = Some W' \<and>
     Out W' = [50, 2, 1, 0,  0, 0, 0, 0,  13, 0, 0, 0] \<and>
     LexTokens_body (example_PP endif_lookup (\<lambda>T. [])) (new_LexState (new_PTHWriter []))
        (hash_Token 2 13) (endif_Lexer [])
       = Some ((new_LexState (new_PTHWriter []))\<lparr>Writer := W'\<rparr>, endif_Lexer [], LoopTest (hash_Token 2 13)) \<and>
     LexTokens_body (example_PP endif_lookup (\<lambda>T. [])) (new_LexState (new_PTHWriter []))
        (hash_Token 1 0) (endif_Lexer (tl endif_file))
       = Some (ls, endif_Lexer (drop 2 endif_file), c) \<and>
     PPCond ls = [(0, 0)] \<and> PPStartCond ls = [0] \<and> ParsingPreprocessorDirective ls \<and>
     length (Out (Writer ls)) = 24 \<and>
     LexTokens_body (example_PP endif_lookup (\<lambda>T. [])) ls (hash_Token 1 6)
        (endif_Lexer [ident_Token 0 5 7, hash_Token 2 13, ident_Token 2 1 15, ident_Token 1 1 17])
       = Some (ls', L', NextToken X) \<and>
     LexTokens_body (example_PP endif_lookup (\<lambda>T. [])) ls (hash_Token 1 6)
        (endif_Lexer [ident_Token 0 5 7, ident_Token 2 1 15, ident_Token 1 1 17])
       = Some (ls', L', NextToken X) \<and>
     length (Out (Writer ls')) = 60 \<and> length (PPCond ls') = 2 \<and>
     (isAtStartOfLine (example_PP endif_lookup (\<lambda>T. [])) X \<or> Kind X = tok_eof)"
proof -
  let ?PP = "example_PP endif_lookup (\<lambda>T. [])"
  let ?H = "hash_Token 2 13"
  let ?ls0 = "new_LexState (new_PTHWriter [])"
  let ?Tok = "hash_Token 1 6"
  let ?N = "ident_Token 0 5 7"
  let ?L = "endif_Lexer [ident_Token 2 1 15, ident_Token 1 1 17]"
  have a: "Kind ?H = tok_hash" by (simp add: hash_Token_def)
  have b: "\<not> isAtStartOfLine ?PP ?H"
    by (simp add: isAtStartOfLine_def hash_Token_def example_PP_def)
  from endif_first_pass obtain ls c where
    p1: "LexTokens_body ?PP ?ls0 (hash_Token 1 0) (endif_Lexer (tl endif_file))
           = Some (ls, endif_Lexer (drop 2 endif_file), c)"
    and ls: "PPCond ls = [(0, 0)]" "PPStartCond ls = [0]" "ParsingPreprocessorDirective ls"
      "length (Out (Writer ls)) = 24"
    by auto
  have bytes: "Emit32 [] (TokenKindValue ?PP tok_hash OR push_bit 8 (Flags ?H) OR push_bit 16 (Length ?H))
           @ Emit32 [] (of_nat (fst (ResolveID (getIdentifierInfo ?H) (Writer ?ls0))))
           @ Emit32 [] (getFileOffset ?PP (getLocation ?H))
         = [50, 2, 1, 0,  0, 0, 0, 0,  13, 0, 0, 0]"
    by (simp add: hash_Token_def ResolveID_def) code_simp
  have out0: "Out (Writer ?ls0) = []" by (simp add: new_LexState_def new_PTHWriter_def)
  have w0: "Writer ?ls0 = new_PTHWriter []" by (simp add: new_LexState_def)
  have Tok: "Kind ?Tok = tok_hash \<and> isAtStartOfLine ?PP ?Tok"
    by (simp add: isAtStartOfLine_def hash_Token_def example_PP_def)
  have N: "Kind ?N = tok_identifier \<and> \<not> isAtStartOfLine ?PP ?N"
    by (simp add: isAtStartOfLine_def ident_Token_def example_PP_def)
  have K: "getPPKeywordID (LookUpIdentifierInfo ?PP ?N) = pp_endif \<and>
           (\<forall>T\<in>set []. Kind T \<noteq> tok_eof \<and> \<not> isAtStartOfLine ?PP T)"
    by (simp add: ident_Token_def example_PP_def endif_lookup_def)
  have st: "PPStartCond ls \<noteq> [] \<and> last (PPStartCond ls) < length (PPCond ls) \<and>
              snd (PPCond ls ! last (PPStartCond ls)) = 0"
    by (simp add: ls)
  have L1: "?L\<lparr>Pending := ?N # [] @ ?H # Pending ?L\<rparr>
              = endif_Lexer [?N, ?H, ident_Token 2 1 15, ident_Token 1 1 17]"
    and L2: "?L\<lparr>Pending := ?N # [] @ Pending ?L\<rparr>
              = endif_Lexer [?N, ident_Token 2 1 15, ident_Token 1 1 17]"
    by (simp_all add: endif_Lexer_def)
  note t0 = hash_inside_line [OF a b, of ?ls0 "endif_Lexer []" "[]", THEN conjunct1]
  note t1 = hash_inside_line [OF a b, of ls ?L "[]", THEN conjunct2, rule_format, OF Tok,
      THEN conjunct2, rule_format, OF N, THEN conjunct2, rule_format, OF K, unfolded L1 L2]
  from t0 obtain W' where W': "EmitToken ?PP ?H (Writer ?ls0) = Some W'"
    "Out W' = Out (Writer ?ls0)
           @ Emit32 [] (TokenKindValue ?PP tok_hash OR push_bit 8 (Flags ?H) OR push_bit 16 (Length ?H))
           @ Emit32 [] (of_nat (fst (ResolveID (getIdentifierInfo ?H) (Writer ?ls0))))
           @ Emit32 [] (getFileOffset ?PP (getLocation ?H))"
    "LexTokens_body ?PP ?ls0 ?H (endif_Lexer []) = Some (?ls0\<lparr>Writer := W'\<rparr>, endif_Lexer [], LoopTest ?H)"
    by blast
  from W'(1) have e: "EmitToken ?PP ?H (new_PTHWriter []) = Some W'" unfolding w0 .
  from W'(2) have o: "Out W' = [50, 2, 1, 0,  0, 0, 0, 0,  13, 0, 0, 0]" unfolding bytes out0 by simp
  from t1 have eq: "LexTokens_body ?PP ls ?Tok (endif_Lexer [?N, ?H, ident_Token 2 1 15, ident_Token 1 1 17])
               = LexTokens_body ?PP ls ?Tok (endif_Lexer [?N, ident_Token 2 1 15, ident_Token 1 1 17])"
    and res: "\<And>ls' L' c. LexTokens_body ?PP ls ?Tok (endif_Lexer [?N, ?H, ident_Token 2 1 15, ident_Token 1 1 17])
                            = Some (ls', L', c) \<Longrightarrow>
                 length (Out (Writer ls')) = length (Out (Writer ls))
                                   + (if ParsingPreprocessorDirective ls then 36 else 24) \<and>
                 length (PPCond ls') = Suc (length (PPCond ls)) \<and>
                 (\<exists>X. c = NextToken X \<and> (isAtStartOfLine ?PP X \<or> Kind X = tok_eof))"
    and tot: "\<exists>ls' L' c. LexTokens_body ?PP ls ?Tok (endif_Lexer [?N, ?H, ident_Token 2 1 15, ident_Token 1 1 17])
                                = Some (ls', L', c)"
    using st by blast+
  from tot obtain ls' L' c' where
    p2: "LexTokens_body ?PP ls ?Tok (endif_Lexer [?N, ?H, ident_Token 2 1 15, ident_Token 1 1 17])
           = Some (ls', L', c')"
    by blast
  from res [OF p2] obtain X where c': "c' = NextToken X"
    and X: "isAtStartOfLine ?PP X \<or> Kind X = tok_eof"
    and l2: "length (Out (Writer ls')) = 60" "length (PPCond ls') = 2"
    by (auto simp: ls)
  note p2' = p2 [unfolded c']
  note p3 = p2' [unfolded eq]
  show ?thesis
    by (rule exI [of _ W'], rule exI [of _ ls], rule exI [of _ c], rule exI [of _ ls'],
        rule exI [of _ L'], rule exI [of _ X])
       (intro conjI e o W'(3) p1 ls p2' p3 l2 X)
qed

subsection \<open>The table of conditionals\<close>

text \<open>
  The next peer of an entry, as a scan of the keywords after it: a directive that opens a
  block is passed over together with its \<^verbatim>\<open>#endif\<close>, and the scan stops at the first \<^verbatim>\<open>#elif\<close>,
  \<^verbatim>\<open>#else\<close> or \<^verbatim>\<open>#endif\<close> met at depth 0. The scan returns the index where it stops, or the
  depth at which the keywords run out.
\<close>

definition opens_block :: "PPKeywordKind \<Rightarrow> bool" where
  "opens_block k \<longleftrightarrow> k = pp_if \<or> k = pp_ifdef \<or> k = pp_ifndef"

definition continues_block :: "PPKeywordKind \<Rightarrow> bool" where
  "continues_block k \<longleftrightarrow> k = pp_elif \<or> k = pp_else"

fun scan :: "PPKeywordKind list \<Rightarrow> nat \<Rightarrow> nat \<Rightarrow> nat + nat" where
  "scan [] d j = Inr d"
| "scan (k # ks) d j =
     (if opens_block k then scan ks (Suc d) (Suc j)
      else if k = pp_endif then (if d = 0 then Inl j else scan ks (d - 1) (Suc j))
      else if continues_block k then (if d = 0 then Inl j else scan ks d (Suc j))
      else scan ks d (Suc j))"

definition next_peer :: "PPKeywordKind list \<Rightarrow> nat \<Rightarrow> nat option" where
  "next_peer ks i = (case scan (drop (Suc i) ks) 0 (Suc i) of Inl j \<Rightarrow> Some j | Inr d \<Rightarrow> None)"

lemma scan_append:
  "scan (xs @ ys) d j = (case scan xs d j of Inl r \<Rightarrow> Inl r | Inr d' \<Rightarrow> scan ys d' (j + length xs))"
  by (induction xs d j rule: scan.induct) (auto split: sum.splits)

lemma scan_found_ge: "scan xs d j = Inl r \<Longrightarrow> j \<le> r"
  by (induction xs d j rule: scan.induct) (auto split: if_splits)

lemma scan_snoc:
  assumes "p < length ks"
  shows "scan (drop (Suc p) (ks @ [K])) 0 (Suc p) =
           (case scan (drop (Suc p) ks) 0 (Suc p) of Inl r \<Rightarrow> Inl r | Inr d \<Rightarrow> scan [K] d (length ks))"
proof -
  from assms have e: "Suc p + length (drop (Suc p) ks) = length ks" by simp
  from assms have d: "drop (Suc p) (ks @ [K]) = drop (Suc p) ks @ [K]" by simp
  show ?thesis unfolding d scan_append e ..
qed

definition stack_ok :: "PPKeywordKind list \<Rightarrow> (Offset \<times> nat) list \<Rightarrow> nat list \<Rightarrow> bool" where
  "stack_ok ks pc stk \<longleftrightarrow>
     distinct stk \<and> (\<forall>p\<in>set stk. p < length pc \<and> ks ! p \<noteq> pp_endif \<and> snd (pc ! p) = 0)"

definition open_depth :: "PPKeywordKind list \<Rightarrow> nat list \<Rightarrow> bool" where
  "open_depth ks stk \<longleftrightarrow>
     (\<forall>q<length stk. scan (drop (Suc (stk ! q)) ks) 0 (Suc (stk ! q)) = Inr (length stk - Suc q))"

definition closed_ok :: "PPKeywordKind list \<Rightarrow> (Offset \<times> nat) list \<Rightarrow> nat list \<Rightarrow> bool" where
  "closed_ok ks pc stk \<longleftrightarrow>
     (\<forall>i<length pc. i \<notin> set stk \<longrightarrow>
        (if ks ! i = pp_endif then snd (pc ! i) = i \<and> 0 < i
         else scan (drop (Suc i) ks) 0 (Suc i) = Inl (snd (pc ! i))))"

definition conditional :: "PPKeywordKind \<Rightarrow> bool" where
  "conditional k \<longleftrightarrow> opens_block k \<or> continues_block k \<or> k = pp_endif"

definition cond_inv :: "PPKeywordKind list \<Rightarrow> (Offset \<times> nat) list \<Rightarrow> nat list \<Rightarrow> bool" where
  "cond_inv ks pc stk \<longleftrightarrow>
     length ks = length pc \<and> (\<forall>k\<in>set ks. conditional k) \<and>
     stack_ok ks pc stk \<and> open_depth ks stk \<and> closed_ok ks pc stk"

lemma cond_inv_empty: "cond_inv [] [] []"
  by (simp add: cond_inv_def stack_ok_def open_depth_def closed_ok_def)

lemma cond_inv_open:
  assumes inv: "cond_inv ks pc stk" and K: "opens_block K"
  shows "cond_inv (ks @ [K]) (pc @ [(h, 0)]) (stk @ [length pc])"
proof -
  from inv have len: "length ks = length pc" and cnd: "\<forall>k\<in>set ks. conditional k"
    and st: "stack_ok ks pc stk"
    and od: "open_depth ks stk" and cl: "closed_ok ks pc stk"
    by (simp_all add: cond_inv_def)
  from K have Ke: "K \<noteq> pp_endif" by (auto simp: opens_block_def)
  have st': "stack_ok (ks @ [K]) (pc @ [(h, 0)]) (stk @ [length pc])"
    using st len Ke by (auto simp: stack_ok_def nth_append)
  have od': "open_depth (ks @ [K]) (stk @ [length pc])"
    unfolding open_depth_def
  proof (intro allI impI)
    fix q assume q: "q < length (stk @ [length pc])"
    show "scan (drop (Suc ((stk @ [length pc]) ! q)) (ks @ [K])) 0 (Suc ((stk @ [length pc]) ! q))
            = Inr (length (stk @ [length pc]) - Suc q)"
    proof (cases "q < length stk")
      case True
      then have "stk ! q \<in> set stk" by simp
      with st len have p: "stk ! q < length ks" by (simp add: stack_ok_def)
      from od True have "scan (drop (Suc (stk ! q)) ks) 0 (Suc (stk ! q)) = Inr (length stk - Suc q)"
        by (simp add: open_depth_def)
      with True K show ?thesis
        by (simp add: nth_append scan_snoc [OF p] Suc_diff_Suc del: drop_append)
    next
      case False
      with q have "q = length stk" by simp
      then show ?thesis by (simp add: len)
    qed
  qed
  have cl': "closed_ok (ks @ [K]) (pc @ [(h, 0)]) (stk @ [length pc])"
    unfolding closed_ok_def
  proof (intro allI impI)
    fix i assume i: "i < length (pc @ [(h, 0)])" and ni: "i \<notin> set (stk @ [length pc])"
    then have i': "i < length pc" and ns: "i \<notin> set stk" by auto
    from cl i' ns have c: "if ks ! i = pp_endif then snd (pc ! i) = i \<and> 0 < i
         else scan (drop (Suc i) ks) 0 (Suc i) = Inl (snd (pc ! i))"
      by (simp add: closed_ok_def)
    from i' len have p: "i < length ks" by simp
    from c i' p show "if (ks @ [K]) ! i = pp_endif then snd ((pc @ [(h, 0)]) ! i) = i \<and> 0 < i
         else scan (drop (Suc i) (ks @ [K])) 0 (Suc i) = Inl (snd ((pc @ [(h, 0)]) ! i))"
      by (auto simp: nth_append scan_snoc [OF p] simp del: drop_append)
  qed
  from K cnd have "\<forall>k\<in>set (ks @ [K]). conditional k" by (simp add: conditional_def)
  with len st' od' cl' show ?thesis by (simp add: cond_inv_def)
qed

lemma stack_top:
  assumes "distinct stk" "stk \<noteq> []"
  shows "last stk \<in> set stk" "last stk \<notin> set (butlast stk)"
    "\<And>p. p \<in> set (butlast stk) \<Longrightarrow> p \<in> set stk"
    "\<And>q. q < length (butlast stk) \<Longrightarrow> butlast stk ! q = stk ! q"
    "stk ! (length stk - 1) = last stk"
    "\<And>p. p \<in> set stk \<Longrightarrow> p \<noteq> last stk \<Longrightarrow> p \<in> set (butlast stk)"
proof -
  from assms(2) have s: "stk = butlast stk @ [last stk]" by simp
  show "last stk \<in> set stk" using assms(2) by simp
  show "last stk \<notin> set (butlast stk)"
    using assms(1) by (subst (asm) s) (simp del: append_butlast_last_id)
  show "p \<in> set stk" if "p \<in> set (butlast stk)" for p using that by (rule in_set_butlastD)
  show "butlast stk ! q = stk ! q" if "q < length (butlast stk)" for q
    using that by (simp add: nth_butlast)
  show "stk ! (length stk - 1) = last stk" using assms(2) by (simp add: last_conv_nth)
  show "p \<in> set (butlast stk)" if "p \<in> set stk" "p \<noteq> last stk" for p
    using that by (subst (asm) s) (simp del: append_butlast_last_id)
qed

lemma cond_inv_endif:
  assumes inv: "cond_inv ks pc stk" and ne: "stk \<noteq> []"
  shows "cond_inv (ks @ [pp_endif])
           (pc[last stk := (fst (pc ! last stk), length pc)] @ [(h, length pc)]) (butlast stk)"
proof -
  let ?p = "last stk" and ?n = "length pc"
  let ?ks = "ks @ [pp_endif]"
  let ?pc = "pc[last stk := (fst (pc ! last stk), length pc)] @ [(h, length pc)]"
  from inv have len: "length ks = length pc" and cnd: "\<forall>k\<in>set ks. conditional k"
    and st: "stack_ok ks pc stk"
    and od: "open_depth ks stk" and cl: "closed_ok ks pc stk"
    by (simp_all add: cond_inv_def)
  from st have dist: "distinct stk" by (simp add: stack_ok_def)
  note top = stack_top [OF dist ne]
  from st top(1) have p: "?p < ?n" "ks ! ?p \<noteq> pp_endif" by (simp_all add: stack_ok_def)
  have nth_ks: "?ks ! i = ks ! i" if "i < ?n" for i using that len by (simp add: nth_append)
  have nth_pc: "?pc ! i = pc ! i" if "i < ?n" "i \<noteq> ?p" for i using that by (simp add: nth_append)
  have nth_p: "?pc ! ?p = (fst (pc ! ?p), ?n)" using p(1) by (simp add: nth_append)
  have nth_n: "?pc ! ?n = (h, ?n)" "?ks ! ?n = pp_endif" using len by (simp_all add: nth_append)
  have st': "stack_ok ?ks ?pc (butlast stk)"
    unfolding stack_ok_def
  proof (intro conjI ballI)
    show "distinct (butlast stk)" using dist by (rule distinct_butlast)
  next
    fix q assume q: "q \<in> set (butlast stk)"
    from top(3) [OF q] st have a: "q < ?n" "ks ! q \<noteq> pp_endif" "snd (pc ! q) = 0"
      by (simp_all add: stack_ok_def)
    from q top(2) have "q \<noteq> ?p" by auto
    with a show "q < length ?pc" "?ks ! q \<noteq> pp_endif" "snd (?pc ! q) = 0"
      by (simp_all add: nth_ks nth_pc)
  qed
  have od': "open_depth ?ks (butlast stk)"
    unfolding open_depth_def
  proof (intro allI impI)
    fix q assume q: "q < length (butlast stk)"
    then have q': "q < length stk" "0 < length stk - Suc q" by simp_all
    then have "stk ! q \<in> set stk" by simp
    with st len have lt: "stk ! q < length ks" by (simp add: stack_ok_def)
    from od q'(1) have "scan (drop (Suc (stk ! q)) ks) 0 (Suc (stk ! q)) = Inr (length stk - Suc q)"
      by (simp add: open_depth_def)
    with q'(2) have "scan (drop (Suc (stk ! q)) ?ks) 0 (Suc (stk ! q)) = Inr (length stk - Suc q - 1)"
      unfolding scan_snoc [OF lt] by (simp add: opens_block_def)
    then show "scan (drop (Suc (butlast stk ! q)) ?ks) 0 (Suc (butlast stk ! q))
                 = Inr (length (butlast stk) - Suc q)"
      unfolding top(4) [OF q] by simp
  qed
  have cl': "closed_ok ?ks ?pc (butlast stk)"
    unfolding closed_ok_def
  proof (intro allI impI)
    fix i assume i: "i < length ?pc" and ni: "i \<notin> set (butlast stk)"
    consider "i = ?n" | "i = ?p" | "i < ?n" "i \<noteq> ?p" using i by fastforce
    then show "if ?ks ! i = pp_endif then snd (?pc ! i) = i \<and> 0 < i
         else scan (drop (Suc i) ?ks) 0 (Suc i) = Inl (snd (?pc ! i))"
    proof cases
      case 1
      from p(1) have "0 < ?n" by (cases pc) simp_all
      with 1 show ?thesis by (simp only: nth_n) simp
    next
      case 2
      from ne have "length stk - 1 < length stk" by simp
      with od have "scan (drop (Suc (stk ! (length stk - 1))) ks) 0 (Suc (stk ! (length stk - 1)))
                      = Inr (length stk - Suc (length stk - 1))"
        unfolding open_depth_def by blast
      then have "scan (drop (Suc ?p) ks) 0 (Suc ?p) = Inr 0" unfolding top(5) using ne by simp
      moreover from p(1) len have lt: "?p < length ks" by simp
      ultimately have "scan (drop (Suc ?p) ?ks) 0 (Suc ?p) = Inl ?n"
        unfolding scan_snoc [OF lt] by (simp add: opens_block_def len)
      with p(2) show ?thesis unfolding 2 nth_p nth_ks [OF p(1)] by simp
    next
      case 3
      from 3 ni top(6) have "i \<notin> set stk" by blast
      with cl 3(1) have c: "if ks ! i = pp_endif then snd (pc ! i) = i \<and> 0 < i
         else scan (drop (Suc i) ks) 0 (Suc i) = Inl (snd (pc ! i))"
        by (simp add: closed_ok_def)
      from 3(1) len have lt: "i < length ks" by simp
      from c show ?thesis
        unfolding nth_ks [OF 3(1)] nth_pc [OF 3] scan_snoc [OF lt] by (simp split: if_splits)
    qed
  qed
  from cnd have "\<forall>k\<in>set ?ks. conditional k" by (simp add: conditional_def)
  with len st' od' cl' show ?thesis by (simp add: cond_inv_def)
qed

lemma cond_inv_else:
  assumes inv: "cond_inv ks pc stk" and ne: "stk \<noteq> []" and K: "continues_block K"
  shows "cond_inv (ks @ [K])
           (pc[last stk := (fst (pc ! last stk), length pc)] @ [(h, 0)])
           (butlast stk @ [length pc])"
proof -
  let ?p = "last stk" and ?n = "length pc"
  let ?ks = "ks @ [K]"
  let ?pc = "pc[last stk := (fst (pc ! last stk), length pc)] @ [(h, 0)]"
  let ?stk = "butlast stk @ [length pc]"
  from K have K': "\<not> opens_block K" "K \<noteq> pp_endif"
    by (auto simp: continues_block_def opens_block_def)
  from inv have len: "length ks = length pc" and cnd: "\<forall>k\<in>set ks. conditional k"
    and st: "stack_ok ks pc stk"
    and od: "open_depth ks stk" and cl: "closed_ok ks pc stk"
    by (simp_all add: cond_inv_def)
  from st have dist: "distinct stk" by (simp add: stack_ok_def)
  note top = stack_top [OF dist ne]
  from st top(1) have p: "?p < ?n" "ks ! ?p \<noteq> pp_endif" by (simp_all add: stack_ok_def)
  have nth_ks: "?ks ! i = ks ! i" if "i < ?n" for i using that len by (simp add: nth_append)
  have nth_pc: "?pc ! i = pc ! i" if "i < ?n" "i \<noteq> ?p" for i using that by (simp add: nth_append)
  have nth_p: "?pc ! ?p = (fst (pc ! ?p), ?n)" using p(1) by (simp add: nth_append)
  have nth_n: "?pc ! ?n = (h, 0)" "?ks ! ?n = K" using len by (simp_all add: nth_append)
  have below: "q < ?n" if "q \<in> set (butlast stk)" for q
    using top(3) [OF that] st by (simp add: stack_ok_def)
  have st': "stack_ok ?ks ?pc ?stk"
    unfolding stack_ok_def
  proof (rule conjI [OF _ ballI])
    show "distinct ?stk" using distinct_butlast [OF dist] below by auto
  next
    fix q assume q: "q \<in> set ?stk"
    show "q < length ?pc \<and> ?ks ! q \<noteq> pp_endif \<and> snd (?pc ! q) = 0"
    proof (cases "q = ?n")
      case True
      then show ?thesis using K' by (simp only: nth_n) simp
    next
      case False
      with q have qb: "q \<in> set (butlast stk)" by simp
      from top(3) [OF qb] st have a: "q < ?n" "ks ! q \<noteq> pp_endif" "snd (pc ! q) = 0"
        by (simp_all add: stack_ok_def)
      from qb top(2) have "q \<noteq> ?p" by auto
      with a show ?thesis by (simp add: nth_ks nth_pc)
    qed
  qed
  have od': "open_depth ?ks ?stk"
    unfolding open_depth_def
  proof (intro allI impI)
    fix q assume q: "q < length ?stk"
    show "scan (drop (Suc (?stk ! q)) ?ks) 0 (Suc (?stk ! q)) = Inr (length ?stk - Suc q)"
    proof (cases "q < length (butlast stk)")
      case True
      then have q': "q < length stk" "0 < length stk - Suc q" by simp_all
      then have "stk ! q \<in> set stk" by simp
      with st len have lt: "stk ! q < length ks" by (simp add: stack_ok_def)
      from od q'(1) have "scan (drop (Suc (stk ! q)) ks) 0 (Suc (stk ! q)) = Inr (length stk - Suc q)"
        by (simp add: open_depth_def)
      with q'(2) have "scan (drop (Suc (stk ! q)) ?ks) 0 (Suc (stk ! q)) = Inr (length stk - Suc q)"
        unfolding scan_snoc [OF lt] using K K' by simp
      moreover have "?stk ! q = stk ! q" using True top(4) [OF True] by (simp add: nth_append)
      moreover have "length ?stk = length stk" using ne by simp
      ultimately show ?thesis by simp
    next
      case False
      with q have "q = length (butlast stk)" by simp
      then have "?stk ! q = ?n" "length ?stk - Suc q = 0"
        by (simp_all add: nth_append del: length_butlast)
      then show ?thesis by (simp add: len)
    qed
  qed
  have cl': "closed_ok ?ks ?pc ?stk"
    unfolding closed_ok_def
  proof (intro allI impI)
    fix i assume i: "i < length ?pc" and ni: "i \<notin> set ?stk"
    then have i': "i < ?n" and nb: "i \<notin> set (butlast stk)" by auto
    show "if ?ks ! i = pp_endif then snd (?pc ! i) = i \<and> 0 < i
         else scan (drop (Suc i) ?ks) 0 (Suc i) = Inl (snd (?pc ! i))"
    proof (cases "i = ?p")
      case True
      from ne have "length stk - 1 < length stk" by simp
      with od have "scan (drop (Suc (stk ! (length stk - 1))) ks) 0 (Suc (stk ! (length stk - 1)))
                      = Inr (length stk - Suc (length stk - 1))"
        unfolding open_depth_def by blast
      then have "scan (drop (Suc ?p) ks) 0 (Suc ?p) = Inr 0" unfolding top(5) using ne by simp
      moreover from p(1) len have lt: "?p < length ks" by simp
      ultimately have "scan (drop (Suc ?p) ?ks) 0 (Suc ?p) = Inl ?n"
        unfolding scan_snoc [OF lt] using K K' by (simp add: len)
      with p(2) show ?thesis unfolding True nth_p nth_ks [OF p(1)] by simp
    next
      case False
      from False nb top(6) have "i \<notin> set stk" by blast
      with cl i' have c: "if ks ! i = pp_endif then snd (pc ! i) = i \<and> 0 < i
         else scan (drop (Suc i) ks) 0 (Suc i) = Inl (snd (pc ! i))"
        by (simp add: closed_ok_def)
      from i' len have lt: "i < length ks" by simp
      from c show ?thesis
        unfolding nth_ks [OF i'] nth_pc [OF i' False] scan_snoc [OF lt] by (simp split: if_splits)
    qed
  qed
  from K cnd have "\<forall>k\<in>set ?ks. conditional k" by (simp add: conditional_def)
  with len st' od' cl' show ?thesis by (simp add: cond_inv_def)
qed

lemma Emit_PPCond_eq:
  assumes "\<forall>i\<in>set is. snd (ppc ! i) \<noteq> 0"
  shows "Emit_PPCond ppc toff is os =
     Some (os @ concat (map (\<lambda>i. Emit32 [] (fst (ppc ! i) - toff)
                                  @ Emit32 [] (if snd (ppc ! i) = i then 0 else of_nat (snd (ppc ! i))))
                          is))"
  using assms
proof (induction "is" arbitrary: os)
  case Nil
  show ?case by simp
next
  case (Cons i "is")
  then show ?case
    by (simp add: Let_def Emit32_append [of "_ @ _"] Emit32_append [of os])
qed

text \<open>
  The conditionals of a file, read off its tokens. \<open>tokens_of\<close> is what the lexer returns:
  the tokens of the buffer and then the end of the file. A conditional directive is a \<^verbatim>\<open>#\<close>
  that starts a line, followed on its line by an identifier whose keyword is one of \<^verbatim>\<open>if\<close>, \<^verbatim>\<open>ifdef\<close>,
  \<^verbatim>\<open>ifndef\<close>, \<^verbatim>\<open>elif\<close>, \<^verbatim>\<open>else\<close>, \<^verbatim>\<open>endif\<close>; \<open>conditionals\<close> lists them, each with its \<^verbatim>\<open>#\<close>, up to
  the end of the file. The conditionals are balanced when every \<^verbatim>\<open>#elif\<close>, \<^verbatim>\<open>#else\<close> and
  \<^verbatim>\<open>#endif\<close> has an open block and no block stays open: \<open>balance\<close> follows the depth.
\<close>

definition tokens_of :: "Lexer \<Rightarrow> Token list" where
  "tokens_of L = Pending L @ [eof_Token L]"

definition keyword_of :: "Externals \<Rightarrow> Token \<Rightarrow> PPKeywordKind" where
  "keyword_of PP N = getPPKeywordID (LookUpIdentifierInfo PP N)"

fun conditionals :: "Externals \<Rightarrow> Token list \<Rightarrow> (Token \<times> PPKeywordKind) list" where
  "conditionals PP (H # N # Ts) =
     (if Kind H = tok_eof then []
      else (if Kind H = tok_hash \<and> isAtStartOfLine PP H \<and>
               Kind N = tok_identifier \<and> \<not> isAtStartOfLine PP N \<and> conditional (keyword_of PP N)
            then [(H, keyword_of PP N)] else [])
           @ conditionals PP (N # Ts))"
| "conditionals PP [T] = []"
| "conditionals PP [] = []"

fun balance :: "PPKeywordKind list \<Rightarrow> nat \<Rightarrow> nat option" where
  "balance [] d = Some d"
| "balance (k # ks) d =
     (if opens_block k then balance ks (Suc d)
      else if d = 0 then None
      else if k = pp_endif then balance ks (d - 1)
      else balance ks d)"

text \<open>
  The assertions on the two tokens after a \<^verbatim>\<open>#\<close> that starts a line (lines 471, 483
  and 498): the next token is on the same line; if it is an identifier, it is the keyword
  of a directive; and after \<^verbatim>\<open>include\<close>, \<^verbatim>\<open>import\<close> or \<^verbatim>\<open>include_next\<close> the token that is lexed as
  the file name is on the same line too. A file is well formed when this holds of every
  \<^verbatim>\<open>#\<close> that starts a line.
\<close>

fun directive_ok :: "Externals \<Rightarrow> Token list \<Rightarrow> bool" where
  "directive_ok PP (N # Ts) =
     (\<not> isAtStartOfLine PP N \<and>
      (Kind N = tok_identifier \<longrightarrow>
         keyword_of PP N \<noteq> pp_not_keyword \<and>
         (keyword_of PP N \<in> {pp_include, pp_import, pp_include_next} \<longrightarrow>
            (case Ts of [] \<Rightarrow> True | F # Fs \<Rightarrow> \<not> isAtStartOfLine PP F))))"
| "directive_ok PP [] = True"

fun well_formed :: "Externals \<Rightarrow> Token list \<Rightarrow> bool" where
  "well_formed PP (H # Ts) =
     (Kind H = tok_eof \<or>
      ((Kind H = tok_hash \<and> isAtStartOfLine PP H \<longrightarrow> directive_ok PP Ts) \<and> well_formed PP Ts))"
| "well_formed PP [] = True"

lemma conditionals_eof: "Kind T = tok_eof \<Longrightarrow> conditionals PP (T # Ts) = []"
  by (cases Ts) simp_all

lemma conditionals_skip:
  "Kind T \<noteq> tok_eof \<Longrightarrow> \<not> (Kind T = tok_hash \<and> isAtStartOfLine PP T) \<Longrightarrow>
   conditionals PP (T # Ts) = conditionals PP Ts"
  by (cases Ts) auto

lemma conditionals_hash:
  "Kind H = tok_hash \<Longrightarrow> isAtStartOfLine PP H \<Longrightarrow>
   conditionals PP (H # N # Ts) =
     (if Kind N = tok_identifier \<and> \<not> isAtStartOfLine PP N \<and> conditional (keyword_of PP N)
      then [(H, keyword_of PP N)] else [])
     @ conditionals PP (N # Ts)"
  by simp

lemma well_formed_tl: "well_formed PP (T # Ts) \<Longrightarrow> Kind T \<noteq> tok_eof \<Longrightarrow> well_formed PP Ts"
  by simp

lemma well_formed_hash:
  "well_formed PP (H # Ts) \<Longrightarrow> Kind H = tok_hash \<Longrightarrow> isAtStartOfLine PP H \<Longrightarrow> directive_ok PP Ts"
  by simp

lemma eof_Token_Pending [simp]: "eof_Token (L\<lparr>Pending := Ts\<rparr>) = eof_Token L"
  by (simp add: eof_Token_def)

lemma Kind_eof_Token [simp]: "Kind (eof_Token L) = tok_eof"
  by (simp add: eof_Token_def)

lemma lex_tokens:
  assumes "LexFromRawLexer L = (T, L1)"
  shows "tokens_of L = T # tokens_of L1 \<or> Kind T = tok_eof \<and> tokens_of L = [T]"
  using assms by (auto simp: LexFromRawLexer_def tokens_of_def split: list.splits)

text \<open>The rest of the line of an \<^verbatim>\<open>#endif\<close> holds no directive.\<close>

lemma conditionals_discard:
  "conditionals PP (discard_line PP Ts @ [E]) = conditionals PP (Ts @ [E])"
proof (induction Ts)
  case Nil
  show ?case by simp
next
  case (Cons T Ts)
  show ?case
  proof (cases "Kind T \<noteq> tok_eof \<and> \<not> isAtStartOfLine PP T")
    case True
    then have "conditionals PP ((T # Ts) @ [E]) = conditionals PP (Ts @ [E])"
      using conditionals_skip [of T PP "Ts @ [E]"] by simp
    with True Cons show ?thesis by simp
  next
    case False
    then show ?thesis by auto
  qed
qed

lemma well_formed_discard:
  "well_formed PP (Ts @ [E]) \<Longrightarrow> well_formed PP (discard_line PP Ts @ [E])"
  by (induction Ts) (auto split: if_splits)

lemma discard_tokens:
  assumes "Lex_discarding PP L = (X, L1)"
  shows "conditionals PP (X # tokens_of L1) = conditionals PP (tokens_of L)"
    and "well_formed PP (tokens_of L) \<Longrightarrow> well_formed PP (X # tokens_of L1)"
proof -
  show "conditionals PP (X # tokens_of L1) = conditionals PP (tokens_of L)"
  proof (cases "discard_line PP (Pending L)")
    case Nil
    with assms have "X = eof_Token L" by (simp add: Lex_discarding_def LexFromRawLexer_def)
    then have "conditionals PP (X # tokens_of L1) = []" by (simp add: conditionals_eof)
    moreover have "conditionals PP (tokens_of L) = conditionals PP (discard_line PP (Pending L) @ [eof_Token L])"
      unfolding tokens_of_def conditionals_discard ..
    ultimately show ?thesis by (simp add: Nil)
  next
    case (Cons Y Ys)
    with assms have eq: "X # tokens_of L1 = discard_line PP (Pending L) @ [eof_Token L]"
      by (auto simp: Lex_discarding_def LexFromRawLexer_def tokens_of_def)
    show ?thesis by (simp only: eq tokens_of_def [of L] conditionals_discard)
  qed
  show "well_formed PP (X # tokens_of L1)" if wf: "well_formed PP (tokens_of L)"
  proof (cases "discard_line PP (Pending L)")
    case Nil
    with assms have "X = eof_Token L" by (simp add: Lex_discarding_def LexFromRawLexer_def)
    then show ?thesis by simp
  next
    case (Cons Y Ys)
    with assms have "X # tokens_of L1 = discard_line PP (Pending L) @ [eof_Token L]"
      by (auto simp: Lex_discarding_def LexFromRawLexer_def tokens_of_def)
    with well_formed_discard [OF wf [unfolded tokens_of_def]] show ?thesis by simp
  qed
qed

lemma balance_conditional_depth:
  "balance ks d = Some 0 \<Longrightarrow> ks \<noteq> [] \<Longrightarrow> \<not> opens_block (hd ks) \<Longrightarrow> d \<noteq> 0"
  by (cases ks) (auto split: if_splits)

text \<open>
  What the loop maintains: the table and the stack fit the keywords of the conditionals
  met so far, and the first component of each entry is the position (in 32 bits) of the
  record of the \<^verbatim>\<open>#\<close> of its directive.
\<close>

definition record_at :: "Externals \<Rightarrow> Token \<Rightarrow> nat \<Rightarrow> raw_ostream \<Rightarrow> bool" where
  "record_at PP T p os \<longleftrightarrow>
     p + 12 \<le> length os \<and>
     take 4 (drop p os) = Emit32 [] (token_word0 PP T) \<and>
     take 4 (drop (p + 8) os) = Emit32 [] (getFileOffset PP (getLocation T))"

definition hash_inv ::
  "Externals \<Rightarrow> (Token \<times> PPKeywordKind) list \<Rightarrow> (Offset \<times> nat) list \<Rightarrow> raw_ostream \<Rightarrow> bool" where
  "hash_inv PP cs pc os \<longleftrightarrow>
     list_all2 (\<lambda>c e. \<exists>p. fst e = of_nat p \<and> record_at PP (fst c) p os) cs pc"

definition Inv :: "Externals \<Rightarrow> (Token \<times> PPKeywordKind) list \<Rightarrow> LexState \<Rightarrow> bool" where
  "Inv PP cs ls \<longleftrightarrow>
     cond_inv (map snd cs) (PPCond ls) (PPStartCond ls) \<and>
     hash_inv PP cs (PPCond ls) (Out (Writer ls))"

lemma record_at_grow: "record_at PP T p os \<Longrightarrow> record_at PP T p (os @ bs)"
  by (simp add: record_at_def)

lemma record_at_emitted:
  "record_at PP T (length (Out (Writer ls))) (Out (Writer (emitted PP T ls)))"
  by (rule emitted_Out [of PP T ls]) (simp add: record_at_def)

lemma hash_inv_grow: "hash_inv PP cs pc os \<Longrightarrow> hash_inv PP cs pc (os @ bs)"
  unfolding hash_inv_def by (erule list_all2_mono) (blast intro: record_at_grow)

lemma hash_inv_update:
  assumes "hash_inv PP cs pc os"
  shows "hash_inv PP cs (pc[i := (fst (pc ! i), t)]) os"
proof (cases "i < length pc")
  case True
  from assms have l: "list_all2 (\<lambda>c e. \<exists>p. fst e = of_nat p \<and> record_at PP (fst c) p os) cs pc"
    by (simp add: hash_inv_def)
  from True list_all2_lengthD [OF l] have i: "i < length cs" by simp
  from list_all2_nthD [OF l i]
  have "\<exists>p. fst (fst (pc ! i), t) = of_nat p \<and> record_at PP (fst (cs ! i)) p os" by simp
  from list_all2_update_cong [OF l this, of i] show ?thesis
    by (simp add: hash_inv_def)
next
  case False
  then have "pc[i := (fst (pc ! i), t)] = pc" by (intro list_update_beyond) simp
  with assms show ?thesis by simp
qed

lemma hash_inv_snoc:
  assumes "hash_inv PP cs pc os" and "record_at PP H p os"
  shows "hash_inv PP (cs @ [(H, K)]) (pc @ [(of_nat p, t)]) os"
  using assms unfolding hash_inv_def by (intro list_all2_appendI) auto

lemma Inv_new: "Inv PP [] (new_LexState W)"
  by (simp add: Inv_def new_LexState_def cond_inv_empty hash_inv_def)

lemma Inv_length: "Inv PP cs ls \<Longrightarrow> length (PPCond ls) = length cs"
  by (simp add: Inv_def cond_inv_def)

lemma Inv_grows:
  assumes "Inv PP cs ls" and "PPCond ls' = PPCond ls" and "PPStartCond ls' = PPStartCond ls"
    and "grows ls ls'"
  shows "Inv PP cs ls'"
  using assms by (auto simp: Inv_def grows_def hash_inv_grow)

lemma grows_emitted: "grows ls (emitted PP T ls)"
  using emit_grows [OF emit_emitted] .

lemma Inv_emitted: "Inv PP cs ls \<Longrightarrow> Inv PP cs (emitted PP T ls)"
  by (erule Inv_grows) (simp_all add: grows_emitted)

lemma Inv_flag [simp]: "Inv PP cs (ls\<lparr>ParsingPreprocessorDirective := b\<rparr>) = Inv PP cs ls"
  by (simp add: Inv_def)

lemma Inv_pre_eom: "Inv PP cs ls \<Longrightarrow> Inv PP cs (pre_eom PP Tok ls)"
  by (simp add: pre_eom_def Inv_emitted)

lemma Inv_stack:
  assumes "Inv PP cs ls" and "PPStartCond ls \<noteq> []"
  shows "last (PPStartCond ls) < length (PPCond ls)"
    and "snd (PPCond ls ! last (PPStartCond ls)) = 0"
proof -
  from assms(1) have "stack_ok (map snd cs) (PPCond ls) (PPStartCond ls)"
    by (simp add: Inv_def cond_inv_def)
  moreover from assms(2) have "last (PPStartCond ls) \<in> set (PPStartCond ls)" by simp
  ultimately show "last (PPStartCond ls) < length (PPCond ls)"
    and "snd (PPCond ls ! last (PPStartCond ls)) = 0"
    by (simp_all add: stack_ok_def)
qed

lemma Inv_open:
  assumes inv: "Inv PP cs ls" and K: "opens_block K"
    and rec: "record_at PP H p (Out (Writer ls))" and few: "length cs < 4294967296"
  shows "Inv PP (cs @ [(H, K)])
           (ls\<lparr>PPStartCond := PPStartCond ls @ [u32 (length (PPCond ls))],
               PPCond := PPCond ls @ [(of_nat p, 0)]\<rparr>)"
proof -
  from few have u: "u32 (length (PPCond ls)) = length (PPCond ls)"
    by (simp add: Inv_length [OF inv] u32_id)
  from inv have "cond_inv (map snd cs) (PPCond ls) (PPStartCond ls)" by (simp add: Inv_def)
  from cond_inv_open [OF this K, of "of_nat p"] hash_inv_snoc [OF _ rec, where cs = cs and pc = "PPCond ls" and K = K and t = 0] inv
  show ?thesis by (simp add: Inv_def u)
qed

lemma Inv_endif:
  assumes inv: "Inv PP cs ls" and ne: "PPStartCond ls \<noteq> []"
    and rec: "record_at PP H p (Out (Writer ls))" and few: "length cs < 4294967296"
  shows "Inv PP (cs @ [(H, pp_endif)])
           (ls\<lparr>PPStartCond := butlast (PPStartCond ls),
               PPCond := (PPCond ls)[last (PPStartCond ls) :=
                               (fst (PPCond ls ! last (PPStartCond ls)), u32 (length (PPCond ls)))]
                             @ [(of_nat p, u32 (length (PPCond ls)))]\<rparr>)"
proof -
  from few have u: "u32 (length (PPCond ls)) = length (PPCond ls)"
    by (simp add: Inv_length [OF inv] u32_id)
  from inv have c: "cond_inv (map snd cs) (PPCond ls) (PPStartCond ls)"
    and h: "hash_inv PP cs (PPCond ls) (Out (Writer ls))"
    by (simp_all add: Inv_def)
  from cond_inv_endif [OF c ne, of "of_nat p"]
    hash_inv_snoc [OF hash_inv_update [OF h, of "last (PPStartCond ls)" "length (PPCond ls)"] rec,
      where K = pp_endif and t = "length (PPCond ls)"]
  show ?thesis by (simp add: Inv_def u)
qed

lemma Inv_else:
  assumes inv: "Inv PP cs ls" and ne: "PPStartCond ls \<noteq> []" and K: "continues_block K"
    and rec: "record_at PP H p (Out (Writer ls))" and few: "length cs < 4294967296"
  shows "Inv PP (cs @ [(H, K)])
           (ls\<lparr>PPCond := (PPCond ls)[last (PPStartCond ls) :=
                               (fst (PPCond ls ! last (PPStartCond ls)), u32 (length (PPCond ls)))]
                             @ [(of_nat p, 0)],
               PPStartCond := butlast (PPStartCond ls) @ [u32 (length (PPCond ls))]\<rparr>)"
proof -
  from few have u: "u32 (length (PPCond ls)) = length (PPCond ls)"
    by (simp add: Inv_length [OF inv] u32_id)
  from inv have c: "cond_inv (map snd cs) (PPCond ls) (PPStartCond ls)"
    and h: "hash_inv PP cs (PPCond ls) (Out (Writer ls))"
    by (simp_all add: Inv_def)
  from cond_inv_else [OF c ne K, of "of_nat p"]
    hash_inv_snoc [OF hash_inv_update [OF h, of "last (PPStartCond ls)" "length (PPCond ls)"] rec,
      where K = K and t = 0]
  show ?thesis by (simp add: Inv_def u)
qed

text \<open>
  One pass of the loop. \<open>ahead\<close> lists the tokens that the loop still has to take, the one
  in hand first; \<open>rest_of\<close> lists them after the pass, and is empty when the loop ends.
\<close>

definition ahead :: "Token option \<Rightarrow> Lexer \<Rightarrow> Token list" where
  "ahead inhand L = (case inhand of None \<Rightarrow> tokens_of L | Some T \<Rightarrow> T # tokens_of L)"

definition rest_of :: "control \<Rightarrow> Lexer \<Rightarrow> Token list" where
  "rest_of c L =
     (case c of LoopTest T \<Rightarrow> if Kind T = tok_eof then [] else tokens_of L
              | NextToken T \<Rightarrow> T # tokens_of L)"

definition next_ok ::
  "Externals \<Rightarrow> (Token \<times> PPKeywordKind) list \<Rightarrow> LexState \<Rightarrow> Token list \<Rightarrow> bool" where
  "next_ok PP cs ls ts \<longleftrightarrow>
     Inv PP cs ls \<and> well_formed PP ts \<and>
     balance (map snd (conditionals PP ts)) (length (PPStartCond ls)) = Some 0 \<and>
     length cs + length (conditionals PP ts) < 4294967296"

lemma next_okI:
  assumes "next_ok PP cs ls ts" and "conditionals PP ts = new @ conditionals PP ts'"
    and "Inv PP (cs @ new) ls1" and "well_formed PP ts'"
    and "balance (map snd (conditionals PP ts')) (length (PPStartCond ls1)) = Some 0"
  shows "next_ok PP (cs @ new) ls1 ts'"
  using assms by (simp add: next_ok_def)

lemma ahead_head:
  assumes "(case inhand of None \<Rightarrow> LexFromRawLexer L | Some T \<Rightarrow> (T, L)) = (Tok, L1)"
  shows "ahead inhand L = Tok # tokens_of L1 \<or> Kind Tok = tok_eof \<and> ahead inhand L = [Tok]"
proof (cases inhand)
  case None
  with assms lex_tokens [of L Tok L1] show ?thesis by (simp add: ahead_def)
next
  case (Some T)
  with assms show ?thesis by (simp add: ahead_def)
qed

lemma body_step:
  assumes tl: "(case inhand of None \<Rightarrow> LexFromRawLexer L | Some T \<Rightarrow> (T, L)) = (Tok, L1)"
    and ok: "next_ok PP cs ls (ahead inhand L)"
  shows "\<exists>ls1 L2 c new.
     LexTokens_body PP ls Tok L1 = Some (ls1, L2, c) \<and>
     conditionals PP (ahead inhand L) = new @ conditionals PP (rest_of c L2) \<and>
     next_ok PP (cs @ new) ls1 (rest_of c L2)"
proof -
  let ?ts = "ahead inhand L"
  let ?ls0 = "pre_eom PP Tok ls"
  let ?d = "length (PPStartCond ls)"
  from ok have inv: "Inv PP cs ls" and wf: "well_formed PP ?ts"
    and bal: "balance (map snd (conditionals PP ?ts)) ?d = Some 0"
    and few: "length cs + length (conditionals PP ?ts) < 4294967296"
    by (simp_all add: next_ok_def)
  note inv0 = Inv_pre_eom [OF inv, of Tok]
  have fin: ?thesis
    if "LexTokens_body PP ls Tok L1 = Some (ls1, L2, c)"
      and "conditionals PP ?ts = new @ conditionals PP (rest_of c L2)"
      and "Inv PP (cs @ new) ls1" and "well_formed PP (rest_of c L2)"
      and "balance (map snd (conditionals PP (rest_of c L2))) (length (PPStartCond ls1)) = Some 0"
    for ls1 L2 c new
    using that(1,2) next_okI [OF ok that(2-5)] by blast
  have bal_same: "balance (map snd (conditionals PP ts')) ?d = Some 0"
    if "conditionals PP ?ts = conditionals PP ts'" for ts'
    using bal that by simp
  note hd = ahead_head [OF tl]
  show ?thesis
  proof (cases "Kind Tok = tok_eof")
    case True
    have b: "LexTokens_body PP ls Tok L1 = Some (emitted PP Tok ?ls0, L1, LoopTest Tok)"
      using True by (simp add: body_eq)
    from hd True have c: "conditionals PP ?ts = []" by (auto simp: conditionals_eof)
    show ?thesis
    proof (rule fin [OF b, of "[]"])
      show "conditionals PP ?ts = [] @ conditionals PP (rest_of (LoopTest Tok) L1)"
        using c True by (simp add: rest_of_def)
      show "Inv PP (cs @ []) (emitted PP Tok ?ls0)" using inv0 by (simp add: Inv_emitted)
      show "well_formed PP (rest_of (LoopTest Tok) L1)" using True by (simp add: rest_of_def)
      show "balance (map snd (conditionals PP (rest_of (LoopTest Tok) L1)))
              (length (PPStartCond (emitted PP Tok ?ls0))) = Some 0"
        using bal c True by (simp add: rest_of_def)
    qed
  next
    case neof: False
    with hd have ts: "?ts = Tok # tokens_of L1" by simp
    from wf neof have wf1: "well_formed PP (tokens_of L1)" unfolding ts by simp
    show ?thesis
    proof (cases "Kind Tok = tok_hash \<and> isAtStartOfLine PP Tok")
      case False
      let ?Tok' = "if Kind Tok = tok_identifier
                   then Tok\<lparr>getIdentifierInfo := Some (LookUpIdentifierInfo PP Tok)\<rparr> else Tok"
      have k: "Kind ?Tok' = Kind Tok" by simp
      have b: "LexTokens_body PP ls Tok L1 = Some (emitted PP ?Tok' ?ls0, L1, LoopTest ?Tok')"
        using False by (auto simp: body_eq)
      have r: "rest_of (LoopTest ?Tok') L1 = tokens_of L1"
        using neof by (simp add: rest_of_def)
      have c: "conditionals PP ?ts = conditionals PP (tokens_of L1)"
        unfolding ts using neof False by (rule conditionals_skip)
      show ?thesis
      proof (rule fin [OF b, of "[]"])
        show "conditionals PP ?ts = [] @ conditionals PP (rest_of (LoopTest ?Tok') L1)"
          unfolding r using c by simp
        show "Inv PP (cs @ []) (emitted PP ?Tok' ?ls0)" using inv0 by (simp add: Inv_emitted)
        show "well_formed PP (rest_of (LoopTest ?Tok') L1)" unfolding r by (rule wf1)
        show "balance (map snd (conditionals PP (rest_of (LoopTest ?Tok') L1)))
              (length (PPStartCond (emitted PP ?Tok' ?ls0))) = Some 0"
          unfolding r using bal_same [OF c] by simp
      qed
    next
      case hash: True
      then have sol: "isAtStartOfLine PP Tok \<or> Kind Tok = tok_eof" by simp
      note flag = pre_eom_flag [OF sol, of ls]
      obtain N L2 where lexN: "LexFromRawLexer L1 = (N, L2)" by (cases "LexFromRawLexer L1")
      from lex_tokens [OF lexN] obtain r2 where t1: "tokens_of L1 = N # r2"
        and r2: "Kind N \<noteq> tok_eof \<Longrightarrow> r2 = tokens_of L2"
        by auto
      from wf hash have dok: "directive_ok PP (N # r2)" unfolding ts t1 by simp
      then have nsolN: "\<not> isAtStartOfLine PP N" by simp
      have cN: "conditionals PP ?ts =
           (if Kind N = tok_identifier \<and> conditional (keyword_of PP N)
            then [(Tok, keyword_of PP N)] else []) @ conditionals PP (N # r2)"
        unfolding ts t1 using hash nsolN by (simp add: conditionals_hash)
      have body: "LexTokens_body PP ls Tok L1 = hash_at_start_of_line PP Tok ?ls0 L1"
        using hash by (simp add: body_eq)
      let ?ls1 = "(emitted PP Tok ?ls0)\<lparr>ParsingPreprocessorDirective := True\<rparr>"
      let ?p = "length (Out (Writer ?ls0))"
      have inv1: "Inv PP cs ?ls1" using inv0 by (simp add: Inv_emitted)
      have rec: "record_at PP Tok ?p (Out (Writer ?ls1))"
        using record_at_emitted [of PP Tok ?ls0] by simp
      have st1: "PPStartCond ?ls1 = PPStartCond ls" "PPCond ?ls1 = PPCond ls" by simp_all
      show ?thesis
      proof (cases "Kind N = tok_identifier")
        case False
        have b: "LexTokens_body PP ls Tok L1 = Some (emitted PP N (emitted PP Tok ?ls0), L2, LoopTest N)"
          unfolding body hash_eq [OF flag lexN] using nsolN False by simp
        from cN False have c: "conditionals PP ?ts = conditionals PP (N # r2)" by simp
        show ?thesis
        proof (cases "Kind N = tok_eof")
          case True
          then have c0: "conditionals PP ?ts = []" unfolding c by (rule conditionals_eof)
          show ?thesis
          proof (rule fin [OF b, of "[]"])
            show "conditionals PP ?ts = [] @ conditionals PP (rest_of (LoopTest N) L2)"
              using c0 True by (simp add: rest_of_def)
            show "Inv PP (cs @ []) (emitted PP N (emitted PP Tok ?ls0))"
              using inv0 by (simp add: Inv_emitted)
            show "well_formed PP (rest_of (LoopTest N) L2)" using True by (simp add: rest_of_def)
            show "balance (map snd (conditionals PP (rest_of (LoopTest N) L2)))
              (length (PPStartCond (emitted PP N (emitted PP Tok ?ls0)))) = Some 0"
              using bal c0 True by (simp add: rest_of_def)
          qed
        next
          case ne: False
          note r2' = r2 [OF ne]
          have r: "rest_of (LoopTest N) L2 = tokens_of L2" using ne by (simp add: rest_of_def)
          have c2: "conditionals PP ?ts = conditionals PP (tokens_of L2)"
            unfolding c r2' using ne nsolN by (intro conditionals_skip) simp_all
          from wf1 ne have wf2: "well_formed PP (tokens_of L2)" unfolding t1 r2' by simp
          show ?thesis
          proof (rule fin [OF b, of "[]"])
            show "conditionals PP ?ts = [] @ conditionals PP (rest_of (LoopTest N) L2)"
              unfolding r using c2 by simp
            show "Inv PP (cs @ []) (emitted PP N (emitted PP Tok ?ls0))"
              using inv0 by (simp add: Inv_emitted)
            show "well_formed PP (rest_of (LoopTest N) L2)" unfolding r by (rule wf2)
            show "balance (map snd (conditionals PP (rest_of (LoopTest N) L2)))
              (length (PPStartCond (emitted PP N (emitted PP Tok ?ls0)))) = Some 0"
              unfolding r using bal_same [OF c2] by simp
          qed
        qed
      next
        case ident: True
        then have ne: "Kind N \<noteq> tok_eof" by simp
        note r2' = r2 [OF ne]
        let ?K = "keyword_of PP N"
        let ?N' = "N\<lparr>getIdentifierInfo := Some (LookUpIdentifierInfo PP N)\<rparr>"
        have kN': "Kind ?N' \<noteq> tok_eof" using ident by simp
        from dok ident have nk: "?K \<noteq> pp_not_keyword" by simp
        from wf1 ne have wf2: "well_formed PP (tokens_of L2)" unfolding t1 r2' by simp
        have c2: "conditionals PP (N # r2) = conditionals PP (tokens_of L2)"
          unfolding r2' using ne ident by (intro conditionals_skip) simp_all
        have bd: "LexTokens_body PP ls Tok L1 = directive PP ?K (of_nat ?p) ?N' ?ls1 L2"
          unfolding body hash_eq [OF flag lexN] using nsolN ident nk by (simp add: keyword_of_def)
        have rN: "rest_of (LoopTest ?N') L2 = tokens_of L2" using ident by (simp add: rest_of_def)
        consider (inc) "?K \<in> {pp_include, pp_import, pp_include_next}"
          | (opn) "?K \<in> {pp_if, pp_ifdef, pp_ifndef}"
          | (endif) "?K = pp_endif"
          | (els) "?K \<in> {pp_elif, pp_else}"
          | (other) "?K \<notin> {pp_include, pp_import, pp_include_next}" "?K \<notin> {pp_if, pp_ifdef, pp_ifndef}"
              "?K \<noteq> pp_endif" "?K \<notin> {pp_elif, pp_else}"
          by blast
        then show ?thesis
        proof cases
          case inc
          then have nc: "\<not> conditional ?K"
            by (auto simp: conditional_def opens_block_def continues_block_def)
          from cN nc c2 have c: "conditionals PP ?ts = conditionals PP (tokens_of L2)" by simp
          obtain F L3 where lexF: "LexFromRawLexer L2 = (F, L3)" by (cases "LexFromRawLexer L2")
          then have lexF': "LexIncludeFilename L2 = (F, L3)" by (simp add: LexIncludeFilename_def)
          from lex_tokens [OF lexF] obtain r3 where t2: "tokens_of L2 = F # r3"
            and r3: "Kind F \<noteq> tok_eof \<Longrightarrow> r3 = tokens_of L3"
            by auto
          from dok ident inc have nsolF: "\<not> isAtStartOfLine PP F" unfolding r2' t2 by auto
          let ?F' = "if Kind F = tok_identifier
                     then F\<lparr>getIdentifierInfo := Some (LookUpIdentifierInfo PP F)\<rparr> else F"
          have kF: "Kind ?F' = Kind F" by simp
          have b: "LexTokens_body PP ls Tok L1
                     = Some (emitted PP ?F' (emitted PP ?N' ?ls1), L3, LoopTest ?F')"
            unfolding bd directive_include [OF inc lexF'] using nsolF by simp
          have i: "Inv PP (cs @ []) (emitted PP ?F' (emitted PP ?N' ?ls1))"
            using inv1 by (simp add: Inv_emitted del: Inv_flag)
          show ?thesis
          proof (cases "Kind F = tok_eof")
            case True
            then have c0: "conditionals PP ?ts = []" unfolding c t2 by (rule conditionals_eof)
            have r: "rest_of (LoopTest ?F') L3 = []" using True by (simp add: rest_of_def)
            show ?thesis
            proof (rule fin [OF b, of "[]"])
              show "conditionals PP ?ts = [] @ conditionals PP (rest_of (LoopTest ?F') L3)"
                unfolding r using c0 by simp
              show "Inv PP (cs @ []) (emitted PP ?F' (emitted PP ?N' ?ls1))" by (rule i)
              show "well_formed PP (rest_of (LoopTest ?F') L3)" unfolding r by simp
              show "balance (map snd (conditionals PP (rest_of (LoopTest ?F') L3)))
                  (length (PPStartCond (emitted PP ?F' (emitted PP ?N' ?ls1)))) = Some 0"
                unfolding r using bal c0 by simp
            qed
          next
            case nf: False
            note r3' = r3 [OF nf]
            have r: "rest_of (LoopTest ?F') L3 = tokens_of L3" using nf by (simp add: rest_of_def)
            have c3: "conditionals PP ?ts = conditionals PP (tokens_of L3)"
              unfolding c t2 r3' using nf nsolF by (intro conditionals_skip) simp_all
            from wf2 nf have wf3: "well_formed PP (tokens_of L3)" unfolding t2 r3' by simp
            show ?thesis
            proof (rule fin [OF b, of "[]"])
              show "conditionals PP ?ts = [] @ conditionals PP (rest_of (LoopTest ?F') L3)"
                unfolding r using c3 by simp
              show "Inv PP (cs @ []) (emitted PP ?F' (emitted PP ?N' ?ls1))" by (rule i)
              show "well_formed PP (rest_of (LoopTest ?F') L3)" unfolding r by (rule wf3)
              show "balance (map snd (conditionals PP (rest_of (LoopTest ?F') L3)))
                  (length (PPStartCond (emitted PP ?F' (emitted PP ?N' ?ls1)))) = Some 0"
                unfolding r using bal_same [OF c3] by simp
            qed
          qed
        next
          case opn
          then have ob: "opens_block ?K" by (auto simp: opens_block_def)
          then have cd: "conditional ?K" by (simp add: conditional_def)
          from cN cd c2 ident have c: "conditionals PP ?ts = [(Tok, ?K)] @ conditionals PP (tokens_of L2)"
            by simp
          from few c have few': "length cs < 4294967296" by simp
          let ?st = "?ls1\<lparr>PPStartCond := PPStartCond ?ls1 @ [u32 (length (PPCond ?ls1))],
                           PPCond := PPCond ?ls1 @ [(of_nat ?p, 0)]\<rparr>"
          have b: "LexTokens_body PP ls Tok L1 = Some (emitted PP ?N' ?st, L2, LoopTest ?N')"
            unfolding bd by (rule directive_open [OF opn])
          show ?thesis
          proof (rule fin [OF b, of "[(Tok, ?K)]"])
            show "conditionals PP ?ts = [(Tok, ?K)] @ conditionals PP (rest_of (LoopTest ?N') L2)"
              unfolding rN by (rule c)
            show "Inv PP (cs @ [(Tok, ?K)]) (emitted PP ?N' ?st)"
              by (rule Inv_emitted [OF Inv_open [OF inv1 ob rec few']])
            show "well_formed PP (rest_of (LoopTest ?N') L2)" unfolding rN by (rule wf2)
            show "balance (map snd (conditionals PP (rest_of (LoopTest ?N') L2)))
                  (length (PPStartCond (emitted PP ?N' ?st))) = Some 0"
              unfolding rN using bal ob unfolding c by simp
          qed
        next
          case endif
          then have cd: "conditional ?K" by (simp add: conditional_def)
          from cN cd c2 ident endif
          have c: "conditionals PP ?ts = [(Tok, pp_endif)] @ conditionals PP (tokens_of L2)"
            by simp
          from few c have few': "length cs < 4294967296" by simp
          from bal have d: "?d \<noteq> 0" unfolding c by (auto simp: opens_block_def split: if_splits)
          then have ne1: "PPStartCond ?ls1 \<noteq> []" by simp
          note stk = Inv_stack [OF inv1 ne1]
          obtain X L3 where lexX: "Lex_discarding PP L2 = (X, L3)" by (cases "Lex_discarding PP L2")
          let ?st = "?ls1\<lparr>PPStartCond := butlast (PPStartCond ?ls1),
                 PPCond := (PPCond ?ls1)[last (PPStartCond ?ls1) :=
                               (fst (PPCond ?ls1 ! last (PPStartCond ?ls1)), u32 (length (PPCond ?ls1)))]
                             @ [(of_nat ?p, u32 (length (PPCond ?ls1)))]\<rparr>"
          have b: "LexTokens_body PP ls Tok L1 = Some (emitted PP ?N' ?st, L3, NextToken X)"
            unfolding bd endif by (rule directive_endif [OF ne1 stk lexX])
          have r: "rest_of (NextToken X) L3 = X # tokens_of L3" by (simp add: rest_of_def)
          note dt = discard_tokens [OF lexX]
          show ?thesis
          proof (rule fin [OF b, of "[(Tok, pp_endif)]"])
            show "conditionals PP ?ts = [(Tok, pp_endif)] @ conditionals PP (rest_of (NextToken X) L3)"
              unfolding r dt(1) by (rule c)
            show "Inv PP (cs @ [(Tok, pp_endif)]) (emitted PP ?N' ?st)"
              by (rule Inv_emitted [OF Inv_endif [OF inv1 ne1 rec few']])
            show "well_formed PP (rest_of (NextToken X) L3)" unfolding r by (rule dt(2) [OF wf2])
            show "balance (map snd (conditionals PP (rest_of (NextToken X) L3)))
                  (length (PPStartCond (emitted PP ?N' ?st))) = Some 0"
              unfolding r dt(1) using bal d unfolding c by (simp add: opens_block_def)
          qed
        next
          case els
          then have cb: "continues_block ?K" by (auto simp: continues_block_def)
          then have cd: "conditional ?K" by (simp add: conditional_def)
          from cb have nob: "\<not> opens_block ?K" "?K \<noteq> pp_endif"
            by (auto simp: continues_block_def opens_block_def)
          from cN cd c2 ident have c: "conditionals PP ?ts = [(Tok, ?K)] @ conditionals PP (tokens_of L2)"
            by simp
          from few c have few': "length cs < 4294967296" by simp
          from bal nob have d: "?d \<noteq> 0" unfolding c by (auto split: if_splits)
          then have ne1: "PPStartCond ?ls1 \<noteq> []" by simp
          note stk = Inv_stack [OF inv1 ne1]
          let ?st = "?ls1\<lparr>PPCond := (PPCond ?ls1)[last (PPStartCond ?ls1) :=
                               (fst (PPCond ?ls1 ! last (PPStartCond ?ls1)), u32 (length (PPCond ?ls1)))]
                             @ [(of_nat ?p, 0)],
                 PPStartCond := butlast (PPStartCond ?ls1) @ [u32 (length (PPCond ?ls1))]\<rparr>"
          have b: "LexTokens_body PP ls Tok L1 = Some (emitted PP ?N' ?st, L2, LoopTest ?N')"
            unfolding bd by (rule directive_else [OF els ne1 stk])
          show ?thesis
          proof (rule fin [OF b, of "[(Tok, ?K)]"])
            show "conditionals PP ?ts = [(Tok, ?K)] @ conditionals PP (rest_of (LoopTest ?N') L2)"
              unfolding rN by (rule c)
            show "Inv PP (cs @ [(Tok, ?K)]) (emitted PP ?N' ?st)"
              by (rule Inv_emitted [OF Inv_else [OF inv1 ne1 cb rec few']])
            show "well_formed PP (rest_of (LoopTest ?N') L2)" unfolding rN by (rule wf2)
            show "balance (map snd (conditionals PP (rest_of (LoopTest ?N') L2)))
                  (length (PPStartCond (emitted PP ?N' ?st))) = Some 0"
              unfolding rN using bal d nob unfolding c by simp
          qed
        next
          case other
          then have nc: "\<not> conditional ?K"
            by (auto simp: conditional_def opens_block_def continues_block_def)
          from cN nc c2 have c: "conditionals PP ?ts = conditionals PP (tokens_of L2)" by simp
          have b: "LexTokens_body PP ls Tok L1 = Some (emitted PP ?N' ?ls1, L2, LoopTest ?N')"
            unfolding bd by (rule directive_other [OF other])
          show ?thesis
          proof (rule fin [OF b, of "[]"])
            show "conditionals PP ?ts = [] @ conditionals PP (rest_of (LoopTest ?N') L2)"
              unfolding rN using c by simp
            show "Inv PP (cs @ []) (emitted PP ?N' ?ls1)"
              using inv1 by (simp add: Inv_emitted del: Inv_flag)
            show "well_formed PP (rest_of (LoopTest ?N') L2)" unfolding rN by (rule wf2)
            show "balance (map snd (conditionals PP (rest_of (LoopTest ?N') L2)))
                  (length (PPStartCond (emitted PP ?N' ?ls1))) = Some 0"
              unfolding rN using bal_same [OF c] by simp
          qed
        qed
      qed
    qed
  qed
qed

lemma loop_ok:
  "next_ok PP cs ls (ahead inhand L) \<Longrightarrow>
   \<exists>ls'. LexTokens_loop PP ls inhand L = Some ls' \<and> PPStartCond ls' = [] \<and>
         Inv PP (cs @ conditionals PP (ahead inhand L)) ls'"
proof (induction PP ls inhand L arbitrary: cs rule: LexTokens_loop.induct)
  case (1 PP ls inhand L)
  obtain Tok L1 where tl: "(case inhand of None \<Rightarrow> LexFromRawLexer L | Some T \<Rightarrow> (T, L)) = (Tok, L1)"
    by (cases "case inhand of None \<Rightarrow> LexFromRawLexer L | Some T \<Rightarrow> (T, L)")
  from body_step [OF tl "1.prems"] obtain ls1 L2 c new where
    b: "LexTokens_body PP ls Tok L1 = Some (ls1, L2, c)"
    and cs: "conditionals PP (ahead inhand L) = new @ conditionals PP (rest_of c L2)"
    and ok: "next_ok PP (cs @ new) ls1 (rest_of c L2)"
    by blast
  show ?case
  proof (cases c)
    case (LoopTest T')
    show ?thesis
    proof (cases "Kind T' = tok_eof")
      case True
      have loop: "LexTokens_loop PP ls inhand L = Some ls1"
        by (subst LexTokens_loop.simps) (simp add: tl b LoopTest True del: LexTokens_loop.simps)
      have r: "rest_of c L2 = []" using LoopTest True by (simp add: rest_of_def)
      from ok have "Inv PP (cs @ new) ls1" "PPStartCond ls1 = []"
        unfolding r by (simp_all add: next_ok_def)
      with loop show ?thesis unfolding cs r by simp
    next
      case False
      have loop: "LexTokens_loop PP ls inhand L = LexTokens_loop PP ls1 None L2"
        by (subst LexTokens_loop.simps) (simp add: tl b LoopTest False del: LexTokens_loop.simps)
      have r: "rest_of c L2 = ahead None L2" using LoopTest False by (simp add: rest_of_def ahead_def)
      from "1.IH"(1) [OF tl [symmetric] b refl refl LoopTest False ok [unfolded r]]
      show ?thesis unfolding loop cs r by simp
    qed
  next
    case (NextToken T')
    have loop: "LexTokens_loop PP ls inhand L = LexTokens_loop PP ls1 (Some T') L2"
      by (subst LexTokens_loop.simps) (simp add: tl b NextToken del: LexTokens_loop.simps)
    have r: "rest_of c L2 = ahead (Some T') L2" using NextToken by (simp add: rest_of_def ahead_def)
    from "1.IH"(2) [OF tl [symmetric] b refl refl NextToken ok [unfolded r]]
    show ?thesis unfolding loop cs r by simp
  qed
qed

lemma conditionals_hashes:
  "(H, K) \<in> set (conditionals PP ts) \<Longrightarrow>
   Kind H = tok_hash \<and> isAtStartOfLine PP H \<and> conditional K"
  by (induction PP ts rule: conditionals.induct) (auto split: if_splits)

lemma balanced_table:
  assumes wf: "well_formed PP (tokens_of L)"
    and bal: "balance (map snd (conditionals PP (tokens_of L))) 0 = Some 0"
    and few: "length (conditionals PP (tokens_of L)) < 4294967296"
  obtains ls where
    "LexTokens_loop PP (new_LexState (W\<lparr>Out := Pad (Out W) 4\<rparr>)) None L = Some ls"
    "PPStartCond ls = []"
    "length (PPCond ls) = length (conditionals PP (tokens_of L))"
    "\<And>i. i < length (PPCond ls) \<Longrightarrow> snd (conditionals PP (tokens_of L) ! i) = pp_endif \<Longrightarrow>
        snd (PPCond ls ! i) = i \<and> 0 < i"
    "\<And>i. i < length (PPCond ls) \<Longrightarrow> snd (conditionals PP (tokens_of L) ! i) \<noteq> pp_endif \<Longrightarrow>
        next_peer (map snd (conditionals PP (tokens_of L))) i = Some (snd (PPCond ls ! i)) \<and>
        i < snd (PPCond ls ! i)"
    "\<And>i. i < length (PPCond ls) \<Longrightarrow>
        \<exists>p. fst (PPCond ls ! i) = of_nat p \<and>
            record_at PP (fst (conditionals PP (tokens_of L) ! i)) p (Out (Writer ls))"
proof -
  let ?cs = "conditionals PP (tokens_of L)"
  let ?ls0 = "new_LexState (W\<lparr>Out := Pad (Out W) 4\<rparr>)"
  have "next_ok PP [] ?ls0 (ahead None L)"
    using wf bal few by (simp add: next_ok_def Inv_new ahead_def) (simp add: new_LexState_def)
  from loop_ok [OF this] obtain ls where
    loop: "LexTokens_loop PP ?ls0 None L = Some ls" and stk: "PPStartCond ls = []"
    and inv: "Inv PP ?cs ls"
    by (auto simp: ahead_def)
  from inv stk have len: "length (map snd ?cs) = length (PPCond ls)"
    and cl: "closed_ok (map snd ?cs) (PPCond ls) []"
    and hi: "list_all2 (\<lambda>c e. \<exists>p. fst e = of_nat p \<and> record_at PP (fst c) p (Out (Writer ls)))
               ?cs (PPCond ls)"
    by (simp_all add: Inv_def cond_inv_def hash_inv_def)
  from len have len': "length (PPCond ls) = length ?cs" by simp
  have c: "if snd (?cs ! i) = pp_endif then snd (PPCond ls ! i) = i \<and> 0 < i
       else scan (drop (Suc i) (map snd ?cs)) 0 (Suc i) = Inl (snd (PPCond ls ! i))"
    if "i < length (PPCond ls)" for i
    using cl that len' by (simp add: closed_ok_def)
  show ?thesis
  proof (rule that [OF loop stk len'])
    fix i assume i: "i < length (PPCond ls)"
    show "snd (PPCond ls ! i) = i \<and> 0 < i" if "snd (?cs ! i) = pp_endif"
      using c [OF i] that by simp
    show "next_peer (map snd ?cs) i = Some (snd (PPCond ls ! i)) \<and> i < snd (PPCond ls ! i)"
      if "snd (?cs ! i) \<noteq> pp_endif"
    proof -
      from c [OF i] that
      have s: "scan (drop (Suc i) (map snd ?cs)) 0 (Suc i) = Inl (snd (PPCond ls ! i))" by simp
      from scan_found_ge [OF s] s show ?thesis by (simp add: next_peer_def)
    qed
    from i len' have "i < length ?cs" by simp
    from list_all2_nthD [OF hi this]
    show "\<exists>p. fst (PPCond ls ! i) = of_nat p \<and> record_at PP (fst (?cs ! i)) p (Out (Writer ls))" .
  qed
qed

definition conditionals_of :: "Externals \<Rightarrow> Lexer \<Rightarrow> (Token \<times> PPKeywordKind) list" where
  "conditionals_of PP L = conditionals PP (tokens_of L)"

text \<open>
  The file \<^verbatim>\<open>#if A\<close>, \<^verbatim>\<open>#if B\<close>, \<^verbatim>\<open>#endif\<close>, \<^verbatim>\<open>#endif\<close> of four lines.
\<close>

definition nested_lookup :: "Token \<Rightarrow> IdentifierInfo" where
  "nested_lookup T =
     (if getLocation T = 1 \<or> getLocation T = 7 then \<lparr>getIdName = ''if'', getPPKeywordID = pp_if\<rparr>
      else if getLocation T = 13 \<or> getLocation T = 20
        then \<lparr>getIdName = ''endif'', getPPKeywordID = pp_endif\<rparr>
      else if getLocation T = 4 then \<lparr>getIdName = ''A'', getPPKeywordID = pp_not_keyword\<rparr>
      else \<lparr>getIdName = ''B'', getPPKeywordID = pp_not_keyword\<rparr>)"

definition nested_Lexer :: Lexer where
  "nested_Lexer =
     \<lparr>Pending = [hash_Token 1 0, ident_Token 0 2 1, ident_Token 2 1 4,
                 hash_Token 1 6, ident_Token 0 2 7, ident_Token 2 1 10,
                 hash_Token 1 12, ident_Token 0 5 13,
                 hash_Token 1 19, ident_Token 0 5 20],
      EofFlags = 1, EofLoc = 26\<rparr>"

lemma nested_table:
  "map_option (\<lambda>(E, W'). (E, drop 180 (Out W')))
     (LexTokens (example_PP nested_lookup (\<lambda>T. [])) nested_Lexer (new_PTHWriter []))
   = Some (\<lparr>TokenData = 0, PPCondData = 180\<rparr>,
           [4, 0, 0, 0,   0, 0, 0, 0,  3, 0, 0, 0,   48, 0, 0, 0,  2, 0, 0, 0,
            96, 0, 0, 0,  0, 0, 0, 0,   132, 0, 0, 0,  0, 0, 0, 0])"
  by code_simp

lemma nested_loop:
  "map_option (\<lambda>ls. (PPCond ls, length (Out (Writer ls))))
     (LexTokens_loop (example_PP nested_lookup (\<lambda>T. []))
        (new_LexState ((new_PTHWriter [])\<lparr>Out := Pad (Out (new_PTHWriter [])) 4\<rparr>)) None nested_Lexer)
   = Some ([(0, 3), (48, 2), (96, 2), (132, 3)], 180)"
  by code_simp

lemma nested_conditionals:
  "conditionals_of (example_PP nested_lookup (\<lambda>T. [])) nested_Lexer
     = [(hash_Token 1 0, pp_if), (hash_Token 1 6, pp_if),
        (hash_Token 1 12, pp_endif), (hash_Token 1 19, pp_endif)]"
  by code_simp

lemma nested_well_formed:
  "well_formed (example_PP nested_lookup (\<lambda>T. [])) (tokens_of nested_Lexer)"
  by code_simp

lemma nested_peers:
  "next_peer [pp_if, pp_if, pp_endif, pp_endif] 0 = Some 3"
  "next_peer [pp_if, pp_if, pp_endif, pp_endif] 1 = Some 2"
  by code_simp+

text \<open>
Claim C1, as amended. Take a file whose conditionals are balanced, in which every \<^verbatim>\<open>#\<close> that
  starts a line is followed as the assertions of \<^verbatim>\<open>LexTokens\<close> require, and with fewer than
  \<open>2^32\<close> conditional directives. Then the loop of \<^verbatim>\<open>LexTokens\<close> ends with an empty stack and
  with one entry of \<open>PPCond\<close> for each conditional directive of the file, in order. The target
  of the entry of an \<^verbatim>\<open>#endif\<close> is its own index; the target of any other entry (\<^verbatim>\<open>#if\<close>,
  \<^verbatim>\<open>#ifdef\<close>, \<^verbatim>\<open>#ifndef\<close>, \<^verbatim>\<open>#elif\<close>, \<^verbatim>\<open>#else\<close>) is the index of its next peer. The first component
  of the entry is, in 32 bits, the position in the output of the record of the \<^verbatim>\<open>#\<close> of the
  directive. \<^verbatim>\<open>LexTokens\<close> returns, and after the tokens it has written the number of entries
  and, for each entry, its first component less the offset of the tokens, then the target,
  or 0 for the entry of an \<^verbatim>\<open>#endif\<close>. The file \<^verbatim>\<open>#if A\<close>, \<^verbatim>\<open>#if B\<close>, \<^verbatim>\<open>#endif\<close>, \<^verbatim>\<open>#endif\<close> gives four
  entries with the targets 3, 2, 0, 0.
\<close>

theorem PPCond_table:
  assumes "well_formed PP (tokens_of L)"
    and "balance (map snd (conditionals_of PP L)) 0 = Some 0"
    and "length (conditionals_of PP L) < 4294967296"
  shows "(\<exists>ls.
      LexTokens_loop PP (new_LexState (W\<lparr>Out := Pad (Out W) 4\<rparr>)) None L = Some ls \<and>
      PPStartCond ls = [] \<and>
      length (PPCond ls) = length (conditionals_of PP L) \<and>
      (\<forall>i<length (conditionals_of PP L).
         case conditionals_of PP L ! i of (H, K) \<Rightarrow>
           Kind H = tok_hash \<and> isAtStartOfLine PP H \<and>
           (if K = pp_endif then snd (PPCond ls ! i) = i
            else next_peer (map snd (conditionals_of PP L)) i = Some (snd (PPCond ls ! i))) \<and>
           (\<exists>p. fst (PPCond ls ! i) = of_nat p \<and> p + 12 \<le> length (Out (Writer ls)) \<and>
                take 4 (drop p (Out (Writer ls)))
                  = Emit32 [] (TokenKindValue PP tok_hash OR push_bit 8 (Flags H)
                                 OR push_bit 16 (Length H)) \<and>
                take 4 (drop (p + 8) (Out (Writer ls)))
                  = Emit32 [] (getFileOffset PP (getLocation H)))) \<and>
      LexTokens PP L W =
        Some (\<lparr>TokenData = of_nat (length (Pad (Out W) 4)),
               PPCondData = of_nat (length (Out (Writer ls)))\<rparr>,
              (Writer ls)\<lparr>Out := Out (Writer ls)
                 @ Emit32 [] (of_nat (length (conditionals_of PP L)))
                 @ concat (map (\<lambda>i. Emit32 [] (fst (PPCond ls ! i) - of_nat (length (Pad (Out W) 4)))
                                     @ Emit32 [] (if snd (conditionals_of PP L ! i) = pp_endif then 0
                                                  else of_nat (snd (PPCond ls ! i))))
                             [0..<length (conditionals_of PP L)])\<rparr>)) \<and>
   map_option (\<lambda>(E, W'). (E, drop 180 (Out W')))
     (LexTokens (example_PP nested_lookup (\<lambda>T. [])) nested_Lexer (new_PTHWriter []))
   = Some (\<lparr>TokenData = 0, PPCondData = 180\<rparr>,
           [4, 0, 0, 0,   0, 0, 0, 0,  3, 0, 0, 0,   48, 0, 0, 0,  2, 0, 0, 0,
            96, 0, 0, 0,  0, 0, 0, 0,   132, 0, 0, 0,  0, 0, 0, 0])"
proof (rule conjI [OF _ nested_table])
  let ?cs = "conditionals_of PP L"
  let ?toff = "of_nat (length (Pad (Out W) 4)) :: Offset"
  note cs = conditionals_of_def [of PP L]
  from assms have wf: "well_formed PP (tokens_of L)"
    and bal: "balance (map snd (conditionals PP (tokens_of L))) 0 = Some 0"
    and few: "length (conditionals PP (tokens_of L)) < 4294967296"
    by (simp_all add: cs)
  obtain ls where
    loop: "LexTokens_loop PP (new_LexState (W\<lparr>Out := Pad (Out W) 4\<rparr>)) None L = Some ls"
    and stk: "PPStartCond ls = []"
    and len: "length (PPCond ls) = length ?cs"
    and e: "\<And>i. i < length (PPCond ls) \<Longrightarrow> snd (?cs ! i) = pp_endif \<Longrightarrow>
        snd (PPCond ls ! i) = i \<and> 0 < i"
    and o: "\<And>i. i < length (PPCond ls) \<Longrightarrow> snd (?cs ! i) \<noteq> pp_endif \<Longrightarrow>
        next_peer (map snd ?cs) i = Some (snd (PPCond ls ! i)) \<and> i < snd (PPCond ls ! i)"
    and h: "\<And>i. i < length (PPCond ls) \<Longrightarrow>
        \<exists>p. fst (PPCond ls ! i) = of_nat p \<and> record_at PP (fst (?cs ! i)) p (Out (Writer ls))"
    unfolding cs by (rule balanced_table [OF wf bal few, of W]) blast
  have entries: "\<forall>i<length ?cs.
         case ?cs ! i of (H, K) \<Rightarrow>
           Kind H = tok_hash \<and> isAtStartOfLine PP H \<and>
           (if K = pp_endif then snd (PPCond ls ! i) = i
            else next_peer (map snd ?cs) i = Some (snd (PPCond ls ! i))) \<and>
           (\<exists>p. fst (PPCond ls ! i) = of_nat p \<and> p + 12 \<le> length (Out (Writer ls)) \<and>
                take 4 (drop p (Out (Writer ls)))
                  = Emit32 [] (TokenKindValue PP tok_hash OR push_bit 8 (Flags H)
                                 OR push_bit 16 (Length H)) \<and>
                take 4 (drop (p + 8) (Out (Writer ls)))
                  = Emit32 [] (getFileOffset PP (getLocation H)))"
  proof (intro allI impI)
    fix i assume i: "i < length ?cs"
    obtain H K where HK: "?cs ! i = (H, K)" by (cases "?cs ! i")
    from i have i': "i < length (PPCond ls)" by (simp add: len)
    from i HK have "(H, K) \<in> set (conditionals PP (tokens_of L))"
      unfolding cs [symmetric] by (metis nth_mem)
    from conditionals_hashes [OF this] have H: "Kind H = tok_hash" "isAtStartOfLine PP H" by simp_all
    from e [OF i'] o [OF i'] HK
    have t: "if K = pp_endif then snd (PPCond ls ! i) = i
            else next_peer (map snd ?cs) i = Some (snd (PPCond ls ! i))"
      by (cases "K = pp_endif") simp_all
    from h [OF i'] HK H(1)
    have p: "\<exists>p. fst (PPCond ls ! i) = of_nat p \<and> p + 12 \<le> length (Out (Writer ls)) \<and>
                take 4 (drop p (Out (Writer ls)))
                  = Emit32 [] (TokenKindValue PP tok_hash OR push_bit 8 (Flags H)
                                 OR push_bit 16 (Length H)) \<and>
                take 4 (drop (p + 8) (Out (Writer ls)))
                  = Emit32 [] (getFileOffset PP (getLocation H))"
      by (simp add: record_at_def token_word0_def)
    from H t p show "case ?cs ! i of (H, K) \<Rightarrow>
           Kind H = tok_hash \<and> isAtStartOfLine PP H \<and>
           (if K = pp_endif then snd (PPCond ls ! i) = i
            else next_peer (map snd ?cs) i = Some (snd (PPCond ls ! i))) \<and>
           (\<exists>p. fst (PPCond ls ! i) = of_nat p \<and> p + 12 \<le> length (Out (Writer ls)) \<and>
                take 4 (drop p (Out (Writer ls)))
                  = Emit32 [] (TokenKindValue PP tok_hash OR push_bit 8 (Flags H)
                                 OR push_bit 16 (Length H)) \<and>
                take 4 (drop (p + 8) (Out (Writer ls)))
                  = Emit32 [] (getFileOffset PP (getLocation H)))"
      unfolding HK by simp
  qed
  from few have u: "u32 (length ?cs) = length ?cs"
    unfolding cs by (rule u32_id)
  have nz: "\<forall>i\<in>set [0..<length ?cs]. snd (PPCond ls ! i) \<noteq> 0"
  proof
    fix i assume "i \<in> set [0..<length ?cs]"
    then have i: "i < length (PPCond ls)" by (simp add: len)
    from e [OF i] o [OF i] show "snd (PPCond ls ! i) \<noteq> 0"
      by (cases "snd (?cs ! i) = pp_endif") auto
  qed
  have eq: "map (\<lambda>i. Emit32 [] (fst (PPCond ls ! i) - ?toff)
                  @ Emit32 [] (if snd (PPCond ls ! i) = i then 0 else of_nat (snd (PPCond ls ! i))))
              [0..<length ?cs]
          = map (\<lambda>i. Emit32 [] (fst (PPCond ls ! i) - ?toff)
                  @ Emit32 [] (if snd (?cs ! i) = pp_endif then 0 else of_nat (snd (PPCond ls ! i))))
              [0..<length ?cs]"
  proof (rule map_cong [OF refl])
    fix i assume "i \<in> set [0..<length ?cs]"
    then have i: "i < length (PPCond ls)" by (simp add: len)
    from e [OF i] o [OF i]
    have "snd (PPCond ls ! i) = i \<longleftrightarrow> snd (?cs ! i) = pp_endif"
      by (cases "snd (?cs ! i) = pp_endif") auto
    then show "Emit32 [] (fst (PPCond ls ! i) - ?toff)
                  @ Emit32 [] (if snd (PPCond ls ! i) = i then 0 else of_nat (snd (PPCond ls ! i)))
        = Emit32 [] (fst (PPCond ls ! i) - ?toff)
                  @ Emit32 [] (if snd (?cs ! i) = pp_endif then 0 else of_nat (snd (PPCond ls ! i)))"
      by simp
  qed
  have result: "LexTokens PP L W =
        Some (\<lparr>TokenData = ?toff, PPCondData = of_nat (length (Out (Writer ls)))\<rparr>,
              (Writer ls)\<lparr>Out := Out (Writer ls)
                 @ Emit32 [] (of_nat (length ?cs))
                 @ concat (map (\<lambda>i. Emit32 [] (fst (PPCond ls ! i) - ?toff)
                                     @ Emit32 [] (if snd (?cs ! i) = pp_endif then 0
                                                  else of_nat (snd (PPCond ls ! i))))
                             [0..<length ?cs])\<rparr>)"
    unfolding LexTokens_def
    by (simp add: Let_def loop stk u Emit_PPCond_eq [OF nz] eq tell_def len
          Emit32_append [of "Out (Writer ls)"] del: LexTokens_loop.simps)
  show "\<exists>ls.
      LexTokens_loop PP (new_LexState (W\<lparr>Out := Pad (Out W) 4\<rparr>)) None L = Some ls \<and>
      PPStartCond ls = [] \<and>
      length (PPCond ls) = length ?cs \<and>
      (\<forall>i<length ?cs.
         case ?cs ! i of (H, K) \<Rightarrow>
           Kind H = tok_hash \<and> isAtStartOfLine PP H \<and>
           (if K = pp_endif then snd (PPCond ls ! i) = i
            else next_peer (map snd ?cs) i = Some (snd (PPCond ls ! i))) \<and>
           (\<exists>p. fst (PPCond ls ! i) = of_nat p \<and> p + 12 \<le> length (Out (Writer ls)) \<and>
                take 4 (drop p (Out (Writer ls)))
                  = Emit32 [] (TokenKindValue PP tok_hash OR push_bit 8 (Flags H)
                                 OR push_bit 16 (Length H)) \<and>
                take 4 (drop (p + 8) (Out (Writer ls)))
                  = Emit32 [] (getFileOffset PP (getLocation H)))) \<and>
      LexTokens PP L W =
        Some (\<lparr>TokenData = ?toff, PPCondData = of_nat (length (Out (Writer ls)))\<rparr>,
              (Writer ls)\<lparr>Out := Out (Writer ls)
                 @ Emit32 [] (of_nat (length ?cs))
                 @ concat (map (\<lambda>i. Emit32 [] (fst (PPCond ls ! i) - ?toff)
                                     @ Emit32 [] (if snd (?cs ! i) = pp_endif then 0
                                                  else of_nat (snd (PPCond ls ! i))))
                             [0..<length ?cs])\<rparr>)"
    by (rule exI [of _ ls]) (intro conjI loop stk len entries result)
qed

text \<open>
  The nested conditionals: the table in memory has the targets 3, 2, 2, 3, and the file
  has 0 for the two entries of \<^verbatim>\<open>#endif\<close>.
\<close>

theorem PPCond_table_witness:
  "\<exists>ls.
     LexTokens_loop (example_PP nested_lookup (\<lambda>T. []))
        (new_LexState ((new_PTHWriter [])\<lparr>Out := Pad (Out (new_PTHWriter [])) 4\<rparr>)) None nested_Lexer
       = Some ls \<and>
     PPStartCond ls = [] \<and>
     conditionals_of (example_PP nested_lookup (\<lambda>T. [])) nested_Lexer
       = [(hash_Token 1 0, pp_if), (hash_Token 1 6, pp_if),
          (hash_Token 1 12, pp_endif), (hash_Token 1 19, pp_endif)] \<and>
     PPCond ls = [(0, 3), (48, 2), (96, 2), (132, 3)] \<and>
     next_peer (map snd (conditionals_of (example_PP nested_lookup (\<lambda>T. [])) nested_Lexer)) 0
       = Some (snd (PPCond ls ! 0)) \<and>
     next_peer (map snd (conditionals_of (example_PP nested_lookup (\<lambda>T. [])) nested_Lexer)) 1
       = Some (snd (PPCond ls ! 1)) \<and>
     map_option (\<lambda>(E, W'). drop (length (Out (Writer ls))) (Out W'))
       (LexTokens (example_PP nested_lookup (\<lambda>T. [])) nested_Lexer (new_PTHWriter []))
       = Some (Emit32 [] 4 @ Emit32 [] 0 @ Emit32 [] 3 @ Emit32 [] 48 @ Emit32 [] 2
               @ Emit32 [] 96 @ Emit32 [] 0 @ Emit32 [] 132 @ Emit32 [] 0)"
proof -
  let ?PP = "example_PP nested_lookup (\<lambda>T. [])"
  let ?W = "new_PTHWriter []"
  note cs = nested_conditionals
  have bal: "balance (map snd (conditionals_of ?PP nested_Lexer)) 0 = Some 0"
    unfolding cs by (simp add: opens_block_def)
  have few: "length (conditionals_of ?PP nested_Lexer) < 4294967296"
    unfolding cs by simp
  from PPCond_table [OF nested_well_formed bal few, of ?W, THEN conjunct1] obtain ls where
    loop: "LexTokens_loop ?PP (new_LexState (?W\<lparr>Out := Pad (Out ?W) 4\<rparr>)) None nested_Lexer = Some ls"
    and stk: "PPStartCond ls = []"
    and entries: "\<forall>i<length (conditionals_of ?PP nested_Lexer).
         case conditionals_of ?PP nested_Lexer ! i of (H, K) \<Rightarrow>
           Kind H = tok_hash \<and> isAtStartOfLine ?PP H \<and>
           (if K = pp_endif then snd (PPCond ls ! i) = i
            else next_peer (map snd (conditionals_of ?PP nested_Lexer)) i = Some (snd (PPCond ls ! i))) \<and>
           (\<exists>p. fst (PPCond ls ! i) = of_nat p \<and> p + 12 \<le> length (Out (Writer ls)) \<and>
                take 4 (drop p (Out (Writer ls)))
                  = Emit32 [] (TokenKindValue ?PP tok_hash OR push_bit 8 (Flags H)
                                 OR push_bit 16 (Length H)) \<and>
                take 4 (drop (p + 8) (Out (Writer ls)))
                  = Emit32 [] (getFileOffset ?PP (getLocation H)))"
    and result: "LexTokens ?PP nested_Lexer ?W =
        Some (\<lparr>TokenData = of_nat (length (Pad (Out ?W) 4)),
               PPCondData = of_nat (length (Out (Writer ls)))\<rparr>,
              (Writer ls)\<lparr>Out := Out (Writer ls)
                 @ Emit32 [] (of_nat (length (conditionals_of ?PP nested_Lexer)))
                 @ concat (map (\<lambda>i. Emit32 [] (fst (PPCond ls ! i) - of_nat (length (Pad (Out ?W) 4)))
                                     @ Emit32 [] (if snd (conditionals_of ?PP nested_Lexer ! i) = pp_endif then 0
                                                  else of_nat (snd (PPCond ls ! i))))
                             [0..<length (conditionals_of ?PP nested_Lexer)])\<rparr>)"
    by blast
  from nested_loop loop have pc: "PPCond ls = [(0, 3), (48, 2), (96, 2), (132, 3)]"
    by (simp del: LexTokens_loop.simps)
  from entries have np: "next_peer (map snd (conditionals_of ?PP nested_Lexer)) 0 = Some (snd (PPCond ls ! 0))"
    "next_peer (map snd (conditionals_of ?PP nested_Lexer)) 1 = Some (snd (PPCond ls ! 1))"
    unfolding cs by (auto dest: spec [of _ 0] spec [of _ 1])
  have pad: "Pad (Out ?W) 4 = []" by (simp add: new_PTHWriter_def Pad_def tell_def)
  have "[0..<4] = [0, 1, 2, 3]" by (simp add: upt_rec)
  then have bytes: "map_option (\<lambda>(E, W'). drop (length (Out (Writer ls))) (Out W'))
       (LexTokens ?PP nested_Lexer ?W)
       = Some (Emit32 [] 4 @ Emit32 [] 0 @ Emit32 [] 3 @ Emit32 [] 48 @ Emit32 [] 2
               @ Emit32 [] 96 @ Emit32 [] 0 @ Emit32 [] 132 @ Emit32 [] 0)"
    unfolding result cs by (simp add: pc pad)
  show ?thesis
    by (rule exI [of _ ls]) (intro conjI loop stk cs pc np bytes)
qed

text \<open>
  The file \<^verbatim>\<open>#\<close>, \<^verbatim>\<open>#if A\<close>, \<^verbatim>\<open>#endif\<close> of three lines: a \<^verbatim>\<open>#\<close> alone on its line, then a balanced
  conditional.
\<close>

definition null_lookup :: "Token \<Rightarrow> IdentifierInfo" where
  "null_lookup T =
     (if getLocation T = 3 then \<lparr>getIdName = ''if'', getPPKeywordID = pp_if\<rparr>
      else if getLocation T = 9 then \<lparr>getIdName = ''endif'', getPPKeywordID = pp_endif\<rparr>
      else \<lparr>getIdName = ''A'', getPPKeywordID = pp_not_keyword\<rparr>)"

definition null_Lexer :: Lexer where
  "null_Lexer =
     \<lparr>Pending = [hash_Token 1 0,
                 hash_Token 1 2, ident_Token 0 2 3, ident_Token 2 1 6,
                 hash_Token 1 8, ident_Token 0 5 9],
      EofFlags = 1, EofLoc = 15\<rparr>"

lemma null_aborts:
  "Option.is_none (LexTokens (example_PP null_lookup (\<lambda>T. [])) null_Lexer (new_PTHWriter []))"
  by code_simp

text \<open>
Claim C1 as stated fails: the conditionals of this file are balanced, one \<^verbatim>\<open>#if\<close> and its
  \<^verbatim>\<open>#endif\<close>, and \<^verbatim>\<open>LexTokens\<close> builds no table: the token after the first \<^verbatim>\<open>#\<close> starts a line, and
  the assertion of line 471 fails.
\<close>

theorem balanced_file_aborts:
  "map snd (conditionals_of (example_PP null_lookup (\<lambda>T. [])) null_Lexer) = [pp_if, pp_endif] \<and>
   balance (map snd (conditionals_of (example_PP null_lookup (\<lambda>T. [])) null_Lexer)) 0 = Some 0 \<and>
   \<not> well_formed (example_PP null_lookup (\<lambda>T. [])) (tokens_of null_Lexer) \<and>
   LexTokens (example_PP null_lookup (\<lambda>T. [])) null_Lexer (new_PTHWriter []) = None"
proof -
  have "map snd (conditionals_of (example_PP null_lookup (\<lambda>T. [])) null_Lexer) = [pp_if, pp_endif]"
    by code_simp
  moreover have "balance [pp_if, pp_endif] 0 = Some 0" by (simp add: opens_block_def)
  moreover have "\<not> well_formed (example_PP null_lookup (\<lambda>T. [])) (tokens_of null_Lexer)"
    by code_simp
  moreover from null_aborts
  have "LexTokens (example_PP null_lookup (\<lambda>T. [])) null_Lexer (new_PTHWriter []) = None"
    by (simp add: Option.is_none_def)
  ultimately show ?thesis by simp
qed

end
